(* ===== verification/Rust_Prelude.thy ===== *)
theory Rust_Prelude
  imports Main "HOL-Library.Monad_Syntax" "HOL-Library.Word" "HOL-Library.Product_Lexorder"
begin

section \<open>The fragment of Rust the development uses\<close>

text \<open>
  Shared vocabulary of the consensus theories.

  A Rust computation that may panic is a value of \<^typ>\<open>'a option\<close>: \<^term>\<open>None\<close> is the panic
  (an \<open>assert!\<close> that fails, an \<open>unwrap\<close> or \<open>expect\<close> on \<open>None\<close>, an index out of range, an
  integer overflow in a build with overflow checks), and the \<open>do\<close> notation sequences such
  computations. A Rust \<open>Result\<close> is a sum, with \<^term>\<open>Inl\<close> for the error.

  Unsigned machine integers are natural numbers; the operations that can leave the width
  are the checked ones below. A build without overflow checks wraps instead of panicking, so
  a run of the model that returns describes both kinds of build, and a theorem that an
  operation returns also states that no overflow happens in it.

  \<open>BTreeSet\<close> is a strictly ascending list and \<open>BTreeMap\<close> an association list with strictly
  ascending keys, which makes the iteration order, \<open>first\<close>, \<open>last\<close> and \<open>range\<close> of the Rust
  containers explicit and executable. The locale \<open>ordered_map\<close> states what clients rely on.
\<close>

named_theorems panic_simps \<open>rules that turn a returning computation into the facts it checked\<close>

lemmas [panic_simps] = Option.bind_eq_Some_conv

subsection \<open>Machine integers\<close>

definition u16_max :: nat where
  "u16_max = 65535"

definition u32_max :: nat where
  "u32_max = 4294967295"

definition u64_max :: nat where
  "u64_max = 18446744073709551615"

definition as_u32 :: "nat \<Rightarrow> nat" where
  "as_u32 n = n mod (u32_max + 1)"

definition u32_add :: "nat \<Rightarrow> nat \<Rightarrow> nat option" where
  "u32_add a b = (if a + b \<le> u32_max then Some (a + b) else None)"

definition u32_mul :: "nat \<Rightarrow> nat \<Rightarrow> nat option" where
  "u32_mul a b = (if a * b \<le> u32_max then Some (a * b) else None)"

definition u64_add :: "nat \<Rightarrow> nat \<Rightarrow> nat option" where
  "u64_add a b = (if a + b \<le> u64_max then Some (a + b) else None)"

definition u64_mul :: "nat \<Rightarrow> nat \<Rightarrow> nat option" where
  "u64_mul a b = (if a * b \<le> u64_max then Some (a * b) else None)"

definition checked_sub :: "nat \<Rightarrow> nat \<Rightarrow> nat option" where
  "checked_sub a b = (if b \<le> a then Some (a - b) else None)"

text \<open>Truncated subtraction on naturals is Rust's \<open>saturating_sub\<close>.\<close>

abbreviation (input) saturating_sub :: "nat \<Rightarrow> nat \<Rightarrow> nat" where
  "saturating_sub a b \<equiv> a - b"

definition u32_saturating_add :: "nat \<Rightarrow> nat \<Rightarrow> nat" where
  "u32_saturating_add a b = min u32_max (a + b)"

lemma u32_add_Some [panic_simps]: "u32_add a b = Some c \<longleftrightarrow> c = a + b \<and> a + b \<le> u32_max"
  by (auto simp: u32_add_def)

lemma u32_mul_Some [panic_simps]: "u32_mul a b = Some c \<longleftrightarrow> c = a * b \<and> a * b \<le> u32_max"
  by (auto simp: u32_mul_def)

lemma u64_add_Some [panic_simps]: "u64_add a b = Some c \<longleftrightarrow> c = a + b \<and> a + b \<le> u64_max"
  by (auto simp: u64_add_def)

lemma u64_mul_Some [panic_simps]: "u64_mul a b = Some c \<longleftrightarrow> c = a * b \<and> a * b \<le> u64_max"
  by (auto simp: u64_mul_def)

lemma checked_sub_Some [panic_simps]: "checked_sub a b = Some c \<longleftrightarrow> c = a - b \<and> b \<le> a"
  by (auto simp: checked_sub_def)

lemma as_u32_id: "n \<le> u32_max \<Longrightarrow> as_u32 n = n"
  by (simp add: as_u32_def)

subsection \<open>Assertions, vectors and loops\<close>

definition rassert :: "bool \<Rightarrow> unit option" where
  "rassert b = (if b then Some () else None)"

lemma rassert_Some [panic_simps]: "rassert b = Some u \<longleftrightarrow> b"
  by (simp add: rassert_def)

lemma rassert_True [simp]: "rassert True = Some ()"
  by (simp add: rassert_def)

lemma rassert_False [simp]: "rassert False = None"
  by (simp add: rassert_def)

definition vec_get :: "'a list \<Rightarrow> nat \<Rightarrow> 'a option" where
  "vec_get xs i = (if i < length xs then Some (xs ! i) else None)"

definition vec_set :: "'a list \<Rightarrow> nat \<Rightarrow> 'a \<Rightarrow> 'a list option" where
  "vec_set xs i v = (if i < length xs then Some (xs[i := v]) else None)"

lemma vec_get_Some [panic_simps]: "vec_get xs i = Some x \<longleftrightarrow> i < length xs \<and> x = xs ! i"
  by (auto simp: vec_get_def)

lemma vec_set_Some [panic_simps]:
  "vec_set xs i v = Some ys \<longleftrightarrow> i < length xs \<and> ys = xs[i := v]"
  by (auto simp: vec_set_def)

text \<open>A \<open>for\<close> loop whose body may panic.\<close>

primrec for_each :: "('a \<Rightarrow> 's \<Rightarrow> 's option) \<Rightarrow> 'a list \<Rightarrow> 's \<Rightarrow> 's option" where
  "for_each f [] s = Some s"
| "for_each f (x # xs) s = do { s' \<leftarrow> f x s; for_each f xs s' }"

lemma for_each_append:
  "for_each f (xs @ ys) s = do { s' \<leftarrow> for_each f xs s; for_each f ys s' }"
  by (induction xs arbitrary: s) (auto split: Option.bind_splits)

lemma for_each_inv:
  assumes "for_each f xs s = Some s'" and "I s"
    and "\<And>x s s'. x \<in> set xs \<Longrightarrow> I s \<Longrightarrow> f x s = Some s' \<Longrightarrow> I s'"
  shows "I s'"
  using assms
proof (induction xs arbitrary: s)
  case Nil
  then show ?case by simp
next
  case (Cons x xs)
  then obtain t where t: "f x s = Some t" "for_each f xs t = Some s'"
    by (auto simp: panic_simps)
  have "I t" using Cons.prems(2,3) t(1) by (meson list.set_intros(1))
  with t(2) Cons.prems(3) show ?case by (meson Cons.IH list.set_intros(2))
qed

lemma for_each_total:
  assumes "I s" and "\<And>x s. x \<in> set xs \<Longrightarrow> I s \<Longrightarrow> \<exists>s'. f x s = Some s' \<and> I s'"
  shows "\<exists>s'. for_each f xs s = Some s' \<and> I s'"
  using assms
proof (induction xs arbitrary: s)
  case Nil
  then show ?case by simp
next
  case (Cons x xs)
  then obtain t where t: "f x s = Some t" "I t" by (meson list.set_intros(1))
  have "\<exists>s'. for_each f xs t = Some s' \<and> I s'"
    by (rule Cons.IH [OF t(2)]) (use Cons.prems(2) in \<open>meson list.set_intros(2)\<close>)
  with t(1) show ?case by simp
qed

text \<open>A loop body that never panics is a fold.\<close>

lemma for_each_fold:
  "(\<And>x s. x \<in> set xs \<Longrightarrow> f x s = Some (g x s)) \<Longrightarrow> for_each f xs s = Some (fold g xs s)"
  by (induction xs arbitrary: s) auto

text \<open>Iterator \<open>map\<close> followed by \<open>collect\<close>, with a closure that may panic.\<close>

primrec map_opt :: "('a \<Rightarrow> 'b option) \<Rightarrow> 'a list \<Rightarrow> 'b list option" where
  "map_opt f [] = Some []"
| "map_opt f (x # xs) = do { y \<leftarrow> f x; ys \<leftarrow> map_opt f xs; Some (y # ys) }"

lemma map_opt_Some [panic_simps]:
  "map_opt f xs = Some ys \<longleftrightarrow> list_all2 (\<lambda>x y. f x = Some y) xs ys"
  by (induction xs arbitrary: ys) (auto simp: panic_simps list_all2_Cons1)

lemma map_opt_total: "(\<And>x. x \<in> set xs \<Longrightarrow> f x = Some (g x)) \<Longrightarrow> map_opt f xs = Some (map g xs)"
  by (induction xs) auto

lemma map_opt_length: "map_opt f xs = Some ys \<Longrightarrow> length ys = length xs"
  by (auto simp: panic_simps dest: list_all2_lengthD)

text \<open>Iterator \<open>filter\<close> with a closure that may panic.\<close>

primrec filter_opt :: "('a \<Rightarrow> bool option) \<Rightarrow> 'a list \<Rightarrow> 'a list option" where
  "filter_opt f [] = Some []"
| "filter_opt f (x # xs) = do { b \<leftarrow> f x; ys \<leftarrow> filter_opt f xs; Some (if b then x # ys else ys) }"

lemma filter_opt_total: "(\<And>x. x \<in> set xs \<Longrightarrow> f x = Some (g x)) \<Longrightarrow> filter_opt f xs = Some (filter g xs)"
  by (induction xs) auto

lemma filter_opt_SomeD:
  "filter_opt f xs = Some ys \<Longrightarrow> (\<forall>x\<in>set xs. f x \<noteq> None) \<and> ys = filter (\<lambda>x. f x = Some True) xs"
  by (induction xs arbitrary: ys) (auto simp: panic_simps split: if_splits)

text \<open>Checked sum of a list of \<open>u64\<close> values.\<close>

definition u64_sum :: "nat list \<Rightarrow> nat option" where
  "u64_sum xs = for_each (\<lambda>x s. u64_add s x) xs 0"

lemma u64_sum_from:
  "for_each (\<lambda>x s. u64_add s x) xs s
     = (if s + sum_list xs \<le> u64_max \<or> xs = [] then Some (s + sum_list xs) else None)"
  by (induction xs arbitrary: s) (auto simp: u64_add_def)

lemma u64_sum_eq: "u64_sum xs = (if sum_list xs \<le> u64_max then Some (sum_list xs) else None)"
  by (auto simp: u64_sum_def u64_sum_from)

lemma u64_sum_Some [panic_simps]: "u64_sum xs = Some s \<longleftrightarrow> s = sum_list xs \<and> s \<le> u64_max"
  by (auto simp: u64_sum_eq)

subsection \<open>BTreeSet\<close>

fun bset_insert :: "'a::linorder \<Rightarrow> 'a list \<Rightarrow> 'a list" where
  "bset_insert x [] = [x]"
| "bset_insert x (y # ys) =
     (if x < y then x # y # ys else if x = y then y # ys else y # bset_insert x ys)"

definition bset_remove :: "'a \<Rightarrow> 'a list \<Rightarrow> 'a list" where
  "bset_remove x xs = filter (\<lambda>y. y \<noteq> x) xs"

definition bset_extend :: "'a::linorder list \<Rightarrow> 'a list \<Rightarrow> 'a list" where
  "bset_extend s xs = fold bset_insert xs s"

definition bset_last :: "'a list \<Rightarrow> 'a option" where
  "bset_last xs = (if xs = [] then None else Some (last xs))"

definition bset_first :: "'a list \<Rightarrow> 'a option" where
  "bset_first xs = (case xs of [] \<Rightarrow> None | x # _ \<Rightarrow> Some x)"

abbreviation bset_wf :: "'a::linorder list \<Rightarrow> bool" where
  "bset_wf xs \<equiv> sorted_wrt (<) xs"

lemma set_bset_insert [simp]: "set (bset_insert x xs) = insert x (set xs)"
  by (induction xs) auto

lemma bset_wf_insert [simp]: "bset_wf xs \<Longrightarrow> bset_wf (bset_insert x xs)"
  by (induction xs) auto

lemma bset_insert_member: "bset_wf xs \<Longrightarrow> x \<in> set xs \<Longrightarrow> bset_insert x xs = xs"
  by (induction xs) auto

lemma bset_insert_not_Nil [simp]: "bset_insert x xs \<noteq> []"
  by (cases xs) auto

lemma bset_wf_distinct: "bset_wf xs \<Longrightarrow> distinct xs"
  by (induction xs) auto

lemma set_bset_remove [simp]: "set (bset_remove x xs) = set xs - {x}"
  by (auto simp: bset_remove_def)

lemma bset_wf_remove [simp]: "bset_wf xs \<Longrightarrow> bset_wf (bset_remove x xs)"
  by (simp add: bset_remove_def sorted_wrt_filter)

lemma set_bset_extend [simp]: "set (bset_extend s xs) = set s \<union> set xs"
  by (induction xs arbitrary: s) (auto simp: bset_extend_def)

lemma bset_wf_extend [simp]: "bset_wf s \<Longrightarrow> bset_wf (bset_extend s xs)"
  by (induction xs arbitrary: s) (auto simp: bset_extend_def)

lemma bset_last_max: "bset_wf xs \<Longrightarrow> x \<in> set xs \<Longrightarrow> x \<le> last xs"
  by (induction xs) (auto, metis last_in_set less_imp_le)

lemma bset_butlast: "bset_wf xs \<Longrightarrow> xs \<noteq> [] \<Longrightarrow> set (butlast xs) = set xs - {last xs}"
proof -
  assume *: "bset_wf xs" "xs \<noteq> []"
  then have "distinct (butlast xs @ [last xs])" using bset_wf_distinct by simp
  then have "last xs \<notin> set (butlast xs)" by simp
  moreover have "set xs = insert (last xs) (set (butlast xs))"
    using *(2) by (metis append_butlast_last_id list.simps(15) rotate1.simps(2) set_rotate1)
  ultimately show ?thesis by simp
qed

lemma bset_wf_butlast [simp]: "bset_wf xs \<Longrightarrow> bset_wf (butlast xs)"
  by (induction xs) (auto dest: in_set_butlastD)

lemma bset_insert_sum_list:
  fixes f :: "'a::linorder \<Rightarrow> nat"
  assumes "x \<notin> set xs"
  shows "sum_list (map f (bset_insert x xs)) = f x + sum_list (map f xs)"
  using assms by (induction xs) auto

subsection \<open>BTreeMap\<close>

fun bmap_insert :: "'k::linorder \<Rightarrow> 'v \<Rightarrow> ('k \<times> 'v) list \<Rightarrow> ('k \<times> 'v) list" where
  "bmap_insert k v [] = [(k, v)]"
| "bmap_insert k v ((k', v') # m) =
     (if k < k' then (k, v) # (k', v') # m
      else if k = k' then (k, v) # m
      else (k', v') # bmap_insert k v m)"

definition bmap_remove :: "'k \<Rightarrow> ('k \<times> 'v) list \<Rightarrow> ('k \<times> 'v) list" where
  "bmap_remove k m = filter (\<lambda>(k', _). k' \<noteq> k) m"

definition bmap_entry :: "'v \<Rightarrow> ('k \<times> 'v) list \<Rightarrow> 'k \<Rightarrow> 'v" where
  "bmap_entry d m k = (case map_of m k of None \<Rightarrow> d | Some v \<Rightarrow> v)"

definition bmap_wf :: "('k::linorder \<times> 'v) list \<Rightarrow> bool" where
  "bmap_wf m = sorted_wrt (<) (map fst m)"

lemma map_of_bmap_insert [simp]: "map_of (bmap_insert k v m) = (map_of m)(k \<mapsto> v)"
  by (induction m) auto

lemma map_of_bmap_remove [simp]: "map_of (bmap_remove k m) = (map_of m)(k := None)"
  by (induction m) (auto simp: bmap_remove_def)

lemma keys_bmap_insert [simp]: "fst ` set (bmap_insert k v m) = insert k (fst ` set m)"
  by (metis dom_fun_upd dom_map_of_conv_image_fst map_of_bmap_insert option.distinct(1))

lemma keys_bmap_remove [simp]: "fst ` set (bmap_remove k m) = fst ` set m - {k}"
  by (force simp: bmap_remove_def)

lemma bmap_wf_Nil [simp]: "bmap_wf []"
  by (simp add: bmap_wf_def)

lemma bmap_wf_insert [simp]: "bmap_wf m \<Longrightarrow> bmap_wf (bmap_insert k v m)"
proof (induction m)
  case Nil
  then show ?case by (simp add: bmap_wf_def)
next
  case (Cons x m)
  obtain k' v' where x: "x = (k', v')" by force
  have "fst ` set (bmap_insert k v m) = insert k (fst ` set m)" by simp
  with Cons x show ?case by (auto simp: bmap_wf_def)
qed

lemma bmap_wf_remove [simp]: "bmap_wf m \<Longrightarrow> bmap_wf (bmap_remove k m)"
  by (induction m) (auto simp: bmap_wf_def bmap_remove_def)

lemma bmap_wf_distinct: "bmap_wf m \<Longrightarrow> distinct (map fst m)"
  by (simp add: bmap_wf_def bset_wf_distinct)

lemma bmap_wf_map_of: "bmap_wf m \<Longrightarrow> (k, v) \<in> set m \<longleftrightarrow> map_of m k = Some v"
  by (simp add: bmap_wf_distinct)

lemma bmap_wf_filter [simp]: "bmap_wf m \<Longrightarrow> bmap_wf (filter P m)"
  by (induction m) (auto simp: bmap_wf_def)

lemma length_bmap_insert_present:
  "k \<in> fst ` set m \<Longrightarrow> bmap_wf m \<Longrightarrow> length (bmap_insert k v m) = length m"
  by (induction m) (fastforce simp: bmap_wf_def)+

lemma length_bmap_remove_less:
  "map_of m k \<noteq> None \<Longrightarrow> length (bmap_remove k m) < length m"
proof -
  assume "map_of m k \<noteq> None"
  then obtain v where "(k, v) \<in> set m" by (auto dest: map_of_SomeD)
  then show ?thesis
    unfolding bmap_remove_def by (intro length_filter_less [of "(k, v)"]) auto
qed

lemma length_bmap_remove_le: "length (bmap_remove k m) \<le> length m"
  by (simp add: bmap_remove_def)

subsection \<open>The interface clients of an ordered map rely on\<close>

locale ordered_map =
  fixes empty :: "'m"
    and lookup :: "'m \<Rightarrow> 'k::linorder \<Rightarrow> 'v option"
    and upd :: "'k \<Rightarrow> 'v \<Rightarrow> 'm \<Rightarrow> 'm"
    and del :: "'k \<Rightarrow> 'm \<Rightarrow> 'm"
    and entries :: "'m \<Rightarrow> ('k \<times> 'v) list"
    and invar :: "'m \<Rightarrow> bool"
  assumes lookup_empty: "lookup empty k = None"
    and lookup_upd: "lookup (upd k v m) = (lookup m)(k \<mapsto> v)"
    and lookup_del: "lookup (del k m) = (lookup m)(k := None)"
    and invar_empty: "invar empty"
    and invar_upd: "invar m \<Longrightarrow> invar (upd k v m)"
    and invar_del: "invar m \<Longrightarrow> invar (del k m)"
    and entries_lookup: "invar m \<Longrightarrow> (k, v) \<in> set (entries m) \<longleftrightarrow> lookup m k = Some v"
    and entries_ascending: "invar m \<Longrightarrow> sorted_wrt (<) (map fst (entries m))"
begin

text \<open>Inserting a sequence of records under their own keys: the last one per key wins.\<close>

lemma lookup_insert_all:
  "lookup (fold (\<lambda>x m. upd (key x) (val x) m) xs m)
     = lookup m ++ map_of (rev (map (\<lambda>x. (key x, val x)) xs))"
proof (induction xs arbitrary: m)
  case Nil
  then show ?case by simp
next
  case (Cons x xs)
  then show ?case
    by (simp add: lookup_upd fun_eq_iff map_add_def split: option.splits)
qed

lemma lookup_insert_all_other:
  assumes "k \<notin> key ` set xs"
  shows "lookup (fold (\<lambda>x m. upd (key x) (val x) m) xs m) k = lookup m k"
proof -
  have "map_of (rev (map (\<lambda>x. (key x, val x)) xs)) k = None"
    using assms by (auto simp: map_of_eq_None_iff image_iff)
  then show ?thesis by (simp add: lookup_insert_all map_add_def)
qed

lemma lookup_insert_all_kept:
  assumes "lookup m k \<noteq> None"
  shows "lookup (fold (\<lambda>x m. upd (key x) (val x) m) xs m) k \<noteq> None"
  using assms by (auto simp: lookup_insert_all map_add_def split: option.splits)

lemma lookup_insert_all_consistent:
  assumes "\<And>x. x \<in> set xs \<Longrightarrow> key x = k \<Longrightarrow> val x = v"
    and "k \<in> key ` set xs \<or> lookup m k = Some v"
  shows "lookup (fold (\<lambda>x m. upd (key x) (val x) m) xs m) k = Some v"
  using assms
proof (induction xs arbitrary: m)
  case Nil
  then show ?case by simp
next
  case (Cons x xs)
  show ?case
  proof (cases "key x = k")
    case True
    then have "lookup (upd (key x) (val x) m) k = Some v"
      using Cons.prems(1) by (simp add: lookup_upd)
    then show ?thesis using Cons.IH Cons.prems(1) by simp
  next
    case False
    then have "k \<in> key ` set xs \<or> lookup (upd (key x) (val x) m) k = Some v"
      using Cons.prems(2) by (auto simp: lookup_upd)
    then show ?thesis using Cons.IH Cons.prems(1) by simp
  qed
qed

lemma invar_insert_all:
  "invar m \<Longrightarrow> invar (fold (\<lambda>x m. upd (key x) (val x) m) xs m)"
  by (induction xs arbitrary: m) (auto simp: invar_upd)

lemma lookup_upd_del: "lookup (del k (upd k v m)) = (lookup m)(k := None)"
  by (simp add: lookup_upd lookup_del)

end

interpretation bmap: ordered_map "[]" map_of bmap_insert bmap_remove "\<lambda>m. m" bmap_wf
  by unfold_locales (auto simp: bmap_wf_map_of, simp add: bmap_wf_def)

end
