(* ===== verification/Committee.thy ===== *)
theory Committee
  imports Rust_Prelude
begin

section \<open>The consensus committee\<close>

text \<open>
  Model of \<open>crates/config/consensus/src/committee.rs\<close>: the authorities of an epoch, their
  voting power, and the thresholds derived from it, for the \<open>3f+1\<close> committee of \<open>Committee::new\<close>
  and the hybrid \<open>5f+3c+1\<close> committee of \<open>Committee::new_v3\<close>. The keys and addresses of an
  authority are opaque byte strings: no operation of the committee looks into them.

  The quorum arguments of the whole development rest on one interface, the locale
  \<open>stake_quorums\<close>, interpreted here on the committees the constructors build.
\<close>

type_synonym bytes = "8 word list"
type_synonym authority_index = nat
type_synonym stake = nat

record authority =
  auth_stake :: stake
  auth_address :: string
  auth_hostname :: string
  auth_authority_name :: bytes
  auth_protocol_key :: bytes
  auth_network_key :: bytes

record committee =
  committee_epoch :: nat
  committee_authorities :: "authority list"
  total_stake :: stake
  quorum_threshold :: stake
  certification_threshold :: stake
  validity_threshold :: stake

definition Committee_new :: "nat \<Rightarrow> authority list \<Rightarrow> committee option" where
  "Committee_new epoch authorities = do {
     rassert (authorities \<noteq> []);
     rassert (length authorities < u32_max);
     total \<leftarrow> u64_sum (map auth_stake authorities);
     rassert (total \<noteq> 0);
     let fault_tolerance = (total - 1) div 3;
     let quorum = total - fault_tolerance;
     validity \<leftarrow> u64_add fault_tolerance 1;
     double_quorum \<leftarrow> u64_mul 2 quorum;
     intersection \<leftarrow> checked_sub double_quorum fault_tolerance;
     rassert (intersection > total);
     Some \<lparr>committee_epoch = epoch, committee_authorities = authorities,
           total_stake = total, quorum_threshold = quorum,
           certification_threshold = quorum, validity_threshold = validity\<rparr>
   }"

text \<open>The closure \<open>scale\<close> of \<open>new_v3\<close>: scales a nominal fault budget to the actual stake.\<close>

definition v3_scale :: "stake \<Rightarrow> stake \<Rightarrow> stake \<Rightarrow> stake option" where
  "v3_scale actual_total base nominal = do {
     product \<leftarrow> u64_mul nominal (actual_total - 1);
     (if base = 0 then None else Some (product div base))
   }"

definition v3_budgets :: "stake \<Rightarrow> stake \<Rightarrow> stake \<Rightarrow> (stake \<times> stake) option" where
  "v3_budgets actual_total malicious_stake crash_stake = do {
     five_m \<leftarrow> u64_mul 5 malicious_stake;
     three_c \<leftarrow> u64_mul 3 crash_stake;
     base_stake \<leftarrow> u64_add five_m three_c;
     (if base_stake > 0 then do {
        f \<leftarrow> v3_scale actual_total base_stake malicious_stake;
        c \<leftarrow> v3_scale actual_total base_stake crash_stake;
        Some (f, c) }
      else Some (0, 0))
   }"

definition Committee_new_v3 ::
    "nat \<Rightarrow> authority list \<Rightarrow> stake \<Rightarrow> stake \<Rightarrow> committee option" where
  "Committee_new_v3 epoch authorities malicious_stake crash_stake = do {
     rassert (authorities \<noteq> []);
     rassert (length authorities < u32_max);
     actual_total \<leftarrow> u64_sum (map auth_stake authorities);
     rassert (actual_total \<noteq> 0);
     (f, c) \<leftarrow> v3_budgets actual_total malicious_stake crash_stake;
     validity \<leftarrow> u64_add f 1;
     two_f \<leftarrow> u64_mul 2 f;
     two_f_c \<leftarrow> u64_add two_f c;
     certification \<leftarrow> u64_add two_f_c 1;
     t_f \<leftarrow> checked_sub actual_total f;
     quorum \<leftarrow> checked_sub t_f c;
     cert_quorum \<leftarrow> u64_add certification quorum;
     total_f \<leftarrow> u64_add actual_total f;
     total_f_1 \<leftarrow> u64_add total_f 1;
     rassert (cert_quorum \<ge> total_f_1);
     double_quorum \<leftarrow> u64_mul quorum 2;
     total_f_cert \<leftarrow> u64_add total_f certification;
     rassert (double_quorum \<ge> total_f_cert);
     Some \<lparr>committee_epoch = epoch, committee_authorities = authorities,
           total_stake = actual_total, quorum_threshold = quorum,
           certification_threshold = certification, validity_threshold = validity\<rparr>
   }"

definition committee_size :: "committee \<Rightarrow> nat" where
  "committee_size c = length (committee_authorities c)"

definition committee_authority :: "committee \<Rightarrow> authority_index \<Rightarrow> authority option" where
  "committee_authority c i = vec_get (committee_authorities c) i"

definition committee_stake :: "committee \<Rightarrow> authority_index \<Rightarrow> stake option" where
  "committee_stake c i = map_option auth_stake (vec_get (committee_authorities c) i)"

definition authorities :: "committee \<Rightarrow> (authority_index \<times> authority) list" where
  "authorities c = map (\<lambda>(i, a). (as_u32 i, a)) (enumerate 0 (committee_authorities c))"

definition reached_quorum :: "committee \<Rightarrow> stake \<Rightarrow> bool" where
  "reached_quorum c s = (s \<ge> quorum_threshold c)"

definition reached_validity :: "committee \<Rightarrow> stake \<Rightarrow> bool" where
  "reached_validity c s = (s \<ge> validity_threshold c)"

definition to_authority_index :: "committee \<Rightarrow> nat \<Rightarrow> authority_index option" where
  "to_authority_index c index =
     (if index < length (committee_authorities c) then Some (as_u32 index) else None)"

definition is_valid_index :: "committee \<Rightarrow> authority_index \<Rightarrow> bool" where
  "is_valid_index c i = (i < committee_size c)"

subsection \<open>Stake of a set of authorities\<close>

definition stake_at :: "committee \<Rightarrow> authority_index \<Rightarrow> stake" where
  "stake_at c i =
     (if i < committee_size c then auth_stake (committee_authorities c ! i) else 0)"

definition members :: "committee \<Rightarrow> authority_index set" where
  "members c = {..<committee_size c}"

definition stake_of :: "committee \<Rightarrow> authority_index set \<Rightarrow> stake" where
  "stake_of c A = (\<Sum>i\<in>A. stake_at c i)"

lemma finite_members [simp]: "finite (members c)"
  by (simp add: members_def)

lemma members_iff [simp]: "i \<in> members c \<longleftrightarrow> i < committee_size c"
  by (simp add: members_def)

lemma committee_stake_Some [panic_simps]:
  "committee_stake c i = Some s \<longleftrightarrow> i < committee_size c \<and> s = stake_at c i"
  by (auto simp: committee_stake_def stake_at_def committee_size_def panic_simps)

lemma committee_stake_valid:
  "is_valid_index c i \<Longrightarrow> committee_stake c i = Some (stake_at c i)"
  by (simp add: is_valid_index_def committee_stake_Some)

lemma committee_authority_Some [panic_simps]:
  "committee_authority c i = Some a \<longleftrightarrow>
     i < committee_size c \<and> a = committee_authorities c ! i"
  by (simp add: committee_authority_def committee_size_def panic_simps)

lemma stake_of_members:
  "stake_of c (members c) = sum_list (map auth_stake (committee_authorities c))"
proof -
  let ?xs = "map auth_stake (committee_authorities c)"
  have "stake_of c (members c) = (\<Sum>i<length ?xs. ?xs ! i)"
    unfolding stake_of_def members_def committee_size_def
    by (rule sum.cong) (auto simp: stake_at_def committee_size_def)
  then show ?thesis by (simp add: sum_list_sum_nth atLeast0LessThan)
qed

lemma stake_of_mono: "finite B \<Longrightarrow> A \<subseteq> B \<Longrightarrow> stake_of c A \<le> stake_of c B"
  by (simp add: stake_of_def sum_mono2)

lemma stake_of_insert: "finite A \<Longrightarrow> x \<notin> A \<Longrightarrow> stake_of c (insert x A) = stake_at c x + stake_of c A"
  by (simp add: stake_of_def)

lemma stake_of_list: "distinct xs \<Longrightarrow> stake_of c (set xs) = sum_list (map (stake_at c) xs)"
  by (simp add: stake_of_def sum.distinct_set_conv_list)

subsection \<open>Well-formed committees\<close>

text \<open>What both constructors establish, and every quorum argument uses.\<close>

definition fault_tolerance :: "committee \<Rightarrow> stake" where
  "fault_tolerance c = validity_threshold c - 1"

definition committee_wf :: "committee \<Rightarrow> bool" where
  "committee_wf c \<longleftrightarrow>
     committee_authorities c \<noteq> [] \<and> committee_size c < u32_max
   \<and> total_stake c = stake_of c (members c) \<and> 0 < total_stake c \<and> total_stake c \<le> u64_max
   \<and> 1 \<le> validity_threshold c \<and> 0 < quorum_threshold c \<and> quorum_threshold c \<le> total_stake c
   \<and> total_stake c + fault_tolerance c < 2 * quorum_threshold c
   \<and> total_stake c + fault_tolerance c < certification_threshold c + quorum_threshold c
   \<and> 2 * fault_tolerance c < quorum_threshold c
   \<and> quorum_threshold c + fault_tolerance c \<le> total_stake c"

lemma Committee_new_thresholds:
  assumes "Committee_new e auths = Some c"
  shows "committee_epoch c = e"
    and "committee_authorities c = auths"
    and "total_stake c = sum_list (map auth_stake auths)"
    and "quorum_threshold c = total_stake c - (total_stake c - 1) div 3"
    and "certification_threshold c = quorum_threshold c"
    and "validity_threshold c = (total_stake c - 1) div 3 + 1"
    and "0 < total_stake c"
    and "total_stake c \<le> u64_max"
    and "auths \<noteq> []"
    and "length auths < u32_max"
  using assms unfolding Committee_new_def Let_def
  by (clarsimp simp only: panic_simps committee.select_convs)+

lemma Committee_new_wf:
  assumes "Committee_new e auths = Some c"
  shows "committee_wf c"
proof -
  note t = Committee_new_thresholds [OF assms]
  have total: "total_stake c = stake_of c (members c)" using t(2,3) by (simp add: stake_of_members)
  obtain f where f: "f = (total_stake c - 1) div 3" by simp
  have bounds: "f < total_stake c" "total_stake c + f < 2 * (total_stake c - f)"
    unfolding f using t(7) by linarith+
  note q = t(4,6) [folded f]
  show ?thesis
    unfolding committee_wf_def fault_tolerance_def committee_size_def t(5) q t(2)
    using bounds t(7-10) by (intro conjI total) linarith+
qed

lemma v3_scale_Some [panic_simps]:
  "v3_scale t b n = Some r \<longleftrightarrow> b \<noteq> 0 \<and> r = n * (t - 1) div b \<and> n * (t - 1) \<le> u64_max"
  unfolding v3_scale_def u64_mul_def by (cases "n * (t - 1) \<le> u64_max") auto

lemma Committee_new_v3_thresholds:
  assumes "Committee_new_v3 e auths m k = Some c"
  shows "\<exists>f cr. committee_epoch c = e \<and> committee_authorities c = auths
       \<and> total_stake c = sum_list (map auth_stake auths)
       \<and> validity_threshold c = f + 1
       \<and> certification_threshold c = 2 * f + cr + 1
       \<and> quorum_threshold c = total_stake c - f - cr
       \<and> f + cr \<le> total_stake c
       \<and> total_stake c + f + 1 \<le> certification_threshold c + quorum_threshold c
       \<and> total_stake c + f + certification_threshold c \<le> 2 * quorum_threshold c
       \<and> 0 < total_stake c \<and> total_stake c \<le> u64_max
       \<and> auths \<noteq> [] \<and> length auths < u32_max"
proof -
  from assms obtain f cr where
    "v3_budgets (sum_list (map auth_stake auths)) m k = Some (f, cr)" and c:
    "c = \<lparr>committee_epoch = e, committee_authorities = auths,
          total_stake = sum_list (map auth_stake auths),
          quorum_threshold = sum_list (map auth_stake auths) - f - cr,
          certification_threshold = 2 * f + cr + 1, validity_threshold = f + 1\<rparr>"
    and le: "f \<le> sum_list (map auth_stake auths)" "cr \<le> sum_list (map auth_stake auths) - f"
    and safe: "sum_list (map auth_stake auths) + f + 1
                 \<le> 2 * f + cr + 1 + (sum_list (map auth_stake auths) - f - cr)"
      "sum_list (map auth_stake auths) + f + (2 * f + cr + 1)
         \<le> (sum_list (map auth_stake auths) - f - cr) * 2"
    and pos: "0 < sum_list (map auth_stake auths)" "sum_list (map auth_stake auths) \<le> u64_max"
      "auths \<noteq> []" "length auths < u32_max"
    unfolding Committee_new_v3_def
    by (clarsimp simp only: panic_simps split_paired_Ex prod.case) blast
  show ?thesis
    by (rule exI [of _ f], rule exI [of _ cr]) (use c le safe pos in simp)
qed

lemma Committee_new_v3_wf:
  assumes "Committee_new_v3 e auths m k = Some c"
  shows "committee_wf c"
proof -
  from Committee_new_v3_thresholds [OF assms] obtain f cr where t:
    "committee_authorities c = auths" "total_stake c = sum_list (map auth_stake auths)"
    "validity_threshold c = f + 1" "certification_threshold c = 2 * f + cr + 1"
    "quorum_threshold c = total_stake c - f - cr"
    "total_stake c + f + 1 \<le> certification_threshold c + quorum_threshold c"
    "total_stake c + f + certification_threshold c \<le> 2 * quorum_threshold c"
    "0 < total_stake c" "total_stake c \<le> u64_max" "auths \<noteq> []" "length auths < u32_max"
    by blast
  have total: "total_stake c = stake_of c (members c)" using t(1,2) by (simp add: stake_of_members)
  from t(3-11) show ?thesis
    unfolding committee_wf_def fault_tolerance_def committee_size_def
    by (intro conjI total) (simp_all add: t(1))
qed

lemma committee_wf_stake_le_total:
  assumes "committee_wf c" and "A \<subseteq> members c"
  shows "stake_of c A \<le> total_stake c"
  using assms stake_of_mono [of "members c" A c] by (simp add: committee_wf_def)

subsection \<open>Quorum intersection\<close>

locale stake_quorums =
  fixes wf_com :: "'c \<Rightarrow> bool"
    and mem :: "'c \<Rightarrow> 'a set"
    and weight :: "'c \<Rightarrow> 'a \<Rightarrow> nat"
    and quorum :: "'c \<Rightarrow> nat"
    and certification :: "'c \<Rightarrow> nat"
    and fault :: "'c \<Rightarrow> nat"
  assumes finite_mem: "wf_com c \<Longrightarrow> finite (mem c)"
    and double_quorum: "wf_com c \<Longrightarrow> sum (weight c) (mem c) + fault c < 2 * quorum c"
    and quorum_certification:
      "wf_com c \<Longrightarrow> sum (weight c) (mem c) + fault c < certification c + quorum c"
begin

lemma overlap_weight:
  assumes "wf_com c" and "A \<subseteq> mem c" and "B \<subseteq> mem c"
  shows "sum (weight c) A + sum (weight c) B
           \<le> sum (weight c) (mem c) + sum (weight c) (A \<inter> B)"
proof -
  have fin: "finite A" "finite B" using assms finite_mem by (auto intro: finite_subset)
  have "sum (weight c) A + sum (weight c) B
          = sum (weight c) (A \<union> B) + sum (weight c) (A \<inter> B)"
    using fin by (simp add: sum.union_inter)
  moreover have "sum (weight c) (A \<union> B) \<le> sum (weight c) (mem c)"
    using assms finite_mem by (intro sum_mono2) auto
  ultimately show ?thesis by simp
qed

lemma quorums_overlap:
  assumes "wf_com c" and "A \<subseteq> mem c" and "B \<subseteq> mem c"
    and "quorum c \<le> sum (weight c) A" and "quorum c \<le> sum (weight c) B"
  shows "fault c < sum (weight c) (A \<inter> B)"
  using overlap_weight [OF assms(1-3)] double_quorum [OF assms(1)] assms(4,5) by linarith

lemma certification_overlaps_quorum:
  assumes "wf_com c" and "A \<subseteq> mem c" and "B \<subseteq> mem c"
    and "certification c \<le> sum (weight c) A" and "quorum c \<le> sum (weight c) B"
  shows "fault c < sum (weight c) (A \<inter> B)"
  using overlap_weight [OF assms(1-3)] quorum_certification [OF assms(1)] assms(4,5) by linarith

lemma overlap_has_honest:
  assumes "fault c < sum (weight c) (A \<inter> B)" and "finite F" and "sum (weight c) F \<le> fault c"
  shows "\<exists>a. a \<in> A \<and> a \<in> B \<and> a \<notin> F"
proof (rule ccontr)
  assume "\<not> ?thesis"
  then have "A \<inter> B \<subseteq> F" by blast
  then have "sum (weight c) (A \<inter> B) \<le> sum (weight c) F"
    using assms(2) by (intro sum_mono2) auto
  with assms(1,3) show False by linarith
qed

text \<open>The form the safety arguments use: two quorums share an authority outside any set of
  faulty authorities within the fault tolerance.\<close>

lemma quorums_share_honest:
  assumes "wf_com c" and "A \<subseteq> mem c" and "B \<subseteq> mem c"
    and "quorum c \<le> sum (weight c) A" and "quorum c \<le> sum (weight c) B"
    and "finite F" and "sum (weight c) F \<le> fault c"
  shows "\<exists>a. a \<in> A \<and> a \<in> B \<and> a \<notin> F"
  using overlap_has_honest [OF quorums_overlap [OF assms(1-5)] assms(6,7)] .

end

interpretation committee_quorums: stake_quorums
    committee_wf members stake_at quorum_threshold certification_threshold fault_tolerance
  by unfold_locales (simp_all add: committee_wf_def stake_of_def)

subsection \<open>Correctness of the constructors\<close>

text \<open>
  C17. In a committee built by \<open>Committee::new\<close>, two sets of authorities that both reach the
  quorum threshold have more than the tolerated faulty stake in common, so they share an
  authority outside every set of faulty authorities whose stake is at most \<open>f\<close>.
\<close>

theorem new_committee_quorums_intersect:
  assumes "Committee_new epoch auths = Some c"
    and "A \<subseteq> members c" and "B \<subseteq> members c"
    and "reached_quorum c (stake_of c A)" and "reached_quorum c (stake_of c B)"
    and "F \<subseteq> members c" and "stake_of c F \<le> (total_stake c - 1) div 3"
  shows "(total_stake c - 1) div 3 < stake_of c (A \<inter> B) \<and> (\<exists>a. a \<in> A \<and> a \<in> B \<and> a \<notin> F)"
proof -
  have wf: "committee_wf c" by (rule Committee_new_wf [OF assms(1)])
  have ft: "fault_tolerance c = (total_stake c - 1) div 3"
    using Committee_new_thresholds [OF assms(1)] by (simp add: fault_tolerance_def)
  have fin: "finite F" using assms(6) by (rule finite_subset) simp
  have "fault_tolerance c < stake_of c (A \<inter> B)"
    using committee_quorums.quorums_overlap [OF wf assms(2,3)] assms(4,5)
    by (simp add: reached_quorum_def stake_of_def)
  moreover have "\<exists>a. a \<in> A \<and> a \<in> B \<and> a \<notin> F"
    using committee_quorums.quorums_share_honest [OF wf assms(2,3) _ _ fin] assms(4,5,7) ft
    by (simp add: reached_quorum_def stake_of_def)
  ultimately show ?thesis by (simp add: ft)
qed

definition sample_authority :: "stake \<Rightarrow> authority" where
  "sample_authority s = \<lparr>auth_stake = s, auth_address = '''', auth_hostname = '''',
     auth_authority_name = [], auth_protocol_key = [], auth_network_key = []\<rparr>"

definition sample_committee :: committee where
  "sample_committee = \<lparr>committee_epoch = 0,
     committee_authorities = map sample_authority [1, 1, 1, 1],
     total_stake = 4, quorum_threshold = 3, certification_threshold = 3, validity_threshold = 2\<rparr>"

lemma sample_committee_new:
  "Committee_new 0 (map sample_authority [1, 1, 1, 1]) = Some sample_committee"
  by (simp add: Committee_new_def sample_authority_def sample_committee_def u64_sum_eq
      u64_max_def u32_max_def u64_add_def u64_mul_def checked_sub_def)

lemma sample_committee_size [simp]: "committee_size sample_committee = 4"
  by (simp add: committee_size_def sample_committee_def)

lemma sample_committee_thresholds [simp]:
  "total_stake sample_committee = 4" "quorum_threshold sample_committee = 3"
  "certification_threshold sample_committee = 3" "validity_threshold sample_committee = 2"
  "committee_epoch sample_committee = 0"
  by (simp_all add: sample_committee_def)

lemma sample_stake_at: "stake_at sample_committee i = (if i < 4 then 1 else 0)"
proof -
  have "i < 4 \<Longrightarrow> i = 0 \<or> i = 1 \<or> i = 2 \<or> i = 3" by auto
  then show ?thesis
    by (auto simp: stake_at_def) (auto simp: sample_committee_def sample_authority_def)
qed

lemma sample_committee_wf: "committee_wf sample_committee"
  by (rule Committee_new_wf [OF sample_committee_new])

theorem new_committee_quorums_intersect_witness:
  "(1::nat) < stake_of sample_committee ({0, 1, 2} \<inter> {1, 2, 3})
   \<and> (\<exists>a. a \<in> {0, 1, 2} \<and> a \<in> {1, 2, 3} \<and> a \<notin> {1::nat})"
  using new_committee_quorums_intersect
    [OF sample_committee_new, of "{0, 1, 2}" "{1, 2, 3}" "{1}"]
  by (simp add: reached_quorum_def stake_of_def sample_stake_at)

lemma scaled_budget:
  fixes m k t :: nat
  assumes "0 < 5 * m + 3 * k"
  shows "5 * (m * t div (5 * m + 3 * k)) + 3 * (k * t div (5 * m + 3 * k)) \<le> t"
proof -
  let ?b = "5 * m + 3 * k"
  have "?b * (5 * (m * t div ?b) + 3 * (k * t div ?b))
          = 5 * (?b * (m * t div ?b)) + 3 * (?b * (k * t div ?b))"
    by (simp add: algebra_simps)
  also have "\<dots> \<le> 5 * (m * t) + 3 * (k * t)"
    by (intro add_mono mult_le_mono2) (simp_all add: times_div_less_eq_dividend)
  also have "\<dots> = ?b * t" by (simp add: algebra_simps)
  finally show ?thesis using assms by (rule mult_left_le_imp_le)
qed

text \<open>
  C18. \<open>Committee::new_v3\<close> never trips its two stake-safety assertions: whenever the stakes and
  the fault budgets stay small enough for the products to fit in 64 bits, the constructor
  returns a committee, whatever the nominal budgets are, and its scaled fault budgets satisfy
  \<open>5f + 3c + 1 \<le> total\<close>.
\<close>

theorem new_v3_never_violates_stake_safety:
  assumes "auths \<noteq> []" and "length auths < u32_max"
    and "0 < sum_list (map auth_stake auths)"
    and "4 * sum_list (map auth_stake auths) \<le> u64_max"
    and "5 * m + 3 * k \<le> u64_max"
    and "m * (sum_list (map auth_stake auths) - 1) \<le> u64_max"
    and "k * (sum_list (map auth_stake auths) - 1) \<le> u64_max"
  shows "\<exists>c. Committee_new_v3 epoch auths m k = Some c
           \<and> 5 * fault_tolerance c
               + 3 * (certification_threshold c - 2 * fault_tolerance c - 1) + 1 \<le> total_stake c"
proof -
  let ?t = "sum_list (map auth_stake auths)"
  let ?b = "5 * m + 3 * k"
  define f where "f = (if ?b > 0 then m * (?t - 1) div ?b else 0)"
  define cr where "cr = (if ?b > 0 then k * (?t - 1) div ?b else 0)"
  have budget: "5 * f + 3 * cr \<le> ?t - 1"
    using scaled_budget [of m k "?t - 1"] by (simp add: f_def cr_def)
  have scaled: "v3_budgets ?t m k = Some (f, cr)"
    using assms(5-7) by (simp add: v3_budgets_def v3_scale_def u64_add_def u64_mul_def f_def cr_def)
  have bounds: "f + 1 \<le> u64_max" "2 * f \<le> u64_max" "2 * f + cr \<le> u64_max"
      "2 * f + cr + 1 \<le> u64_max" "f \<le> ?t" "cr \<le> ?t - f" "?t + f \<le> u64_max"
      "?t + f + 1 \<le> u64_max" "2 * f + cr + 1 + (?t - f - cr) \<le> u64_max"
      "(?t - f - cr) * 2 \<le> u64_max" "?t + f + (2 * f + cr + 1) \<le> u64_max"
      "?t + f + 1 \<le> 2 * f + cr + 1 + (?t - f - cr)"
      "?t + f + (2 * f + cr + 1) \<le> (?t - f - cr) * 2" "?t \<le> u64_max" "?t \<noteq> 0"
    using budget assms(3,4) by linarith+
  have "Committee_new_v3 epoch auths m k =
     Some \<lparr>committee_epoch = epoch, committee_authorities = auths, total_stake = ?t,
           quorum_threshold = ?t - f - cr, certification_threshold = 2 * f + cr + 1,
           validity_threshold = f + 1\<rparr>"
    unfolding Committee_new_v3_def
    by (simp only: u64_sum_eq u64_mul_def u64_add_def checked_sub_def rassert_True bounds scaled
        assms(1,2) if_True bind.bind_lunit prod.case not_False_eq_True)
  with budget assms(3) show ?thesis by (simp add: fault_tolerance_def)
qed

theorem new_v3_never_violates_stake_safety_witness:
  "\<exists>c. Committee_new_v3 7 (map sample_authority [3, 3, 3, 3, 3]) 1 1 = Some c
     \<and> 5 * fault_tolerance c
         + 3 * (certification_threshold c - 2 * fault_tolerance c - 1) + 1 \<le> total_stake c"
  by (rule new_v3_never_violates_stake_safety)
     (simp_all add: sample_authority_def u32_max_def u64_max_def)

end
