(* ===== verification/Block_Types.thy ===== *)
theory Block_Types
  imports Committee
begin

section \<open>Blocks, commits and the context they live in\<close>

text \<open>
  The data of the consensus crates: references, slots and the three block versions of
  \<open>consensus/src/block.rs\<close> and \<open>types/consensus/src/block.rs\<close>, the commit of
  \<open>consensus/src/commit.rs\<close>, the errors of \<open>consensus/src/error.rs\<close>, the configuration and the
  context of an authority.

  A digest is a \<open>256 word\<close>: the byte-wise order of the 32-byte digest is the order of the
  big-endian number. Hashing, signing and the \<open>bcs\<close> codec come from other packages, so they are
  the fields of the record \<open>crypto\<close> that the operations take as an argument.
\<close>

subsection \<open>References and slots\<close>

type_synonym round = nat
type_synonym digest = "256 word"
type_synonym commit_index = nat
type_synonym timestamp_ms = nat
type_synonym transaction_index = nat

definition GENESIS_ROUND :: round where
  "GENESIS_ROUND = 0"

definition GENESIS_COMMIT_INDEX :: commit_index where
  "GENESIS_COMMIT_INDEX = 0"

definition MINIMUM_WAVE_LENGTH :: round where
  "MINIMUM_WAVE_LENGTH = 3"

definition DEFAULT_WAVE_LENGTH :: round where
  "DEFAULT_WAVE_LENGTH = MINIMUM_WAVE_LENGTH"

definition Digest_MIN :: digest where
  "Digest_MIN = 0"

definition Digest_MAX :: digest where
  "Digest_MAX = - 1"

datatype block_ref = BlockRef (br_round: round) (br_author: authority_index) (br_digest: digest)

datatype slot = Slot (slot_round: round) (slot_authority: authority_index)

definition BlockRef_MIN :: block_ref where
  "BlockRef_MIN = BlockRef 0 0 Digest_MIN"

definition BlockRef_MAX :: block_ref where
  "BlockRef_MAX = BlockRef u32_max u32_max Digest_MAX"

definition slot_of_ref :: "block_ref \<Rightarrow> slot" where
  "slot_of_ref r = Slot (br_round r) (br_author r)"

text \<open>The derived \<open>Ord\<close> of \<open>BlockRef\<close>: fields in declaration order.\<close>

definition ref_tuple :: "block_ref \<Rightarrow> round \<times> authority_index \<times> digest" where
  "ref_tuple r = (br_round r, br_author r, br_digest r)"

lemma ref_tuple_inject [simp]: "ref_tuple r = ref_tuple r' \<longleftrightarrow> r = r'"
  by (cases r; cases r') (simp add: ref_tuple_def)

instantiation block_ref :: linorder
begin

definition less_eq_block_ref :: "block_ref \<Rightarrow> block_ref \<Rightarrow> bool" where
  "less_eq_block_ref a b \<longleftrightarrow> ref_tuple a \<le> ref_tuple b"

definition less_block_ref :: "block_ref \<Rightarrow> block_ref \<Rightarrow> bool" where
  "less_block_ref a b \<longleftrightarrow> ref_tuple a < ref_tuple b"

instance
  by standard
     (auto simp: less_eq_block_ref_def less_block_ref_def simp flip: ref_tuple_inject)

end

lemma block_ref_less_iff:
  "a < b \<longleftrightarrow> br_round a < br_round b \<or> br_round a = br_round b \<and>
     (br_author a < br_author b \<or> br_author a = br_author b \<and> br_digest a < br_digest b)"
  by (auto simp: less_block_ref_def ref_tuple_def)

lemma block_ref_less_round: "a < b \<Longrightarrow> br_round a \<le> br_round b"
  by (auto simp: block_ref_less_iff)

lemma block_ref_le_round: "a \<le> b \<Longrightarrow> br_round a \<le> br_round b"
  by (metis block_ref_less_round le_less order_refl)

definition slot_tuple :: "slot \<Rightarrow> round \<times> authority_index" where
  "slot_tuple s = (slot_round s, slot_authority s)"

lemma slot_tuple_inject [simp]: "slot_tuple r = slot_tuple r' \<longleftrightarrow> r = r'"
  by (cases r; cases r') (simp add: slot_tuple_def)

instantiation slot :: linorder
begin

definition less_eq_slot :: "slot \<Rightarrow> slot \<Rightarrow> bool" where
  "less_eq_slot a b \<longleftrightarrow> slot_tuple a \<le> slot_tuple b"

definition less_slot :: "slot \<Rightarrow> slot \<Rightarrow> bool" where
  "less_slot a b \<longleftrightarrow> slot_tuple a < slot_tuple b"

instance
  by standard (auto simp: less_eq_slot_def less_slot_def simp flip: slot_tuple_inject)

end

datatype commit_ref = CommitRef (cr_index: commit_index) (cr_digest: digest)

instantiation commit_ref :: linorder
begin

definition less_eq_commit_ref :: "commit_ref \<Rightarrow> commit_ref \<Rightarrow> bool" where
  "less_eq_commit_ref a b \<longleftrightarrow> (cr_index a, cr_digest a) \<le> (cr_index b, cr_digest b)"

definition less_commit_ref :: "commit_ref \<Rightarrow> commit_ref \<Rightarrow> bool" where
  "less_commit_ref a b \<longleftrightarrow> (cr_index a, cr_digest a) < (cr_index b, cr_digest b)"

instance
proof
  fix a b :: commit_ref
  show "a \<le> b \<Longrightarrow> b \<le> a \<Longrightarrow> a = b"
    by (cases a; cases b) (auto simp: less_eq_commit_ref_def)
qed (auto simp: less_eq_commit_ref_def less_commit_ref_def)

end

subsection \<open>Blocks\<close>

type_synonym transaction = bytes
type_synonym commit_vote = commit_ref

record block_transaction_votes =
  btv_block_ref :: block_ref
  btv_rejects :: "transaction_index list"

datatype misbehavior_proof = InvalidBlock block_ref

record misbehavior_report =
  mr_target :: authority_index
  mr_proof :: misbehavior_proof

record block_v1 =
  v1_epoch :: nat
  v1_round :: round
  v1_author :: authority_index
  v1_timestamp_ms :: timestamp_ms
  v1_ancestors :: "block_ref list"
  v1_transactions :: "transaction list"
  v1_commit_votes :: "commit_vote list"
  v1_misbehavior_reports :: "misbehavior_report list"

record block_v2 =
  v2_epoch :: nat
  v2_round :: round
  v2_author :: authority_index
  v2_timestamp_ms :: timestamp_ms
  v2_ancestors :: "block_ref list"
  v2_transactions :: "transaction list"
  v2_transaction_votes :: "block_transaction_votes list"
  v2_commit_votes :: "commit_vote list"
  v2_misbehavior_reports :: "misbehavior_report list"

record block_v3 =
  v3_epoch :: nat
  v3_round :: round
  v3_author :: authority_index
  v3_timestamp_ms :: timestamp_ms
  v3_ancestors :: "block_ref list"
  v3_transactions :: "transaction list"
  v3_transaction_votes :: "block_transaction_votes list"
  v3_transaction_votes_cutoff_round :: round
  v3_commit_votes :: "commit_vote list"
  v3_misbehavior_reports :: "misbehavior_report list"

datatype block = V1 block_v1 | V2 block_v2 | V3 block_v3

fun b_epoch :: "block \<Rightarrow> nat" where
  "b_epoch (V1 b) = v1_epoch b"
| "b_epoch (V2 b) = v2_epoch b"
| "b_epoch (V3 b) = v3_epoch b"

fun b_round :: "block \<Rightarrow> round" where
  "b_round (V1 b) = v1_round b"
| "b_round (V2 b) = v2_round b"
| "b_round (V3 b) = v3_round b"

fun b_author :: "block \<Rightarrow> authority_index" where
  "b_author (V1 b) = v1_author b"
| "b_author (V2 b) = v2_author b"
| "b_author (V3 b) = v3_author b"

definition b_slot :: "block \<Rightarrow> slot" where
  "b_slot b = Slot (b_round b) (b_author b)"

fun b_timestamp_ms :: "block \<Rightarrow> timestamp_ms" where
  "b_timestamp_ms (V1 b) = v1_timestamp_ms b"
| "b_timestamp_ms (V2 b) = v2_timestamp_ms b"
| "b_timestamp_ms (V3 b) = v3_timestamp_ms b"

fun b_ancestors :: "block \<Rightarrow> block_ref list" where
  "b_ancestors (V1 b) = v1_ancestors b"
| "b_ancestors (V2 b) = v2_ancestors b"
| "b_ancestors (V3 b) = v3_ancestors b"

fun b_transactions :: "block \<Rightarrow> transaction list" where
  "b_transactions (V1 b) = v1_transactions b"
| "b_transactions (V2 b) = v2_transactions b"
| "b_transactions (V3 b) = v3_transactions b"

definition b_transactions_data :: "block \<Rightarrow> bytes list" where
  "b_transactions_data b = map (\<lambda>t. t) (b_transactions b)"

fun b_transaction_votes :: "block \<Rightarrow> block_transaction_votes list" where
  "b_transaction_votes (V1 b) = []"
| "b_transaction_votes (V2 b) = v2_transaction_votes b"
| "b_transaction_votes (V3 b) = v3_transaction_votes b"

fun b_transaction_votes_cutoff_round :: "block \<Rightarrow> round option" where
  "b_transaction_votes_cutoff_round (V1 b) = None"
| "b_transaction_votes_cutoff_round (V2 b) = None"
| "b_transaction_votes_cutoff_round (V3 b) = Some (v3_transaction_votes_cutoff_round b)"

fun b_commit_votes :: "block \<Rightarrow> commit_vote list" where
  "b_commit_votes (V1 b) = v1_commit_votes b"
| "b_commit_votes (V2 b) = v2_commit_votes b"
| "b_commit_votes (V3 b) = v3_commit_votes b"

fun b_misbehavior_reports :: "block \<Rightarrow> misbehavior_report list" where
  "b_misbehavior_reports (V1 b) = v1_misbehavior_reports b"
| "b_misbehavior_reports (V2 b) = v2_misbehavior_reports b"
| "b_misbehavior_reports (V3 b) = v3_misbehavior_reports b"

record signed_block =
  sb_inner :: block
  sb_signature :: bytes

record verified_block =
  vb_block :: signed_block
  vb_digest :: digest
  vb_serialized :: bytes

record extended_block =
  eb_block :: verified_block
  eb_excluded_ancestors :: "block_ref list"

text \<open>\<open>Deref\<close> of \<open>VerifiedBlock\<close> to the inner block.\<close>

definition vb_inner :: "verified_block \<Rightarrow> block" where
  "vb_inner b = sb_inner (vb_block b)"

abbreviation vb_round :: "verified_block \<Rightarrow> round" where
  "vb_round b \<equiv> b_round (vb_inner b)"

abbreviation vb_author :: "verified_block \<Rightarrow> authority_index" where
  "vb_author b \<equiv> b_author (vb_inner b)"

abbreviation vb_ancestors :: "verified_block \<Rightarrow> block_ref list" where
  "vb_ancestors b \<equiv> b_ancestors (vb_inner b)"

abbreviation vb_timestamp_ms :: "verified_block \<Rightarrow> timestamp_ms" where
  "vb_timestamp_ms b \<equiv> b_timestamp_ms (vb_inner b)"

definition reference :: "verified_block \<Rightarrow> block_ref" where
  "reference b = BlockRef (vb_round b) (vb_author b) (vb_digest b)"

text \<open>\<open>PartialEq\<close> of \<open>VerifiedBlock\<close> compares digests only.\<close>

definition vb_eq :: "verified_block \<Rightarrow> verified_block \<Rightarrow> bool" where
  "vb_eq a b = (vb_digest a = vb_digest b)"

lemma br_round_reference [simp]: "br_round (reference b) = vb_round b"
  by (simp add: reference_def)

lemma br_author_reference [simp]: "br_author (reference b) = vb_author b"
  by (simp add: reference_def)

lemma br_digest_reference [simp]: "br_digest (reference b) = vb_digest b"
  by (simp add: reference_def)

subsection \<open>Commits\<close>

record commit_v1 =
  cv1_index :: commit_index
  cv1_previous_digest :: digest
  cv1_timestamp_ms :: timestamp_ms
  cv1_leader :: block_ref
  cv1_blocks :: "block_ref list"

datatype commit = Commit_V1 commit_v1

definition Commit_new ::
    "commit_index \<Rightarrow> digest \<Rightarrow> timestamp_ms \<Rightarrow> block_ref \<Rightarrow> block_ref list \<Rightarrow> commit" where
  "Commit_new i prev ts l bs = Commit_V1 \<lparr>cv1_index = i, cv1_previous_digest = prev,
     cv1_timestamp_ms = ts, cv1_leader = l, cv1_blocks = bs\<rparr>"

fun c_leader :: "commit \<Rightarrow> block_ref" where
  "c_leader (Commit_V1 c) = cv1_leader c"

fun c_round :: "commit \<Rightarrow> round" where
  "c_round (Commit_V1 c) = br_round (cv1_leader c)"

fun c_index :: "commit \<Rightarrow> commit_index" where
  "c_index (Commit_V1 c) = cv1_index c"

fun c_previous_digest :: "commit \<Rightarrow> digest" where
  "c_previous_digest (Commit_V1 c) = cv1_previous_digest c"

fun c_timestamp_ms :: "commit \<Rightarrow> timestamp_ms" where
  "c_timestamp_ms (Commit_V1 c) = cv1_timestamp_ms c"

fun c_blocks :: "commit \<Rightarrow> block_ref list" where
  "c_blocks (Commit_V1 c) = cv1_blocks c"

record trusted_commit =
  tc_inner :: commit
  tc_digest :: digest
  tc_serialized :: bytes

definition tc_reference :: "trusted_commit \<Rightarrow> commit_ref" where
  "tc_reference c = CommitRef (c_index (tc_inner c)) (tc_digest c)"

subsection \<open>Errors\<close>

datatype peer_id = Validator authority_index | Observer bytes

datatype (plugins only: code size) consensus_error =
    MalformedBlock string
  | MalformedCommit string
  | SerializationFailure string
  | TransactionTooLarge nat nat
  | TooManyTransactions nat nat
  | TooManyTransactionBytes nat nat
  | UnexpectedAuthority authority_index authority_index
  | WrongEpoch nat nat
  | UnexpectedGenesisBlock
  | UnexpectedGenesisBlockRequested
  | UnexpectedNumberOfBlocksFetched peer_id nat nat
  | UnexpectedFetchedBlock authority_index block_ref
  | UnexpectedLastOwnBlock authority_index block_ref
  | TooManyFetchedBlocksReturned authority_index
  | TooManyAuthoritiesProvided authority_index
  | InvalidSizeOfHighestAcceptedRounds nat nat
  | InvalidFetchBlocksRequest string
  | InvalidAuthorityIndex authority_index nat
  | MalformedSignature string
  | SignatureVerificationFailure string
  | SynchronizerSaturated string
  | PeerUnavailable string
  | PeerNotFound string
  | BlockRejected block_ref string
  | InvalidAncestorPosition authority_index authority_index nat
  | InvalidAncestorRound round round
  | InvalidGenesisAncestor block_ref
  | TooManyAncestors nat nat
  | DuplicatedAncestorsAuthority authority_index
  | InsufficientParentStakes stake stake
  | InvalidTransaction string
  | NoCommitReceived peer_id
  | UnexpectedStartCommit peer_id commit_index commit
  | UnexpectedCommitSequence peer_id commit commit
  | NotEnoughCommitVotes stake peer_id commit
  | UnexpectedBlockForCommit peer_id block_ref block_ref
  | UnexpectedCertifiedCommitIndex commit_index commit_index
  | RocksDBFailure string
  | UnknownNetworkPeer string
  | PeerDisconnected string
  | NetworkConfig string
  | NetworkClientConnection string
  | NetworkRequest string
  | NetworkRequestTimeout string
  | Shutdown

type_synonym 'a consensus_result = "consensus_error + 'a"

subsection \<open>Configuration and context\<close>

record consensus_protocol_config =
  max_transaction_size_bytes :: nat
  max_transactions_in_block_bytes :: nat
  max_num_transactions_in_block :: nat
  gc_depth :: nat
  transaction_voting_enabled :: bool
  num_leaders_per_round :: "nat option"
  bad_nodes_stake_threshold :: nat
  enable_v3 :: bool
  cfg_leader_schedule_window_size :: nat
  cfg_leader_schedule_update_interval :: nat

definition leader_schedule_window_size :: "consensus_protocol_config \<Rightarrow> nat" where
  "leader_schedule_window_size p = max (cfg_leader_schedule_window_size p) 1"

definition leader_schedule_update_interval :: "consensus_protocol_config \<Rightarrow> nat" where
  "leader_schedule_update_interval p = max (cfg_leader_schedule_update_interval p) 1"

text \<open>The local parameters of an authority, as far as the modelled code reads them.\<close>

record consensus_parameters =
  dag_state_cached_rounds :: nat
  commit_sync_batch_size :: nat
  skip_equivocation_validation :: bool
  propagation_delay_stop_proposal_threshold :: nat
  min_round_delay_ns :: nat

record consensus_context =
  epoch_start_timestamp_ms :: timestamp_ms
  own_index :: authority_index
  ctx_committee :: committee
  ctx_parameters :: consensus_parameters
  protocol_config :: consensus_protocol_config

definition Context_new ::
    "timestamp_ms \<Rightarrow> authority_index option \<Rightarrow> committee \<Rightarrow> consensus_parameters
       \<Rightarrow> consensus_protocol_config \<Rightarrow> consensus_context" where
  "Context_new ts own c ps pc =
     \<lparr>epoch_start_timestamp_ms = ts,
      own_index = (case own of Some i \<Rightarrow> i | None \<Rightarrow> u32_max),
      ctx_committee = c, ctx_parameters = ps, protocol_config = pc\<rparr>"

definition is_validator :: "consensus_context \<Rightarrow> bool" where
  "is_validator ctx = is_valid_index (ctx_committee ctx) (own_index ctx)"

definition is_observer :: "consensus_context \<Rightarrow> bool" where
  "is_observer ctx = (\<not> is_validator ctx)"

subsection \<open>Hashing, signing and serialization\<close>

datatype intent_scope =
    TransactionData | TransactionEffects | CheckpointSummary | PersonalMessage
  | SenderSignedTransaction | ProofOfPossession | HeaderDigest | BridgeEventUnused
  | ConsensusBlock | DiscoveryPeers

datatype intent_version = IntentV0

datatype app_id = AppSui | AppNarwhal | AppConsensus

record intent =
  intent_scope_of :: intent_scope
  intent_version_of :: intent_version
  intent_app_id :: app_id

text \<open>The operations of the \<open>bcs\<close> and \<open>fastcrypto\<close> packages the code calls.\<close>

record crypto =
  bcs_block :: "block \<Rightarrow> string + bytes"
  bcs_signed_block :: "signed_block \<Rightarrow> string + bytes"
  bcs_intent_message :: "intent \<times> digest \<Rightarrow> string + bytes"
  bcs_commit :: "commit \<Rightarrow> string + bytes"
  hash_bytes :: "bytes \<Rightarrow> digest"
  signature_from_bytes :: "bytes \<Rightarrow> string + bytes"
  protocol_key_verify :: "bytes \<Rightarrow> bytes \<Rightarrow> bytes \<Rightarrow> string + unit"
  protocol_keypair_sign :: "bytes \<Rightarrow> bytes \<Rightarrow> bytes"

text \<open>The \<open>?\<close> operator on a \<open>Result\<close> inside a function that may also panic, and \<open>expect\<close>.\<close>

fun try_result :: "'e + 'a \<Rightarrow> ('a \<Rightarrow> ('e + 'b) option) \<Rightarrow> ('e + 'b) option" where
  "try_result (Inl e) k = Some (Inl e)"
| "try_result (Inr x) k = k x"

definition try_panic :: "('e + 'a) option \<Rightarrow> ('a \<Rightarrow> ('e + 'b) option) \<Rightarrow> ('e + 'b) option" where
  "try_panic r k = do { x \<leftarrow> r; try_result x k }"

fun map_err :: "('e \<Rightarrow> 'f) \<Rightarrow> 'e + 'a \<Rightarrow> 'f + 'a" where
  "map_err f (Inl e) = Inl (f e)"
| "map_err f (Inr x) = Inr x"

fun expect_ok :: "'e + 'a \<Rightarrow> 'a option" where
  "expect_ok (Inl e) = None"
| "expect_ok (Inr x) = Some x"

fun result_bind :: "'e + 'a \<Rightarrow> ('a \<Rightarrow> 'e + 'b) \<Rightarrow> 'e + 'b" where
  "result_bind (Inl e) k = Inl e"
| "result_bind (Inr x) k = k x"

definition consensus_app :: "intent_scope \<Rightarrow> intent" where
  "consensus_app s = \<lparr>intent_scope_of = s, intent_version_of = IntentV0, intent_app_id = AppConsensus\<rparr>"

definition compute_inner_block_digest :: "crypto \<Rightarrow> block \<Rightarrow> digest consensus_result" where
  "compute_inner_block_digest cr b =
     result_bind (map_err SerializationFailure (bcs_block cr b)) (\<lambda>bs. Inr (hash_bytes cr bs))"

definition to_consensus_block_intent :: "digest \<Rightarrow> intent \<times> digest" where
  "to_consensus_block_intent d = (consensus_app ConsensusBlock, d)"

definition compute_block_signature :: "crypto \<Rightarrow> block \<Rightarrow> bytes \<Rightarrow> bytes consensus_result" where
  "compute_block_signature cr b keypair =
     result_bind (compute_inner_block_digest cr b) (\<lambda>d.
     result_bind (map_err SerializationFailure
                    (bcs_intent_message cr (to_consensus_block_intent d))) (\<lambda>message.
     Inr (protocol_keypair_sign cr keypair message)))"

definition verify_block_signature ::
    "crypto \<Rightarrow> block \<Rightarrow> bytes \<Rightarrow> bytes \<Rightarrow> unit consensus_result" where
  "verify_block_signature cr b signature pubkey =
     result_bind (compute_inner_block_digest cr b) (\<lambda>d.
     result_bind (map_err SerializationFailure
                    (bcs_intent_message cr (to_consensus_block_intent d))) (\<lambda>message.
     result_bind (map_err MalformedSignature (signature_from_bytes cr signature)) (\<lambda>sig.
     map_err SignatureVerificationFailure (protocol_key_verify cr pubkey message sig))))"

definition SignedBlock_new_genesis :: "block \<Rightarrow> signed_block" where
  "SignedBlock_new_genesis b = \<lparr>sb_inner = b, sb_signature = []\<rparr>"

definition SignedBlock_new :: "crypto \<Rightarrow> block \<Rightarrow> bytes \<Rightarrow> signed_block consensus_result" where
  "SignedBlock_new cr b keypair =
     result_bind (compute_block_signature cr b keypair) (\<lambda>signature.
     Inr \<lparr>sb_inner = b, sb_signature = signature\<rparr>)"

definition verify_signature ::
    "crypto \<Rightarrow> consensus_context \<Rightarrow> signed_block \<Rightarrow> unit consensus_result option" where
  "verify_signature cr ctx sb = (
     let block = sb_inner sb; committee = ctx_committee ctx in
     if \<not> is_valid_index committee (b_author block) then do {
       mx \<leftarrow> checked_sub (committee_size committee) 1;
       Some (Inl (InvalidAuthorityIndex (b_author block) mx))
     } else do {
       authority \<leftarrow> committee_authority committee (b_author block);
       Some (verify_block_signature cr block (sb_signature sb) (auth_protocol_key authority))
     })"

definition compute_digest :: "crypto \<Rightarrow> bytes \<Rightarrow> digest" where
  "compute_digest cr serialized = hash_bytes cr serialized"

definition new_verified :: "crypto \<Rightarrow> signed_block \<Rightarrow> bytes \<Rightarrow> verified_block" where
  "new_verified cr sb serialized =
     \<lparr>vb_block = sb, vb_digest = compute_digest cr serialized, vb_serialized = serialized\<rparr>"

definition genesis_block_v1 :: "consensus_context \<Rightarrow> authority_index \<Rightarrow> block_v1" where
  "genesis_block_v1 ctx author =
     \<lparr>v1_epoch = committee_epoch (ctx_committee ctx), v1_round = GENESIS_ROUND,
      v1_author = author, v1_timestamp_ms = epoch_start_timestamp_ms ctx, v1_ancestors = [],
      v1_transactions = [], v1_commit_votes = [], v1_misbehavior_reports = []\<rparr>"

definition genesis_block_v2 :: "consensus_context \<Rightarrow> authority_index \<Rightarrow> block_v2" where
  "genesis_block_v2 ctx author =
     \<lparr>v2_epoch = committee_epoch (ctx_committee ctx), v2_round = GENESIS_ROUND,
      v2_author = author, v2_timestamp_ms = epoch_start_timestamp_ms ctx, v2_ancestors = [],
      v2_transactions = [], v2_transaction_votes = [], v2_commit_votes = [],
      v2_misbehavior_reports = []\<rparr>"

definition genesis_block_v3 :: "consensus_context \<Rightarrow> authority_index \<Rightarrow> block_v3" where
  "genesis_block_v3 ctx author =
     \<lparr>v3_epoch = committee_epoch (ctx_committee ctx), v3_round = GENESIS_ROUND,
      v3_author = author, v3_timestamp_ms = epoch_start_timestamp_ms ctx, v3_ancestors = [],
      v3_transactions = [], v3_transaction_votes = [],
      v3_transaction_votes_cutoff_round = GENESIS_ROUND, v3_commit_votes = [],
      v3_misbehavior_reports = []\<rparr>"

definition genesis_blocks :: "crypto \<Rightarrow> consensus_context \<Rightarrow> verified_block list option" where
  "genesis_blocks cr ctx = map_opt (\<lambda>(authority_index, _).
     let block = (if transaction_voting_enabled (protocol_config ctx)
                  then V2 (genesis_block_v2 ctx authority_index)
                  else V1 (genesis_block_v1 ctx authority_index));
         signed_block = SignedBlock_new_genesis block
     in do {
       serialized \<leftarrow> expect_ok (bcs_signed_block cr signed_block);
       Some (new_verified cr signed_block serialized)
     }) (authorities (ctx_committee ctx))"

lemma result_bind_Inr [simp]:
  "result_bind r k = Inr y \<longleftrightarrow> (\<exists>x. r = Inr x \<and> k x = Inr y)"
  by (cases r) auto

lemma map_err_Inr [simp]: "map_err f r = Inr y \<longleftrightarrow> r = Inr y"
  by (cases r) auto

lemma try_result_Inr [panic_simps]:
  "try_result r k = Some (Inr y) \<longleftrightarrow> (\<exists>x. r = Inr x \<and> k x = Some (Inr y))"
  by (cases r) auto

lemma try_panic_Inr [panic_simps]:
  "try_panic r k = Some (Inr y) \<longleftrightarrow> (\<exists>x. r = Some (Inr x) \<and> k x = Some (Inr y))"
  by (auto simp: try_panic_def panic_simps)

lemma expect_ok_Some [panic_simps]: "expect_ok r = Some x \<longleftrightarrow> r = Inr x"
  by (cases r) auto

lemma authorities_indices:
  assumes "committee_wf c"
  shows "map fst (authorities c) = [0..<committee_size c]"
proof -
  have "map fst (authorities c) = map as_u32 (map fst (enumerate 0 (committee_authorities c)))"
    unfolding authorities_def map_map comp_def case_prod_unfold fst_conv ..
  also have "\<dots> = map as_u32 [0..<committee_size c]"
    by (simp add: committee_size_def)
  also have "\<dots> = [0..<committee_size c]"
    using assms by (intro map_idI) (auto simp: committee_wf_def as_u32_id)
  finally show ?thesis .
qed

subsection \<open>Signing and verifying\<close>

text \<open>A concrete codec, hash and signature scheme, on which the witnesses evaluate: a signature
  is the key followed by the message, and a block is serialized as its round, its author and
  the number of its transactions.\<close>

definition sample_crypto :: crypto where
  "sample_crypto = \<lparr>
     bcs_block = (\<lambda>b. Inr [of_nat (b_round b), of_nat (b_author b), of_nat (length (b_transactions b))]),
     bcs_signed_block = (\<lambda>b. Inr [of_nat (b_round (sb_inner b)), of_nat (b_author (sb_inner b)),
                                  of_nat (length (b_transactions (sb_inner b)))]),
     bcs_intent_message = (\<lambda>(i, d). Inr [ucast d]),
     bcs_commit = (\<lambda>c. Inr [of_nat (c_index c)]),
     hash_bytes = (\<lambda>bs. foldl (\<lambda>acc x. acc * 256 + ucast x) 0 bs),
     signature_from_bytes = Inr,
     protocol_key_verify = (\<lambda>k m s. if s = k @ m then Inr () else Inl ''bad signature''),
     protocol_keypair_sign = (\<lambda>k m. k @ m)\<rparr>"

definition sample_config :: consensus_protocol_config where
  "sample_config = \<lparr>max_transaction_size_bytes = 64, max_transactions_in_block_bytes = 128,
     max_num_transactions_in_block = 4, gc_depth = 5, transaction_voting_enabled = True,
     num_leaders_per_round = Some 1, bad_nodes_stake_threshold = 30, enable_v3 = False,
     cfg_leader_schedule_window_size = 600, cfg_leader_schedule_update_interval = 60\<rparr>"

definition sample_context :: consensus_context where
  "sample_context = Context_new 10 (Some 0) sample_committee
     \<lparr>dag_state_cached_rounds = 5, commit_sync_batch_size = 10,
      skip_equivocation_validation = False, propagation_delay_stop_proposal_threshold = 5,
      min_round_delay_ns = 50000000\<rparr> sample_config"

definition sample_block :: "round \<Rightarrow> authority_index \<Rightarrow> block_ref list \<Rightarrow> block" where
  "sample_block r a anc = V2 \<lparr>v2_epoch = 0, v2_round = r, v2_author = a, v2_timestamp_ms = 10 * r + a,
     v2_ancestors = anc, v2_transactions = [], v2_transaction_votes = [], v2_commit_votes = [],
     v2_misbehavior_reports = []\<rparr>"

lemma sample_context_fields [simp]:
  "ctx_committee sample_context = sample_committee" "own_index sample_context = 0"
  "protocol_config sample_context = sample_config" "epoch_start_timestamp_ms sample_context = 10"
  by (simp_all add: sample_context_def Context_new_def)

lemma own_signature_verifies:
  assumes "SignedBlock_new cr b keypair = Inr sb"
    and "committee_authority (ctx_committee ctx) (b_author b) = Some a"
    and "\<And>m. signature_from_bytes cr (protocol_keypair_sign cr keypair m)
               = Inr (protocol_keypair_sign cr keypair m)"
    and "\<And>m. protocol_key_verify cr (auth_protocol_key a) m (protocol_keypair_sign cr keypair m)
               = Inr ()"
  shows "sb_inner sb = b \<and> verify_signature cr ctx sb = Some (Inr ())"
proof -
  from assms(2) have idx: "is_valid_index (ctx_committee ctx) (b_author b)"
    by (simp add: panic_simps is_valid_index_def)
  from assms(1) obtain d m where
      d: "compute_inner_block_digest cr b = Inr d"
    and m: "bcs_intent_message cr (to_consensus_block_intent d) = Inr m"
    and sb: "sb = \<lparr>sb_inner = b, sb_signature = protocol_keypair_sign cr keypair m\<rparr>"
    by (auto simp: SignedBlock_new_def compute_block_signature_def)
  have "verify_block_signature cr b (sb_signature sb) (auth_protocol_key a) = Inr ()"
    by (simp add: verify_block_signature_def d m sb assms(3,4))
  then show ?thesis
    using idx assms(2) sb by (simp add: verify_signature_def)
qed

text \<open>
  C19. A block signed with a key pair passes the signature check of its author: when the codec
  serializes the block and its intent message, signatures survive their byte encoding, and the
  key the committee lists for the author verifies what the key pair signs, \<open>verify_signature\<close>
  accepts the signed block.
\<close>

theorem signed_block_verifies:
  assumes "SignedBlock_new cr b keypair = Inr sb"
    and "committee_authority (ctx_committee ctx) (b_author b) = Some a"
    and "\<And>m. signature_from_bytes cr (protocol_keypair_sign cr keypair m)
               = Inr (protocol_keypair_sign cr keypair m)"
    and "\<And>m. protocol_key_verify cr (auth_protocol_key a) m (protocol_keypair_sign cr keypair m)
               = Inr ()"
  shows "sb_inner sb = b \<and> verify_signature cr ctx sb = Some (Inr ())"
  by (rule own_signature_verifies [OF assms])

theorem signed_block_verifies_witness:
  "\<exists>sb. SignedBlock_new sample_crypto (sample_block 1 2 []) [] = Inr sb
      \<and> sb_inner sb = sample_block 1 2 []
      \<and> verify_signature sample_crypto sample_context sb = Some (Inr ())"
proof -
  have "SignedBlock_new sample_crypto (sample_block 1 2 []) []
      = Inr \<lparr>sb_inner = sample_block 1 2 [],
             sb_signature = [ucast (hash_bytes sample_crypto [1, 2, 0])]\<rparr>"
    by (simp add: SignedBlock_new_def compute_block_signature_def compute_inner_block_digest_def
        to_consensus_block_intent_def sample_crypto_def sample_block_def)
  moreover have "committee_authority (ctx_committee sample_context) (b_author (sample_block 1 2 []))
      = Some (sample_authority 1)"
    by (simp add: committee_authority_def vec_get_def sample_block_def)
       (simp add: sample_committee_def)
  moreover have "signature_from_bytes sample_crypto (protocol_keypair_sign sample_crypto [] m)
      = Inr (protocol_keypair_sign sample_crypto [] m)" for m
    by (simp add: sample_crypto_def)
  moreover have "protocol_key_verify sample_crypto (auth_protocol_key (sample_authority 1)) m
      (protocol_keypair_sign sample_crypto [] m) = Inr ()" for m
    by (simp add: sample_crypto_def sample_authority_def)
  ultimately show ?thesis
    using signed_block_verifies by blast
qed

end
