(* ===== verification/Stake_Aggregator.thy ===== *)
theory Stake_Aggregator
  imports Block_Types
begin

section \<open>Counting stake\<close>

text \<open>
  Model of \<open>consensus/src/stake_aggregator.rs\<close>. The type parameter \<open>T: CommitteeThreshold\<close> of
  the Rust struct, recorded there by a \<open>PhantomData\<close> field, is the field \<open>agg_kind\<close> here.
  The locale \<open>stake_counter\<close> is the contract the committer, the threshold clock and the
  block verifier rely on: a run of \<open>add\<close> counts every voter once.
\<close>

datatype threshold_kind = QuorumThreshold | CertificationThreshold

fun is_threshold :: "threshold_kind \<Rightarrow> committee \<Rightarrow> stake \<Rightarrow> bool" where
  "is_threshold QuorumThreshold c amount = reached_quorum c amount"
| "is_threshold CertificationThreshold c amount = (amount \<ge> certification_threshold c)"

fun threshold_of :: "threshold_kind \<Rightarrow> committee \<Rightarrow> stake" where
  "threshold_of QuorumThreshold c = quorum_threshold c"
| "threshold_of CertificationThreshold c = certification_threshold c"

record stake_aggregator =
  agg_kind :: threshold_kind
  agg_votes :: "authority_index list"
  agg_stake :: stake

definition StakeAggregator_new :: "threshold_kind \<Rightarrow> stake_aggregator" where
  "StakeAggregator_new k = \<lparr>agg_kind = k, agg_votes = [], agg_stake = 0\<rparr>"

definition agg_add ::
    "authority_index \<Rightarrow> committee \<Rightarrow> stake_aggregator \<Rightarrow> (stake_aggregator \<times> bool) option" where
  "agg_add vote c agg = do {
     agg' \<leftarrow> (if vote \<notin> set (agg_votes agg) then do {
                s \<leftarrow> committee_stake c vote;
                total \<leftarrow> u64_add (agg_stake agg) s;
                Some (agg\<lparr>agg_votes := bset_insert vote (agg_votes agg), agg_stake := total\<rparr>)
              } else Some agg);
     Some (agg', is_threshold (agg_kind agg') c (agg_stake agg'))
   }"

definition agg_add_unique ::
    "authority_index \<Rightarrow> committee \<Rightarrow> stake_aggregator \<Rightarrow> (stake_aggregator \<times> bool) option" where
  "agg_add_unique vote c agg =
     (if vote \<notin> set (agg_votes agg) then do {
        s \<leftarrow> committee_stake c vote;
        total \<leftarrow> u64_add (agg_stake agg) s;
        Some (agg\<lparr>agg_votes := bset_insert vote (agg_votes agg), agg_stake := total\<rparr>, True)
      } else Some (agg, False))"

definition agg_reached_threshold :: "committee \<Rightarrow> stake_aggregator \<Rightarrow> bool" where
  "agg_reached_threshold c agg = is_threshold (agg_kind agg) c (agg_stake agg)"

definition agg_threshold :: "committee \<Rightarrow> stake_aggregator \<Rightarrow> stake" where
  "agg_threshold c agg = threshold_of (agg_kind agg) c"

definition agg_clear :: "stake_aggregator \<Rightarrow> stake_aggregator" where
  "agg_clear agg = agg\<lparr>agg_votes := [], agg_stake := 0\<rparr>"

subsection \<open>Invariant\<close>

text \<open>The stake of an aggregator is the stake of the set of its voters.\<close>

definition agg_wf :: "committee \<Rightarrow> stake_aggregator \<Rightarrow> bool" where
  "agg_wf c agg \<longleftrightarrow> bset_wf (agg_votes agg) \<and> set (agg_votes agg) \<subseteq> members c
     \<and> agg_stake agg = stake_of c (set (agg_votes agg))"

lemma is_threshold_iff: "is_threshold k c s \<longleftrightarrow> threshold_of k c \<le> s"
  by (cases k) (auto simp: reached_quorum_def)

lemma agg_wf_new [simp]: "agg_wf c (StakeAggregator_new k)"
  by (simp add: agg_wf_def StakeAggregator_new_def stake_of_def)

lemma agg_wf_clear [simp]: "agg_wf c (agg_clear agg)"
  by (simp add: agg_wf_def agg_clear_def stake_of_def)

lemma agg_votes_new [simp]: "agg_votes (StakeAggregator_new k) = []"
  by (simp add: StakeAggregator_new_def)

lemma agg_votes_clear [simp]: "agg_votes (agg_clear agg) = []" "agg_kind (agg_clear agg) = agg_kind agg"
  by (simp_all add: agg_clear_def)

lemma agg_kind_new [simp]: "agg_kind (StakeAggregator_new k) = k"
  by (simp add: StakeAggregator_new_def)

definition agg_insert :: "committee \<Rightarrow> authority_index \<Rightarrow> stake_aggregator \<Rightarrow> stake_aggregator" where
  "agg_insert c vote agg =
     (if vote \<in> set (agg_votes agg) then agg
      else agg\<lparr>agg_votes := bset_insert vote (agg_votes agg),
               agg_stake := agg_stake agg + stake_at c vote\<rparr>)"

lemma agg_wf_insert:
  assumes "agg_wf c agg" and "vote < committee_size c"
  shows "agg_wf c (agg_insert c vote agg)"
  using assms by (auto simp: agg_wf_def agg_insert_def stake_of_insert)

lemma agg_insert_fields [simp]:
  "set (agg_votes (agg_insert c vote agg)) = insert vote (set (agg_votes agg))"
  "agg_kind (agg_insert c vote agg) = agg_kind agg"
  by (auto simp: agg_insert_def)

lemma agg_wf_no_overflow:
  assumes "committee_wf c" and "agg_wf c agg" and "vote < committee_size c"
    and "vote \<notin> set (agg_votes agg)"
  shows "agg_stake agg + stake_at c vote \<le> u64_max"
proof -
  have "stake_of c (insert vote (set (agg_votes agg))) \<le> total_stake c"
    using assms by (intro committee_wf_stake_le_total) (auto simp: agg_wf_def)
  then show ?thesis
    using assms by (simp add: agg_wf_def committee_wf_def stake_of_insert)
qed

lemma agg_add_eq:
  assumes "committee_wf c" and "agg_wf c agg" and "vote < committee_size c"
  shows "agg_add vote c agg
       = Some (agg_insert c vote agg,
               threshold_of (agg_kind agg) c \<le> stake_of c (insert vote (set (agg_votes agg))))"
proof -
  have wf: "agg_wf c (agg_insert c vote agg)" by (rule agg_wf_insert [OF assms(2,3)])
  then have stake: "agg_stake (agg_insert c vote agg)
      = stake_of c (insert vote (set (agg_votes agg)))" by (simp add: agg_wf_def)
  have "agg_add vote c agg = Some (agg_insert c vote agg,
      is_threshold (agg_kind (agg_insert c vote agg)) c (agg_stake (agg_insert c vote agg)))"
    using agg_wf_no_overflow [OF assms] assms(3)
    by (simp add: agg_add_def agg_insert_def committee_stake_valid is_valid_index_def u64_add_def)
  then show ?thesis using stake by (simp add: is_threshold_iff)
qed

lemma agg_add_unique_eq:
  assumes "committee_wf c" and "agg_wf c agg" and "vote < committee_size c"
  shows "agg_add_unique vote c agg
       = Some (agg_insert c vote agg, vote \<notin> set (agg_votes agg))"
  using agg_wf_no_overflow [OF assms] assms(3)
  by (simp add: agg_add_unique_def agg_insert_def committee_stake_valid is_valid_index_def
      u64_add_def)

text \<open>An index outside the committee panics, whatever has been counted.\<close>

lemma agg_add_invalid_index:
  assumes "vote \<notin> set (agg_votes agg)" and "\<not> is_valid_index c vote"
  shows "agg_add vote c agg = None"
proof -
  have "committee_stake c vote = None"
    using assms(2) by (simp add: committee_stake_def vec_get_def is_valid_index_def committee_size_def)
  then show ?thesis using assms(1) by (simp add: agg_add_def)
qed

lemma agg_reached_threshold_iff:
  "agg_wf c agg \<Longrightarrow>
     agg_reached_threshold c agg \<longleftrightarrow> threshold_of (agg_kind agg) c \<le> stake_of c (set (agg_votes agg))"
  by (simp add: agg_reached_threshold_def is_threshold_iff agg_wf_def)

subsection \<open>The contract of a stake counter\<close>

locale stake_counter =
  fixes wf_com :: "'c \<Rightarrow> bool"
    and valid :: "'c \<Rightarrow> 'a \<Rightarrow> bool"
    and weight :: "'c \<Rightarrow> 'a \<Rightarrow> nat"
    and wf_count :: "'c \<Rightarrow> 's \<Rightarrow> bool"
    and count :: "'a \<Rightarrow> 'c \<Rightarrow> 's \<Rightarrow> ('s \<times> bool) option"
    and voters :: "'s \<Rightarrow> 'a set"
    and limit :: "'s \<Rightarrow> 'c \<Rightarrow> nat"
  assumes finite_voters: "wf_count c s \<Longrightarrow> finite (voters s)"
    and count_step: "wf_com c \<Longrightarrow> wf_count c s \<Longrightarrow> valid c v \<Longrightarrow>
      \<exists>s' b. count v c s = Some (s', b) \<and> wf_count c s' \<and> voters s' = insert v (voters s)
        \<and> (b \<longleftrightarrow> limit s c \<le> sum (weight c) (insert v (voters s))) \<and> limit s' c = limit s c"
begin

lemma count_all:
  assumes "wf_com c" and "wf_count c s" and "\<forall>v\<in>set vs. valid c v"
  shows "\<exists>s'. for_each (\<lambda>v s. map_option fst (count v c s)) vs s = Some s' \<and> wf_count c s'
           \<and> voters s' = voters s \<union> set vs \<and> limit s' c = limit s c"
  using assms(2,3)
proof (induction vs arbitrary: s)
  case Nil
  then show ?case by simp
next
  case (Cons v vs)
  from count_step [OF assms(1) Cons.prems(1), of v] Cons.prems(2) obtain s1 b where
    s1: "count v c s = Some (s1, b)" "wf_count c s1" "voters s1 = insert v (voters s)"
        "limit s1 c = limit s c" by auto
  from Cons.IH [OF s1(2)] Cons.prems(2) obtain s' where
    "for_each (\<lambda>v s. map_option fst (count v c s)) vs s1 = Some s'" "wf_count c s'"
    "voters s' = voters s1 \<union> set vs" "limit s' c = limit s1 c" by auto
  with s1 show ?case by auto
qed

text \<open>Votes are counted once: adding a voter again changes neither the voters nor the answer.\<close>

lemma count_twice:
  assumes "wf_com c" and "wf_count c s" and "valid c v" and "count v c s = Some (s', b)"
  shows "\<exists>s''. count v c s' = Some (s'', b) \<and> voters s'' = voters s'"
proof -
  from count_step [OF assms(1-3)] assms(4) have s': "wf_count c s'"
    "voters s' = insert v (voters s)" "b \<longleftrightarrow> limit s c \<le> sum (weight c) (insert v (voters s))"
    "limit s' c = limit s c" by auto
  from count_step [OF assms(1) s'(1) assms(3)] s' show ?thesis by (auto simp: insert_absorb)
qed

end

interpretation agg: stake_counter
    committee_wf is_valid_index stake_at agg_wf agg_add "\<lambda>s. set (agg_votes s)"
    "\<lambda>s. threshold_of (agg_kind s)"
proof unfold_locales
  fix c s v
  assume *: "committee_wf c" "agg_wf c s" "is_valid_index c v"
  then show "\<exists>s' b. agg_add v c s = Some (s', b) \<and> agg_wf c s'
      \<and> set (agg_votes s') = insert v (set (agg_votes s))
      \<and> (b \<longleftrightarrow> threshold_of (agg_kind s) c \<le> sum (stake_at c) (insert v (set (agg_votes s))))
      \<and> threshold_of (agg_kind s') c = threshold_of (agg_kind s) c"
    using agg_add_eq [of c s v] agg_wf_insert [of c s v]
    by (simp add: is_valid_index_def stake_of_def)
qed simp

text \<open>The vote-counting loop of the clients: add every voter of a list.\<close>

definition count_votes :: "committee \<Rightarrow> authority_index list \<Rightarrow> stake_aggregator \<Rightarrow> stake_aggregator option" where
  "count_votes c vs agg = for_each (\<lambda>v s. map_option fst (agg_add v c s)) vs agg"

text \<open>
  C20. Adding the votes of any list of committee members, with repetitions and in any order,
  to a new aggregator never panics or overflows, and afterwards \<open>reached_threshold\<close> answers
  whether the set of the voters holds the stake the threshold demands: every authority is
  counted exactly once.
\<close>

theorem aggregator_counts_each_voter_once:
  assumes "committee_wf c" and "\<forall>v\<in>set vs. is_valid_index c v"
  shows "\<exists>agg. count_votes c vs (StakeAggregator_new k) = Some agg
           \<and> set (agg_votes agg) = set vs \<and> agg_stake agg = stake_of c (set vs)
           \<and> (agg_reached_threshold c agg \<longleftrightarrow> threshold_of k c \<le> stake_of c (set vs))"
proof -
  from agg.count_all [OF assms(1) agg_wf_new assms(2)] obtain s where
    s: "count_votes c vs (StakeAggregator_new k) = Some s" "agg_wf c s"
       "set (agg_votes s) = set vs" "threshold_of (agg_kind s) c = threshold_of k c"
    unfolding count_votes_def by auto
  with agg_reached_threshold_iff [OF s(2)] show ?thesis by (auto simp: agg_wf_def)
qed

theorem aggregator_counts_each_voter_once_witness:
  "\<exists>agg. count_votes sample_committee [2, 0, 2, 1] (StakeAggregator_new QuorumThreshold) = Some agg
     \<and> set (agg_votes agg) = {0, 1, 2} \<and> agg_stake agg = 3 \<and> agg_reached_threshold sample_committee agg"
proof -
  have "set [2, 0, 2, 1] = {0, 1, 2 :: nat}" by auto
  then show ?thesis
    using aggregator_counts_each_voter_once
      [OF sample_committee_wf, of "[2, 0, 2, 1]" QuorumThreshold]
    by (auto simp: is_valid_index_def stake_of_def sample_stake_at)
qed

end
