(* ===== verification/Threshold_Clock.thy ===== *)
theory Threshold_Clock
  imports Stake_Aggregator
begin

section \<open>The threshold clock\<close>

text \<open>
  Model of \<open>consensus/src/threshold_clock.rs\<close>: the round an authority proposes for next, driven
  by the blocks it accepts. \<open>Instant::now()\<close> is the argument \<open>now\<close>.
\<close>

record threshold_clock =
  tc_context :: consensus_context
  tc_aggregator :: stake_aggregator
  tc_round :: round
  tc_quorum_ts :: nat

definition ThresholdClock_new :: "round \<Rightarrow> consensus_context \<Rightarrow> nat \<Rightarrow> threshold_clock" where
  "ThresholdClock_new r ctx now = \<lparr>tc_context = ctx,
     tc_aggregator = StakeAggregator_new QuorumThreshold, tc_round = r, tc_quorum_ts = now\<rparr>"

definition tc_add_block ::
    "nat \<Rightarrow> block_ref \<Rightarrow> threshold_clock \<Rightarrow> (threshold_clock \<times> bool) option" where
  "tc_add_block now block clock = (
     let committee = ctx_committee (tc_context clock) in
     if br_round block < tc_round clock then Some (clock, False)
     else if br_round block = tc_round clock then do {
       (agg, reached) \<leftarrow> agg_add (br_author block) committee (tc_aggregator clock);
       if reached then do {
         next_round \<leftarrow> u32_add (br_round block) 1;
         Some (clock\<lparr>tc_aggregator := agg_clear agg, tc_round := next_round,
                     tc_quorum_ts := now\<rparr>, True)
       } else do {
         _ \<leftarrow> committee_authority committee (br_author block);
         Some (clock\<lparr>tc_aggregator := agg\<rparr>, False)
       }
     } else do {
       (agg, reached) \<leftarrow> agg_add (br_author block) committee (agg_clear (tc_aggregator clock));
       new_round \<leftarrow> (if reached then u32_add (br_round block) 1 else Some (br_round block));
       Some (clock\<lparr>tc_aggregator := agg, tc_round := new_round, tc_quorum_ts := now\<rparr>, True)
     })"

definition get_round :: "threshold_clock \<Rightarrow> round" where
  "get_round clock = tc_round clock"

definition get_quorum_ts :: "threshold_clock \<Rightarrow> nat" where
  "get_quorum_ts clock = tc_quorum_ts clock"

subsection \<open>Invariant and monotonicity\<close>

definition clock_wf :: "threshold_clock \<Rightarrow> bool" where
  "clock_wf clock \<longleftrightarrow> committee_wf (ctx_committee (tc_context clock))
     \<and> agg_wf (ctx_committee (tc_context clock)) (tc_aggregator clock)
     \<and> agg_kind (tc_aggregator clock) = QuorumThreshold"

lemma clock_wf_new:
  "committee_wf (ctx_committee ctx) \<Longrightarrow> clock_wf (ThresholdClock_new r ctx now)"
  by (simp add: clock_wf_def ThresholdClock_new_def)

lemma tc_add_block_old:
  "br_round b < tc_round clock \<Longrightarrow> tc_add_block now b clock = Some (clock, False)"
  by (simp add: tc_add_block_def)

lemma tc_add_block_current:
  assumes "clock_wf clock" and "br_round b = tc_round clock"
    and "br_author b < committee_size (ctx_committee (tc_context clock))"
    and "br_round b < u32_max"
  defines "c \<equiv> ctx_committee (tc_context clock)"
  defines "voters \<equiv> insert (br_author b) (set (agg_votes (tc_aggregator clock)))"
  shows "tc_add_block now b clock =
    Some (if quorum_threshold c \<le> stake_of c voters
          then (clock\<lparr>tc_aggregator := agg_clear (agg_insert c (br_author b) (tc_aggregator clock)),
                      tc_round := tc_round clock + 1, tc_quorum_ts := now\<rparr>, True)
          else (clock\<lparr>tc_aggregator := agg_insert c (br_author b) (tc_aggregator clock)\<rparr>, False))"
proof -
  have wf: "committee_wf c" "agg_wf c (tc_aggregator clock)"
    "agg_kind (tc_aggregator clock) = QuorumThreshold" "br_author b < committee_size c"
    using assms(1,3) by (simp_all add: clock_wf_def c_def)
  have "committee_authority c (br_author b) = Some (committee_authorities c ! br_author b)"
    using wf(4) by (simp add: committee_authority_Some)
  then show ?thesis
    using agg_add_eq [OF wf(1,2,4)] wf(3) assms(2,4)
    by (simp add: tc_add_block_def u32_add_def voters_def flip: c_def)
qed

lemma tc_add_block_future:
  assumes "clock_wf clock" and "tc_round clock < br_round b"
    and "br_author b < committee_size (ctx_committee (tc_context clock))"
    and "br_round b < u32_max"
  defines "c \<equiv> ctx_committee (tc_context clock)"
  shows "tc_add_block now b clock =
    Some (clock\<lparr>tc_aggregator := agg_insert c (br_author b) (agg_clear (tc_aggregator clock)),
                tc_round := (if quorum_threshold c \<le> stake_at c (br_author b)
                             then br_round b + 1 else br_round b),
                tc_quorum_ts := now\<rparr>, True)"
proof -
  have wf: "committee_wf c" "agg_kind (tc_aggregator clock) = QuorumThreshold"
    "br_author b < committee_size c"
    using assms(1,3) by (simp_all add: clock_wf_def c_def)
  show ?thesis
    using agg_add_eq [OF wf(1) agg_wf_clear wf(3), of "tc_aggregator clock"] wf(2) assms(2,4)
    by (simp add: tc_add_block_def u32_add_def stake_of_def flip: c_def)
qed

lemma tc_add_block_step:
  assumes "clock_wf clock" and "is_valid_index (ctx_committee (tc_context clock)) (br_author b)"
    and "br_round b < u32_max"
  shows "\<exists>clock' adv. tc_add_block now b clock = Some (clock', adv) \<and> clock_wf clock'
           \<and> tc_context clock' = tc_context clock
           \<and> br_round b \<le> tc_round clock' \<and> tc_round clock \<le> tc_round clock'
           \<and> tc_round clock' \<le> max (tc_round clock) (br_round b + 1)
           \<and> (adv \<longleftrightarrow> tc_round clock < tc_round clock')"
proof -
  have v: "br_author b < committee_size (ctx_committee (tc_context clock))"
    using assms(2) by (simp add: is_valid_index_def)
  consider "br_round b < tc_round clock" | "br_round b = tc_round clock"
    | "tc_round clock < br_round b" by linarith
  then show ?thesis
  proof cases
    case 1
    then show ?thesis using assms(1) by (simp add: tc_add_block_old)
  next
    case 2
    have "agg_wf (ctx_committee (tc_context clock))
        (agg_insert (ctx_committee (tc_context clock)) (br_author b) (tc_aggregator clock))"
      using assms(1) v by (intro agg_wf_insert) (simp_all add: clock_wf_def)
    with tc_add_block_current [OF assms(1) 2 v assms(3)] show ?thesis
      using assms(1) 2 by (auto simp: clock_wf_def)
  next
    case 3
    have "agg_wf (ctx_committee (tc_context clock))
        (agg_insert (ctx_committee (tc_context clock)) (br_author b) (agg_clear (tc_aggregator clock)))"
      using v by (intro agg_wf_insert) simp_all
    with tc_add_block_future [OF assms(1) 3 v assms(3)] show ?thesis
      using assms(1) 3 by (auto simp: clock_wf_def)
  qed
qed

lemma tc_add_block_wf:
  assumes "clock_wf clock" and "br_author b < committee_size (ctx_committee (tc_context clock))"
    and "tc_add_block now b clock = Some (clock', adv)"
  shows "clock_wf clock' \<and> tc_context clock' = tc_context clock"
proof -
  let ?c = "ctx_committee (tc_context clock)"
  have wf: "committee_wf ?c" "agg_wf ?c (tc_aggregator clock)"
    "agg_kind (tc_aggregator clock) = QuorumThreshold"
    using assms(1) by (simp_all add: clock_wf_def)
  have ins: "agg_wf ?c (agg_insert ?c (br_author b) (tc_aggregator clock))"
    "agg_wf ?c (agg_insert ?c (br_author b) (agg_clear (tc_aggregator clock)))"
    using wf(2) assms(2) by (simp_all add: agg_wf_insert)
  show ?thesis
    using assms(3) wf ins agg_add_eq [OF wf(1,2) assms(2)]
      agg_add_eq [OF wf(1) agg_wf_clear assms(2), of "tc_aggregator clock"]
    by (auto simp: tc_add_block_def Let_def clock_wf_def panic_simps split: if_splits)
qed

text \<open>Accepting a sequence of blocks, each at its own time.\<close>

definition tc_run :: "(nat \<times> block_ref) list \<Rightarrow> threshold_clock \<Rightarrow> threshold_clock option" where
  "tc_run bs clock = for_each (\<lambda>(now, b) clock. map_option fst (tc_add_block now b clock)) bs clock"

text \<open>
  C21. The threshold clock never moves back and reports exactly its advances: adding any block
  of a committee member below the maximal round returns, keeps the invariant, leaves the clock
  at least at the block's round and at most one past it unless it was already later, and
  \<open>add_block\<close> returns true exactly when the round has increased.
\<close>

theorem threshold_clock_monotone:
  assumes "clock_wf clock" and "is_valid_index (ctx_committee (tc_context clock)) (br_author b)"
    and "br_round b < u32_max"
  shows "\<exists>clock' adv. tc_add_block now b clock = Some (clock', adv) \<and> clock_wf clock'
           \<and> br_round b \<le> get_round clock' \<and> get_round clock \<le> get_round clock'
           \<and> get_round clock' \<le> max (get_round clock) (br_round b + 1)
           \<and> (adv \<longleftrightarrow> get_round clock < get_round clock')"
  using tc_add_block_step [OF assms, of now] by (auto simp: get_round_def)

theorem threshold_clock_monotone_witness:
  "\<exists>clock' adv. tc_add_block 7 (BlockRef 4 2 0) (ThresholdClock_new 3 sample_context 1)
       = Some (clock', adv) \<and> 4 \<le> get_round clock'"
  using threshold_clock_monotone
    [of "ThresholdClock_new 3 sample_context 1" "BlockRef 4 2 0" 7]
    clock_wf_new [of sample_context 3 1] sample_committee_wf
  by (auto simp: is_valid_index_def u32_max_def ThresholdClock_new_def)

text \<open>The authors of the accepted blocks of a round.\<close>

definition authors_at :: "block_ref set \<Rightarrow> round \<Rightarrow> authority_index set" where
  "authors_at B r = br_author ` {b \<in> B. br_round b = r}"

lemma authors_at_mono: "B \<subseteq> B' \<Longrightarrow> authors_at B r \<subseteq> authors_at B' r"
  by (auto simp: authors_at_def)

lemma authors_at_insert [simp]:
  "authors_at (insert b B) r = (if br_round b = r then insert (br_author b) (authors_at B r)
                                else authors_at B r)"
  by (auto simp: authors_at_def)

lemma finite_authors_at [simp]: "finite B \<Longrightarrow> finite (authors_at B r)"
  by (simp add: authors_at_def)

text \<open>What justifies the round of a clock started at round \<open>r0\<close> after accepting the blocks \<open>B\<close>.\<close>

definition clock_justified :: "round \<Rightarrow> block_ref set \<Rightarrow> threshold_clock \<Rightarrow> bool" where
  "clock_justified r0 B clock \<longleftrightarrow>
     set (agg_votes (tc_aggregator clock)) \<subseteq> authors_at B (tc_round clock)
   \<and> (tc_round clock = r0 \<or> (\<exists>b\<in>B. br_round b = tc_round clock)
      \<or> quorum_threshold (ctx_committee (tc_context clock))
          \<le> stake_of (ctx_committee (tc_context clock)) (authors_at B (tc_round clock - 1)))"

lemma clock_justified_mono:
  assumes "finite B'" and "B \<subseteq> B'" and "clock_justified r0 B clock"
  shows "clock_justified r0 B' clock"
proof -
  have "stake_of (ctx_committee (tc_context clock)) (authors_at B (tc_round clock - 1))
      \<le> stake_of (ctx_committee (tc_context clock)) (authors_at B' (tc_round clock - 1))"
    using assms(1,2) by (intro stake_of_mono finite_authors_at authors_at_mono)
  then show ?thesis
    using assms(2,3) authors_at_mono [OF assms(2), of "tc_round clock"]
    by (auto simp: clock_justified_def)
qed

lemma clock_justified_step:
  assumes "clock_wf clock" and "clock_justified r0 B clock" and "finite B"
    and "is_valid_index (ctx_committee (tc_context clock)) (br_author b)" and "br_round b < u32_max"
    and "\<And>a. stake_at (ctx_committee (tc_context clock)) a
              < quorum_threshold (ctx_committee (tc_context clock))"
    and "tc_add_block now b clock = Some (clock', adv)"
  shows "clock_justified r0 (insert b B) clock'"
proof -
  let ?c = "ctx_committee (tc_context clock)"
  let ?votes = "insert (br_author b) (set (agg_votes (tc_aggregator clock)))"
  have v: "br_author b < committee_size ?c" using assms(4) by (simp add: is_valid_index_def)
  consider "br_round b < tc_round clock" | "br_round b = tc_round clock"
    | "tc_round clock < br_round b" by linarith
  then show ?thesis
  proof cases
    case 1
    then show ?thesis
      using assms(2,3,7) clock_justified_mono [of "insert b B" B]
      by (auto simp: tc_add_block_old)
  next
    case 2
    have sub: "?votes \<subseteq> authors_at (insert b B) (tc_round clock)"
      using 2 assms(2) by (auto simp: clock_justified_def)
    then have le: "stake_of ?c ?votes \<le> stake_of ?c (authors_at (insert b B) (tc_round clock))"
      using assms(3) by (intro stake_of_mono) auto
    note step = tc_add_block_current [OF assms(1) 2 v assms(5), of now]
    show ?thesis
    proof (cases "quorum_threshold ?c \<le> stake_of ?c ?votes")
      case True
      then have "clock' = clock\<lparr>tc_aggregator := agg_clear (agg_insert ?c (br_author b) (tc_aggregator clock)),
          tc_round := tc_round clock + 1, tc_quorum_ts := now\<rparr>"
        using step assms(7) by simp
      moreover have "quorum_threshold ?c \<le> stake_of ?c (authors_at (insert b B) (tc_round clock))"
        using True le by (rule order_trans)
      ultimately show ?thesis by (simp add: clock_justified_def del: authors_at_insert)
    next
      case False
      then have "clock' = clock\<lparr>tc_aggregator := agg_insert ?c (br_author b) (tc_aggregator clock)\<rparr>"
        using step assms(7) by simp
      then show ?thesis using sub 2 by (simp add: clock_justified_def del: authors_at_insert)
    qed
  next
    case 3
    have "\<not> quorum_threshold ?c \<le> stake_at ?c (br_author b)"
      using assms(6) [of "br_author b"] by simp
    then have "clock' = clock\<lparr>tc_aggregator := agg_insert ?c (br_author b) (agg_clear (tc_aggregator clock)),
        tc_round := br_round b, tc_quorum_ts := now\<rparr>"
      using assms(7) tc_add_block_future [OF assms(1) 3 v assms(5), of now] by simp
    then show ?thesis by (simp add: clock_justified_def)
  qed
qed

lemma tc_run_justified:
  assumes "clock_wf clock" and "clock_justified r0 B clock" and "finite B"
    and "\<forall>(now, b)\<in>set bs. is_valid_index (ctx_committee (tc_context clock)) (br_author b)
           \<and> br_round b < u32_max"
    and "\<forall>a. stake_at (ctx_committee (tc_context clock)) a
              < quorum_threshold (ctx_committee (tc_context clock))"
  shows "\<exists>clock'. tc_run bs clock = Some clock' \<and> clock_wf clock'
      \<and> tc_context clock' = tc_context clock \<and> tc_round clock \<le> tc_round clock'
      \<and> clock_justified r0 (B \<union> snd ` set bs) clock'"
  using assms
proof (induction bs arbitrary: clock B)
  case Nil
  then show ?case by (simp add: tc_run_def)
next
  case (Cons nb bs)
  obtain now b where nb: "nb = (now, b)" by force
  have b: "is_valid_index (ctx_committee (tc_context clock)) (br_author b)" "br_round b < u32_max"
    using Cons.prems(4) by (simp_all add: nb)
  from tc_add_block_step [OF Cons.prems(1) b, of now] obtain clock1 adv where
    step: "tc_add_block now b clock = Some (clock1, adv)" "clock_wf clock1"
      "tc_context clock1 = tc_context clock" "tc_round clock \<le> tc_round clock1" by blast
  have just: "clock_justified r0 (insert b B) clock1"
    using clock_justified_step [OF Cons.prems(1-3) b _ step(1)] Cons.prems(5) by blast
  have "\<exists>clock'. tc_run bs clock1 = Some clock' \<and> clock_wf clock'
      \<and> tc_context clock' = tc_context clock1 \<and> tc_round clock1 \<le> tc_round clock'
      \<and> clock_justified r0 (insert b B \<union> snd ` set bs) clock'"
    using Cons.prems(3-5) by (intro Cons.IH [OF step(2) just]) (auto simp: step(3))
  with step show ?case by (auto simp: tc_run_def nb)
qed


end
