(* ===== verification/Commit_Types.thy ===== *)
theory Commit_Types
  imports Stake_Aggregator
begin

section \<open>Commits, sub-dags and leader decisions\<close>

text \<open>
  Model of the parts of \<open>consensus/src/commit.rs\<close> that need no store: trusted and certified
  commits, committed sub-dags and their block order, the status of a leader slot, commit ranges,
  and the reputation scores of \<open>consensus/src/leader_scoring.rs\<close> that a commit info carries.
\<close>

definition commit_compute_digest :: "crypto \<Rightarrow> bytes \<Rightarrow> digest" where
  "commit_compute_digest cr serialized = hash_bytes cr serialized"

definition new_trusted :: "crypto \<Rightarrow> commit \<Rightarrow> bytes \<Rightarrow> trusted_commit" where
  "new_trusted cr c serialized =
     \<lparr>tc_inner = c, tc_digest = commit_compute_digest cr serialized, tc_serialized = serialized\<rparr>"

record certified_commit =
  cc_commit :: trusted_commit
  cc_blocks :: "verified_block list"

record certified_commits =
  ccs_commits :: "certified_commit list"
  ccs_votes :: "verified_block list"

definition new_certified :: "trusted_commit \<Rightarrow> verified_block list \<Rightarrow> certified_commit" where
  "new_certified c bs = \<lparr>cc_commit = c, cc_blocks = bs\<rparr>"

definition CertifiedCommits_new :: "certified_commit list \<Rightarrow> verified_block list \<Rightarrow> certified_commits" where
  "CertifiedCommits_new cs vs = \<lparr>ccs_commits = cs, ccs_votes = vs\<rparr>"

record committed_sub_dag =
  csd_leader :: block_ref
  csd_blocks :: "verified_block list"
  csd_timestamp_ms :: timestamp_ms
  csd_commit_ref :: commit_ref
  csd_decided_with_local_blocks :: bool
  csd_recovered_rejected_transactions :: bool
  csd_rejected_transactions_by_block :: "(block_ref \<times> transaction_index list) list"

definition CommittedSubDag_new ::
    "block_ref \<Rightarrow> verified_block list \<Rightarrow> timestamp_ms \<Rightarrow> commit_ref \<Rightarrow> committed_sub_dag" where
  "CommittedSubDag_new l bs ts cref =
     \<lparr>csd_leader = l, csd_blocks = bs, csd_timestamp_ms = ts, csd_commit_ref = cref,
      csd_decided_with_local_blocks = True, csd_recovered_rejected_transactions = False,
      csd_rejected_transactions_by_block = []\<rparr>"

definition sort_sub_dag_blocks :: "verified_block list \<Rightarrow> verified_block list" where
  "sort_sub_dag_blocks bs = sort_key (\<lambda>b. (vb_round b, vb_author b)) bs"

datatype decision = Direct | Indirect | Certified

datatype leader_status = Commit verified_block | Skip slot | Undecided slot

fun ls_round :: "leader_status \<Rightarrow> round" where
  "ls_round (Commit b) = vb_round b"
| "ls_round (Skip s) = slot_round s"
| "ls_round (Undecided s) = slot_round s"

fun is_decided :: "leader_status \<Rightarrow> bool" where
  "is_decided (Commit _) = True"
| "is_decided (Skip _) = True"
| "is_decided (Undecided _) = False"

datatype decided_leader = DCommit verified_block bool | DSkip slot

fun into_decided_leader :: "bool \<Rightarrow> leader_status \<Rightarrow> decided_leader option" where
  "into_decided_leader direct (Commit b) = Some (DCommit b direct)"
| "into_decided_leader direct (Skip s) = Some (DSkip s)"
| "into_decided_leader direct (Undecided s) = None"

fun dl_slot :: "decided_leader \<Rightarrow> slot" where
  "dl_slot (DCommit b _) = slot_of_ref (reference b)"
| "dl_slot (DSkip s) = s"

fun into_committed_block :: "decided_leader \<Rightarrow> verified_block option" where
  "into_committed_block (DCommit b _) = Some b"
| "into_committed_block (DSkip _) = None"

subsection \<open>Commit ranges\<close>

datatype commit_range = CommitRange (range_from: commit_index) (range_to_excl: commit_index)

definition CommitRange_new :: "commit_index \<Rightarrow> commit_index \<Rightarrow> commit_range" where
  "CommitRange_new start end_incl = CommitRange start (u32_saturating_add end_incl 1)"

definition range_start :: "commit_range \<Rightarrow> commit_index" where
  "range_start r = range_from r"

definition range_end :: "commit_range \<Rightarrow> commit_index" where
  "range_end r = saturating_sub (range_to_excl r) 1"

definition extend_to :: "commit_index \<Rightarrow> commit_range \<Rightarrow> commit_range option" where
  "extend_to other r = (
     let new_end = u32_saturating_add other 1 in do {
       rassert (range_to_excl r \<le> new_end);
       Some (CommitRange (range_from r) new_end)
     })"

definition range_size :: "commit_range \<Rightarrow> nat option" where
  "range_size r = checked_sub (range_to_excl r) (range_from r)"

definition is_equal_size :: "commit_range \<Rightarrow> commit_range \<Rightarrow> bool option" where
  "is_equal_size r r' = do { a \<leftarrow> range_size r; b \<leftarrow> range_size r'; Some (a = b) }"

definition is_next_range :: "commit_range \<Rightarrow> commit_range \<Rightarrow> bool" where
  "is_next_range r r' = (range_to_excl r = range_from r')"

text \<open>The hand-written \<open>Ord\<close> of \<open>CommitRange\<close>, by inclusive bounds.\<close>

definition range_le :: "commit_range \<Rightarrow> commit_range \<Rightarrow> bool" where
  "range_le r r' \<longleftrightarrow> (range_start r, range_end r) \<le> (range_start r', range_end r')"

subsection \<open>Reputation scores and commit info\<close>

record reputation_scores =
  scores_per_authority :: "nat list"
  scores_commit_range :: commit_range

definition ReputationScores_new :: "commit_range \<Rightarrow> nat list \<Rightarrow> reputation_scores" where
  "ReputationScores_new r scores = \<lparr>scores_per_authority = scores, scores_commit_range = r\<rparr>"

definition ReputationScores_default :: reputation_scores where
  "ReputationScores_default = \<lparr>scores_per_authority = [], scores_commit_range = CommitRange 0 0\<rparr>"

definition highest_score :: "reputation_scores \<Rightarrow> nat" where
  "highest_score s = (if scores_per_authority s = [] then 0 else Max (set (scores_per_authority s)))"

definition authorities_by_score ::
    "committee \<Rightarrow> reputation_scores \<Rightarrow> (authority_index \<times> nat) list option" where
  "authorities_by_score c s = map_opt (\<lambda>(index, score). do {
     i \<leftarrow> to_authority_index c index; Some (i, score) }) (enumerate 0 (scores_per_authority s))"

definition scores_update_metrics :: "committee \<Rightarrow> reputation_scores \<Rightarrow> unit option" where
  "scores_update_metrics c s = for_each (\<lambda>(index, score) _. do {
     i \<leftarrow> to_authority_index c index;
     _ \<leftarrow> committee_authority c i;
     Some () }) (enumerate 0 (scores_per_authority s)) ()"

record commit_info =
  ci_committed_rounds :: "round list"
  ci_reputation_scores :: reputation_scores

subsection \<open>Block order\<close>

lemma set_sort_sub_dag_blocks [simp]: "set (sort_sub_dag_blocks bs) = set bs"
  by (simp add: sort_sub_dag_blocks_def)

lemma mset_sort_sub_dag_blocks: "length (sort_sub_dag_blocks bs) = length bs"
  by (simp add: sort_sub_dag_blocks_def)

lemma distinct_sort_sub_dag_blocks [simp]: "distinct (sort_sub_dag_blocks bs) = distinct bs"
  by (simp add: sort_sub_dag_blocks_def)

lemma sorted_sort_sub_dag_blocks:
  "sorted (map (\<lambda>b. (vb_round b, vb_author b)) (sort_sub_dag_blocks bs))"
  by (simp add: sort_sub_dag_blocks_def)

lemma sorted_rounds_sort_sub_dag_blocks: "sorted (map vb_round (sort_sub_dag_blocks bs))"
proof -
  have "sorted_wrt (\<lambda>a b. (vb_round a, vb_author a) \<le> (vb_round b, vb_author b)) (sort_sub_dag_blocks bs)"
    using sorted_sort_sub_dag_blocks [of bs] by (simp add: sorted_wrt_map)
  then have "sorted_wrt (\<lambda>a b. vb_round a \<le> vb_round b) (sort_sub_dag_blocks bs)"
    by (rule sorted_wrt_mono_rel [rotated]) auto
  then show ?thesis by (simp add: sorted_wrt_map)
qed

subsection \<open>Ranges\<close>

definition range_wf :: "commit_range \<Rightarrow> bool" where
  "range_wf r \<longleftrightarrow> range_from r < range_to_excl r \<and> range_to_excl r \<le> u32_max"

lemma CommitRange_new_wf:
  "a \<le> b \<Longrightarrow> b < u32_max \<Longrightarrow> range_wf (CommitRange_new a b)
     \<and> range_start (CommitRange_new a b) = a \<and> range_end (CommitRange_new a b) = b"
  by (auto simp: range_wf_def CommitRange_new_def u32_saturating_add_def range_start_def range_end_def)

lemma range_size_wf: "range_wf r \<Longrightarrow> range_size r = Some (range_end r - range_start r + 1)"
  by (auto simp: range_wf_def range_size_def checked_sub_def range_end_def range_start_def)

lemma extend_to_wf:
  assumes "range_wf r" and "range_end r \<le> i" and "i < u32_max"
  shows "\<exists>r'. extend_to i r = Some r' \<and> range_wf r' \<and> range_start r' = range_start r \<and> range_end r' = i"
proof -
  have "range_to_excl r \<le> Suc i" "range_from r \<le> i"
    using assms by (auto simp: range_wf_def range_end_def)
  then show ?thesis
    using assms(3)
    by (auto simp: range_wf_def extend_to_def u32_saturating_add_def range_end_def range_start_def
        rassert_def)
qed

lemma is_decided_iff: "is_decided s \<longleftrightarrow> into_decided_leader d s \<noteq> None"
  by (cases s) auto

text \<open>
  C26. A commit range built from inclusive bounds below the maximal index gives the bounds back,
  has the size of the interval, extends to any later index by exactly the new commits, and is
  adjacent to the range that starts right after its end, and to no other.
\<close>

theorem commit_range_roundtrip:
  assumes "a \<le> b" and "b \<le> i" and "i < u32_max"
  shows "range_start (CommitRange_new a b) = a \<and> range_end (CommitRange_new a b) = b
       \<and> range_size (CommitRange_new a b) = Some (b - a + 1)
       \<and> extend_to i (CommitRange_new a b) = Some (CommitRange_new a i)
       \<and> (is_next_range (CommitRange_new a b) (CommitRange_new x y) \<longleftrightarrow> x = b + 1)"
  using assms CommitRange_new_wf [of a b] range_size_wf [of "CommitRange_new a b"]
  by (auto simp: extend_to_def CommitRange_new_def u32_saturating_add_def is_next_range_def
      range_end_def range_start_def rassert_def)

theorem commit_range_roundtrip_witness:
  "range_size (CommitRange_new 3 7) = Some 5
   \<and> extend_to 9 (CommitRange_new 3 7) = Some (CommitRange_new 3 9)
   \<and> is_next_range (CommitRange_new 3 7) (CommitRange_new 8 10)"
  using commit_range_roundtrip [of 3 7 9 8 10] by (simp add: u32_max_def)

end
