(* ===== verification/Mem_Store.thy ===== *)
theory Mem_Store
  imports Commit_Types
begin

section \<open>The block and commit store\<close>

text \<open>
  Model of \<open>consensus/src/storage/mod.rs\<close> and \<open>storage/mem_store.rs\<close>. The in-memory store is the
  implementation of the \<open>Store\<close> trait the development works with (the RocksDB one calls an
  external package). No operation of it returns an error, so \<open>ConsensusResult\<close> is dropped;
  \<^term>\<open>None\<close> is a panic, also that of \<open>BTreeMap::range\<close> on an inverted range.
\<close>

type_synonym rejected_transactions = "(block_ref \<times> transaction_index list) list"

record mem_store =
  ms_blocks :: "((round \<times> authority_index \<times> digest) \<times> verified_block) list"
  ms_digests_by_authorities :: "(authority_index \<times> round \<times> digest) list"
  ms_commits :: "((commit_index \<times> digest) \<times> trusted_commit) list"
  ms_commit_votes :: "(commit_index \<times> digest \<times> block_ref) list"
  ms_commit_info :: "((commit_index \<times> digest) \<times> commit_info) list"
  ms_finalized_commits :: "((commit_index \<times> digest) \<times> rejected_transactions) list"

record write_batch =
  wb_blocks :: "verified_block list"
  wb_commits :: "trusted_commit list"
  wb_commit_info :: "(commit_ref \<times> commit_info) list"
  wb_finalized_commits :: "(commit_ref \<times> rejected_transactions) list"

definition MemStore_new :: mem_store where
  "MemStore_new = \<lparr>ms_blocks = [], ms_digests_by_authorities = [], ms_commits = [],
     ms_commit_votes = [], ms_commit_info = [], ms_finalized_commits = []\<rparr>"

definition WriteBatch_new ::
    "verified_block list \<Rightarrow> trusted_commit list \<Rightarrow> (commit_ref \<times> commit_info) list
       \<Rightarrow> (commit_ref \<times> rejected_transactions) list \<Rightarrow> write_batch" where
  "WriteBatch_new bs cs ci fc = \<lparr>wb_blocks = bs, wb_commits = cs, wb_commit_info = ci,
     wb_finalized_commits = fc\<rparr>"

definition block_key :: "block_ref \<Rightarrow> round \<times> authority_index \<times> digest" where
  "block_key r = (br_round r, br_author r, br_digest r)"

definition write_block :: "verified_block \<Rightarrow> mem_store \<Rightarrow> mem_store" where
  "write_block b s = (
     let r = reference b in
     s\<lparr>ms_blocks := bmap_insert (block_key r) b (ms_blocks s),
       ms_digests_by_authorities :=
         bset_insert (br_author r, br_round r, br_digest r) (ms_digests_by_authorities s),
       ms_commit_votes :=
         fold (\<lambda>v. bset_insert (cr_index v, cr_digest v, r)) (b_commit_votes (vb_inner b))
           (ms_commit_votes s)\<rparr>)"

definition write_commit :: "trusted_commit \<Rightarrow> mem_store \<Rightarrow> mem_store" where
  "write_commit c s = s\<lparr>ms_commits := bmap_insert (c_index (tc_inner c), tc_digest c) c (ms_commits s)\<rparr>"

definition write_commit_info :: "commit_ref \<times> commit_info \<Rightarrow> mem_store \<Rightarrow> mem_store" where
  "write_commit_info ci s = (case ci of (r, info) \<Rightarrow>
     s\<lparr>ms_commit_info := bmap_insert (cr_index r, cr_digest r) info (ms_commit_info s)\<rparr>)"

definition write_finalized_commit :: "commit_ref \<times> rejected_transactions \<Rightarrow> mem_store \<Rightarrow> mem_store" where
  "write_finalized_commit fc s = (case fc of (r, rejected) \<Rightarrow>
     s\<lparr>ms_finalized_commits := bmap_insert (cr_index r, cr_digest r) rejected (ms_finalized_commits s)\<rparr>)"

definition ms_write :: "write_batch \<Rightarrow> mem_store \<Rightarrow> mem_store" where
  "ms_write wb s =
     fold write_finalized_commit (wb_finalized_commits wb)
       (fold write_commit_info (wb_commit_info wb)
         (fold write_commit (wb_commits wb)
           (fold write_block (wb_blocks wb) s)))"

definition read_blocks :: "mem_store \<Rightarrow> block_ref list \<Rightarrow> verified_block option list" where
  "read_blocks s refs = map (\<lambda>r. map_of (ms_blocks s) (block_key r)) refs"

definition ms_contains_blocks :: "mem_store \<Rightarrow> block_ref list \<Rightarrow> bool list" where
  "ms_contains_blocks s refs = map (\<lambda>r. map_of (ms_blocks s) (block_key r) \<noteq> None) refs"

definition scan_blocks_by_author_in_range ::
    "mem_store \<Rightarrow> authority_index \<Rightarrow> round \<Rightarrow> round \<Rightarrow> nat \<Rightarrow> verified_block list option" where
  "scan_blocks_by_author_in_range s author start_round end_round limit = do {
     rassert (start_round \<le> end_round);
     let in_range = filter (\<lambda>k. (author, start_round, Digest_MIN) \<le> k \<and> k < (author, end_round, Digest_MIN))
                      (ms_digests_by_authorities s);
     let refs = map (\<lambda>(a, r, d). BlockRef r a d) (take (max limit 1) in_range);
     map_opt (\<lambda>b. b) (read_blocks s refs)
   }"

definition scan_blocks_by_author ::
    "mem_store \<Rightarrow> authority_index \<Rightarrow> round \<Rightarrow> verified_block list option" where
  "scan_blocks_by_author s author start_round =
     scan_blocks_by_author_in_range s author start_round u32_max u64_max"

definition scan_last_blocks_by_author ::
    "mem_store \<Rightarrow> authority_index \<Rightarrow> nat \<Rightarrow> round option \<Rightarrow> verified_block list option" where
  "scan_last_blocks_by_author s author num_of_rounds before_round = (
     let before = (case before_round of Some r \<Rightarrow> r | None \<Rightarrow> u32_max);
         in_range = filter (\<lambda>k. (author, 0, Digest_MIN) \<le> k \<and> k \<le> (author, before, Digest_MAX))
                      (ms_digests_by_authorities s);
         refs = map (\<lambda>(a, r, d). BlockRef r a d) (rev (take num_of_rounds (rev in_range)))
     in map_opt (\<lambda>b. b) (read_blocks s refs))"

definition read_last_commit :: "mem_store \<Rightarrow> trusted_commit option" where
  "read_last_commit s = map_option snd (bset_last (ms_commits s))"

definition scan_commits :: "mem_store \<Rightarrow> commit_range \<Rightarrow> trusted_commit list option" where
  "scan_commits s r = do {
     rassert ((range_start r, Digest_MIN) \<le> (range_end r, Digest_MAX));
     Some (map snd (filter (\<lambda>(k, _). (range_start r, Digest_MIN) \<le> k \<and> k \<le> (range_end r, Digest_MAX))
                      (ms_commits s)))
   }"

definition read_commit_votes :: "mem_store \<Rightarrow> commit_index \<Rightarrow> block_ref list" where
  "read_commit_votes s i =
     map (\<lambda>(_, _, r). r) (filter (\<lambda>k. (i, Digest_MIN, BlockRef_MIN) \<le> k \<and> k \<le> (i, Digest_MAX, BlockRef_MAX))
       (ms_commit_votes s))"

definition read_last_commit_info :: "mem_store \<Rightarrow> (commit_ref \<times> commit_info) option" where
  "read_last_commit_info s =
     map_option (\<lambda>(k, v). (CommitRef (fst k) (snd k), v)) (bset_last (ms_commit_info s))"

definition read_last_finalized_commit :: "mem_store \<Rightarrow> commit_ref option" where
  "read_last_finalized_commit s =
     map_option (\<lambda>(k, _). CommitRef (fst k) (snd k)) (bset_last (ms_finalized_commits s))"

definition read_rejected_transactions :: "mem_store \<Rightarrow> commit_ref \<Rightarrow> rejected_transactions option" where
  "read_rejected_transactions s r = map_of (ms_finalized_commits s) (cr_index r, cr_digest r)"

text \<open>From \<open>commit.rs\<close>: the sub-dag of a stored commit.\<close>

definition load_committed_subdag_from_store ::
    "mem_store \<Rightarrow> trusted_commit \<Rightarrow> committed_sub_dag option" where
  "load_committed_subdag_from_store s c = do {
     blocks \<leftarrow> map_opt (\<lambda>b. b) (read_blocks s (c_blocks (tc_inner c)));
     leader_block \<leftarrow> find (\<lambda>b. reference b = c_leader (tc_inner c)) (rev blocks);
     let subdag = CommittedSubDag_new (reference leader_block) blocks
                    (c_timestamp_ms (tc_inner c)) (tc_reference c);
     Some (case read_rejected_transactions s (tc_reference c) of
       Some reject_votes \<Rightarrow>
         subdag\<lparr>csd_decided_with_local_blocks := True, csd_recovered_rejected_transactions := True,
                csd_rejected_transactions_by_block := reject_votes\<rparr>
     | None \<Rightarrow>
         subdag\<lparr>csd_decided_with_local_blocks := False, csd_recovered_rejected_transactions := False\<rparr>)
   }"

subsection \<open>Invariant\<close>

text \<open>Blocks are stored under their own reference, and the index by author has an entry exactly
  for the stored blocks, so that no scan panics.\<close>

definition store_wf :: "mem_store \<Rightarrow> bool" where
  "store_wf s \<longleftrightarrow> bmap_wf (ms_blocks s) \<and> bset_wf (ms_digests_by_authorities s)
     \<and> bmap_wf (ms_commits s)
     \<and> (\<forall>k b. map_of (ms_blocks s) k = Some b \<longrightarrow> k = block_key (reference b))
     \<and> (\<forall>a r d. (a, r, d) \<in> set (ms_digests_by_authorities s) \<longleftrightarrow> map_of (ms_blocks s) (r, a, d) \<noteq> None)
     \<and> (\<forall>k c. map_of (ms_commits s) k = Some c \<longrightarrow> k = (c_index (tc_inner c), tc_digest c))"

definition read_block :: "mem_store \<Rightarrow> block_ref \<Rightarrow> verified_block option" where
  "read_block s r = map_of (ms_blocks s) (block_key r)"

lemma read_blocks_map: "read_blocks s refs = map (read_block s) refs"
  by (simp add: read_blocks_def read_block_def)

lemma block_key_inject [simp]: "block_key r = block_key r' \<longleftrightarrow> r = r'"
  by (cases r; cases r') (simp add: block_key_def)

lemma store_wf_new [simp]: "store_wf MemStore_new"
  by (simp add: store_wf_def MemStore_new_def)

lemma read_block_reference: "store_wf s \<Longrightarrow> read_block s r = Some b \<Longrightarrow> reference b = r"
  unfolding store_wf_def read_block_def by (metis block_key_inject)

lemma write_block_fields [simp]:
  "ms_commits (write_block b s) = ms_commits s"
  "ms_commit_info (write_block b s) = ms_commit_info s"
  "ms_finalized_commits (write_block b s) = ms_finalized_commits s"
  "ms_blocks (write_block b s) = bmap_insert (block_key (reference b)) b (ms_blocks s)"
  by (simp_all add: write_block_def Let_def)

lemma store_wf_write_block:
  assumes "store_wf s"
  shows "store_wf (write_block b s)"
proof -
  have "(a, r, d) \<in> set (ms_digests_by_authorities (write_block b s)) \<longleftrightarrow>
      map_of (ms_blocks (write_block b s)) (r, a, d) \<noteq> None" for a r d
    using assms by (auto simp: store_wf_def write_block_def Let_def block_key_def)
  moreover have "bset_wf (ms_digests_by_authorities (write_block b s))"
    using assms by (simp add: store_wf_def write_block_def Let_def)
  ultimately show ?thesis using assms by (auto simp: store_wf_def)
qed

lemma store_wf_write_commit: "store_wf s \<Longrightarrow> store_wf (write_commit c s)"
  by (auto simp: store_wf_def write_commit_def)

lemma store_wf_write_commit_info: "store_wf s \<Longrightarrow> store_wf (write_commit_info ci s)"
  by (auto simp: store_wf_def write_commit_info_def split: prod.splits)

lemma store_wf_write_finalized_commit: "store_wf s \<Longrightarrow> store_wf (write_finalized_commit fc s)"
  by (auto simp: store_wf_def write_finalized_commit_def split: prod.splits)

lemma fold_inv: "I s \<Longrightarrow> (\<And>x s. I s \<Longrightarrow> I (f x s)) \<Longrightarrow> I (fold f xs s)"
  by (induction xs arbitrary: s) auto

lemma store_wf_write: "store_wf s \<Longrightarrow> store_wf (ms_write wb s)"
  unfolding ms_write_def
  by (intro fold_inv [where I = store_wf] store_wf_write_block store_wf_write_commit
      store_wf_write_commit_info store_wf_write_finalized_commit)

subsection \<open>Reading back what was written\<close>

lemma ms_blocks_write_commits:
  "ms_blocks (fold write_commit cs s) = ms_blocks s"
  "ms_blocks (fold write_commit_info ci s) = ms_blocks s"
  "ms_blocks (fold write_finalized_commit fc s) = ms_blocks s"
  by (rule fold_inv [where I = "\<lambda>t. ms_blocks t = ms_blocks s"],
      auto simp: write_commit_def write_commit_info_def write_finalized_commit_def split: prod.splits)+

lemma ms_blocks_write_blocks:
  "ms_blocks (fold write_block bs s)
     = fold (\<lambda>b m. bmap_insert (block_key (reference b)) b m) bs (ms_blocks s)"
  by (induction bs arbitrary: s) auto

lemma ms_blocks_write:
  "ms_blocks (ms_write wb s)
     = fold (\<lambda>b m. bmap_insert (block_key (reference b)) b m) (wb_blocks wb) (ms_blocks s)"
  by (simp add: ms_write_def ms_blocks_write_commits ms_blocks_write_blocks)

lemma ms_commits_write:
  "ms_commits (ms_write wb s)
     = fold (\<lambda>c m. bmap_insert (c_index (tc_inner c), tc_digest c) c m) (wb_commits wb) (ms_commits s)"
proof -
  have "ms_commits (fold write_block bs s) = ms_commits s" for bs s
    by (rule fold_inv [where I = "\<lambda>t. ms_commits t = ms_commits s"]) auto
  moreover have "ms_commits (fold write_commit_info ci s) = ms_commits s" for ci s
    by (rule fold_inv [where I = "\<lambda>t. ms_commits t = ms_commits s"])
       (auto simp: write_commit_info_def split: prod.splits)
  moreover have "ms_commits (fold write_finalized_commit fc s) = ms_commits s" for fc s
    by (rule fold_inv [where I = "\<lambda>t. ms_commits t = ms_commits s"])
       (auto simp: write_finalized_commit_def split: prod.splits)
  moreover have "ms_commits (fold write_commit cs s)
      = fold (\<lambda>c m. bmap_insert (c_index (tc_inner c), tc_digest c) c m) cs (ms_commits s)" for cs s
    by (induction cs arbitrary: s) (auto simp: write_commit_def)
  ultimately show ?thesis by (simp add: ms_write_def)
qed

text \<open>References determine blocks: two blocks with the same reference are the same block, which is
  what a collision-free hash of the serialized block gives.\<close>

definition refs_injective :: "verified_block set \<Rightarrow> bool" where
  "refs_injective B \<longleftrightarrow> inj_on reference B"

lemma read_block_write_kept:
  assumes "read_block s r \<noteq> None"
  shows "read_block (ms_write wb s) r \<noteq> None"
  using bmap.lookup_insert_all_kept [where key = "\<lambda>b. block_key (reference b)" and val = "\<lambda>b. b"] assms
  by (simp add: read_block_def ms_blocks_write)

lemma read_block_write_other:
  assumes "r \<notin> reference ` set (wb_blocks wb)"
  shows "read_block (ms_write wb s) r = read_block s r"
  unfolding read_block_def ms_blocks_write
  by (rule bmap.lookup_insert_all_other [where key = "\<lambda>b. block_key (reference b)" and val = "\<lambda>b. b"])
     (use assms in auto)

lemma read_block_write:
  assumes "inj_on reference (set (wb_blocks wb))" and "b \<in> set (wb_blocks wb)"
  shows "read_block (ms_write wb s) (reference b) = Some b"
  unfolding read_block_def ms_blocks_write
  by (rule bmap.lookup_insert_all_consistent [where key = "\<lambda>b. block_key (reference b)" and val = "\<lambda>b. b"])
     (use assms in \<open>auto dest: inj_onD\<close>)

text \<open>
  C27. What is written is read back: after \<open>write\<close>, \<open>read_blocks\<close> returns every block of the
  batch under its reference (references being distinct for distinct blocks), what the store held
  under every other reference, and \<open>contains_blocks\<close> agrees with it. The store invariant is kept.
\<close>

theorem store_write_read_roundtrip:
  assumes "store_wf s" and "inj_on reference (set (wb_blocks wb))"
  shows "store_wf (ms_write wb s)
       \<and> read_blocks (ms_write wb s) (map reference (wb_blocks wb)) = map Some (wb_blocks wb)
       \<and> (set refs \<inter> reference ` set (wb_blocks wb) = {} \<longrightarrow>
            read_blocks (ms_write wb s) refs = read_blocks s refs)
       \<and> ms_contains_blocks (ms_write wb s) refs
           = map (\<lambda>b. b \<noteq> None) (read_blocks (ms_write wb s) refs)"
proof -
  have "read_blocks (ms_write wb s) (map reference (wb_blocks wb)) = map Some (wb_blocks wb)"
    using read_block_write [OF assms(2)] by (simp add: read_blocks_map)
  moreover have "set refs \<inter> reference ` set (wb_blocks wb) = {} \<Longrightarrow>
      read_blocks (ms_write wb s) refs = read_blocks s refs"
    using read_block_write_other [of _ wb s] by (auto simp: read_blocks_map disjoint_iff)
  moreover have "ms_contains_blocks (ms_write wb s) refs
      = map (\<lambda>b. b \<noteq> None) (read_blocks (ms_write wb s) refs)"
    by (simp add: ms_contains_blocks_def read_blocks_def)
  ultimately show ?thesis using store_wf_write [OF assms(1)] by blast
qed

definition sample_vblock :: "round \<Rightarrow> authority_index \<Rightarrow> block_ref list \<Rightarrow> verified_block" where
  "sample_vblock r a anc = \<lparr>vb_block = \<lparr>sb_inner = sample_block r a anc, sb_signature = []\<rparr>,
     vb_digest = of_nat (r * 256 + a), vb_serialized = []\<rparr>"

definition sample_ref :: "round \<Rightarrow> authority_index \<Rightarrow> block_ref" where
  "sample_ref r a = BlockRef r a (of_nat (r * 256 + a))"

lemma reference_sample_vblock [simp]: "reference (sample_vblock r a anc) = sample_ref r a"
  by (simp add: reference_def sample_vblock_def sample_ref_def vb_inner_def sample_block_def)

lemma sample_vblock_fields [simp]:
  "vb_round (sample_vblock r a anc) = r" "vb_author (sample_vblock r a anc) = a"
  "vb_ancestors (sample_vblock r a anc) = anc" "vb_timestamp_ms (sample_vblock r a anc) = 10 * r + a"
  by (simp_all add: sample_vblock_def vb_inner_def sample_block_def)

lemma sample_ref_fields [simp]:
  "br_round (sample_ref r a) = r" "br_author (sample_ref r a) = a"
  by (simp_all add: sample_ref_def)

lemma sample_ref_inject [simp]: "sample_ref r a = sample_ref r' a' \<longleftrightarrow> r = r' \<and> a = a'"
  by (auto simp: sample_ref_def)

theorem store_write_read_roundtrip_witness:
  "read_blocks (ms_write (WriteBatch_new [sample_vblock 1 0 [], sample_vblock 1 1 []] [] [] []) MemStore_new)
      [sample_ref 1 0, sample_ref 1 1] = [Some (sample_vblock 1 0 []), Some (sample_vblock 1 1 [])]"
proof -
  let ?wb = "WriteBatch_new [sample_vblock 1 0 [], sample_vblock 1 1 []] [] [] []"
  have "inj_on reference (set (wb_blocks ?wb))"
    by (auto simp: WriteBatch_new_def inj_on_def)
  from store_write_read_roundtrip [OF store_wf_new this, of "[]"]
  show ?thesis by (simp add: WriteBatch_new_def)
qed

end
