(* ===== verification/Leader_Scoring.thy ===== *)
theory Leader_Scoring
  imports Commit_Types
begin

section \<open>Scoring sub-dags\<close>

text \<open>
  Model of \<open>ScoringSubdag\<close> in \<open>consensus/src/leader_scoring.rs\<close>: the votes for committed leaders
  collected from the committed sub-dags, and the reputation scores computed from them.
\<close>

record scoring_subdag =
  ss_context :: consensus_context
  ss_commit_range :: "commit_range option"
  ss_leaders :: "block_ref set"
  ss_votes :: "(block_ref \<times> stake_aggregator) list"

definition ScoringSubdag_new :: "consensus_context \<Rightarrow> scoring_subdag" where
  "ScoringSubdag_new ctx =
     \<lparr>ss_context = ctx, ss_commit_range = None, ss_leaders = {}, ss_votes = []\<rparr>"

definition record_vote :: "verified_block \<Rightarrow> block_ref \<Rightarrow> scoring_subdag \<Rightarrow> scoring_subdag option" where
  "record_vote block ancestor st =
     (if ancestor \<in> ss_leaders st then do {
        rassert (map_of (ss_votes st) (reference block) = None);
        Some (st\<lparr>ss_votes := bmap_insert (reference block)
                 (StakeAggregator_new QuorumThreshold) (ss_votes st)\<rparr>)
      } else Some st)"

definition distribute_vote :: "verified_block \<Rightarrow> block_ref \<Rightarrow> scoring_subdag \<Rightarrow> scoring_subdag option" where
  "distribute_vote block ancestor st =
     (case map_of (ss_votes st) ancestor of
        None \<Rightarrow> Some st
      | Some agg \<Rightarrow> do {
          (agg', _) \<leftarrow> agg_add (vb_author block) (ctx_committee (ss_context st)) agg;
          Some (st\<lparr>ss_votes := bmap_insert ancestor agg' (ss_votes st)\<rparr>)
        })"

definition score_ancestor :: "verified_block \<Rightarrow> block_ref \<Rightarrow> scoring_subdag \<Rightarrow> scoring_subdag option" where
  "score_ancestor block ancestor st =
     (if br_round ancestor \<noteq> saturating_sub (vb_round block) 1 then Some st
      else do {
        st1 \<leftarrow> record_vote block ancestor st;
        distribute_vote block ancestor st1
      })"

definition score_block :: "verified_block \<Rightarrow> scoring_subdag \<Rightarrow> scoring_subdag option" where
  "score_block block st = for_each (score_ancestor block) (vb_ancestors block) st"

definition add_subdag :: "committed_sub_dag \<Rightarrow> scoring_subdag \<Rightarrow> scoring_subdag option" where
  "add_subdag subdag st = do {
     let index = cr_index (csd_commit_ref subdag);
     range \<leftarrow> (case ss_commit_range st of
                 None \<Rightarrow> Some (CommitRange_new index index)
               | Some r \<Rightarrow> extend_to index r);
     for_each score_block (csd_blocks subdag)
       (st\<lparr>ss_commit_range := Some range, ss_leaders := insert (csd_leader subdag) (ss_leaders st)\<rparr>)
   }"

definition add_subdags :: "committed_sub_dag list \<Rightarrow> scoring_subdag \<Rightarrow> scoring_subdag option" where
  "add_subdags subdags st = for_each add_subdag subdags st"

definition distributed_votes_scores :: "scoring_subdag \<Rightarrow> nat list option" where
  "distributed_votes_scores st =
     for_each (\<lambda>(v, agg) scores. do {
         s \<leftarrow> vec_get scores (br_author v);
         total \<leftarrow> u64_add s (agg_stake agg);
         vec_set scores (br_author v) total
       }) (ss_votes st) (replicate (committee_size (ctx_committee (ss_context st))) 0)"

definition calculate_distributed_vote_scores :: "scoring_subdag \<Rightarrow> reputation_scores option" where
  "calculate_distributed_vote_scores st = do {
     scores \<leftarrow> distributed_votes_scores st;
     range \<leftarrow> ss_commit_range st;
     Some (ReputationScores_new range scores)
   }"

definition scored_subdags_count :: "scoring_subdag \<Rightarrow> nat option" where
  "scored_subdags_count st = (case ss_commit_range st of
     Some r \<Rightarrow> range_size r
   | None \<Rightarrow> Some 0)"

definition ss_is_empty :: "scoring_subdag \<Rightarrow> bool" where
  "ss_is_empty st \<longleftrightarrow> ss_leaders st = {} \<and> ss_votes st = [] \<and> ss_commit_range st = None"

definition ss_clear :: "scoring_subdag \<Rightarrow> scoring_subdag" where
  "ss_clear st = st\<lparr>ss_leaders := {}, ss_votes := [], ss_commit_range := None\<rparr>"

subsection \<open>Invariant\<close>

text \<open>Every recorded vote is the reference of a scored block, and its supporters are authors of
  scored blocks of the following round.\<close>

definition scoring_wf :: "scoring_subdag \<Rightarrow> bool" where
  "scoring_wf st \<longleftrightarrow> committee_wf (ctx_committee (ss_context st)) \<and> bmap_wf (ss_votes st)
     \<and> (\<forall>(v, agg)\<in>set (ss_votes st).
          agg_wf (ctx_committee (ss_context st)) agg \<and> br_author v < committee_size (ctx_committee (ss_context st)))"

lemma scoring_wf_new: "committee_wf (ctx_committee ctx) \<Longrightarrow> scoring_wf (ScoringSubdag_new ctx)"
  by (simp add: scoring_wf_def ScoringSubdag_new_def)

lemma scoring_wf_clear: "scoring_wf st \<Longrightarrow> scoring_wf (ss_clear st)"
  by (simp add: scoring_wf_def ss_clear_def)

lemma set_bmap_insert_subset: "set (bmap_insert k v m) \<subseteq> insert (k, v) (set m)"
  by (induction m) (auto split: if_splits)

lemma scoring_wf_insert:
  assumes "scoring_wf st" and "agg_wf (ctx_committee (ss_context st)) agg"
    and "br_author v < committee_size (ctx_committee (ss_context st))"
  shows "scoring_wf (st\<lparr>ss_votes := bmap_insert v agg (ss_votes st)\<rparr>)"
  using assms set_bmap_insert_subset [of v agg "ss_votes st"]
  by (fastforce simp: scoring_wf_def)

lemma record_vote_wf:
  assumes "record_vote b a st = Some st'" and "scoring_wf st"
    and "vb_author b < committee_size (ctx_committee (ss_context st))"
  shows "scoring_wf st' \<and> ss_context st' = ss_context st"
  using assms scoring_wf_insert [OF assms(2) agg_wf_new, of "reference b" QuorumThreshold]
  by (auto simp: record_vote_def panic_simps split: if_splits)

lemma distribute_vote_wf:
  assumes "distribute_vote b a st = Some st'" and "scoring_wf st"
    and "vb_author b < committee_size (ctx_committee (ss_context st))"
  shows "scoring_wf st' \<and> ss_context st' = ss_context st"
proof (cases "map_of (ss_votes st) a")
  case None
  then show ?thesis using assms by (simp add: distribute_vote_def)
next
  case (Some agg)
  let ?c = "ctx_committee (ss_context st)"
  from Some have "(a, agg) \<in> set (ss_votes st)" by (rule map_of_SomeD)
  then have agg: "agg_wf ?c agg" "br_author a < committee_size ?c" and com: "committee_wf ?c"
    using assms(2) by (auto simp: scoring_wf_def)
  have "st' = st\<lparr>ss_votes := bmap_insert a (agg_insert ?c (vb_author b) agg) (ss_votes st)\<rparr>"
    using assms(1) Some agg_add_eq [OF com agg(1) assms(3)] by (simp add: distribute_vote_def)
  then show ?thesis
    using scoring_wf_insert [OF assms(2) agg_wf_insert [OF agg(1) assms(3)] agg(2)] by simp
qed

lemma score_ancestor_wf:
  assumes "score_ancestor b a st = Some st'" and "scoring_wf st"
    and "vb_author b < committee_size (ctx_committee (ss_context st))"
  shows "scoring_wf st' \<and> ss_context st' = ss_context st"
proof (cases "br_round a \<noteq> vb_round b - 1")
  case True
  then show ?thesis using assms by (simp add: score_ancestor_def)
next
  case False
  with assms(1) obtain st1 where "record_vote b a st = Some st1" "distribute_vote b a st1 = Some st'"
    by (auto simp: score_ancestor_def panic_simps)
  with record_vote_wf [OF _ assms(2,3)] distribute_vote_wf [of b a st1 st'] assms(3)
  show ?thesis by auto
qed

lemma score_block_wf:
  assumes "score_block b st = Some st'" and "scoring_wf st"
    and "vb_author b < committee_size (ctx_committee (ss_context st))"
  shows "scoring_wf st' \<and> ss_context st' = ss_context st"
  using for_each_inv [where I = "\<lambda>t. scoring_wf t \<and> ss_context t = ss_context st",
      OF assms(1) [unfolded score_block_def]] score_ancestor_wf assms(2,3) by metis

lemma add_subdag_wf:
  assumes "add_subdag sd st = Some st'" and "scoring_wf st"
    and "\<forall>b\<in>set (csd_blocks sd). vb_author b < committee_size (ctx_committee (ss_context st))"
  shows "scoring_wf st' \<and> ss_context st' = ss_context st"
proof -
  from assms(1) obtain r where run: "for_each score_block (csd_blocks sd)
      (st\<lparr>ss_commit_range := Some r, ss_leaders := insert (csd_leader sd) (ss_leaders st)\<rparr>) = Some st'"
    by (auto simp: add_subdag_def Let_def panic_simps)
  show ?thesis
  proof (rule for_each_inv [where I = "\<lambda>t. scoring_wf t \<and> ss_context t = ss_context st", OF run])
    fix b t t' assume "b \<in> set (csd_blocks sd)" and "scoring_wf t \<and> ss_context t = ss_context st"
      and "score_block b t = Some t'"
    with score_block_wf [of b t t'] assms(3) show "scoring_wf t' \<and> ss_context t' = ss_context st"
      by auto
  qed (use assms(2) in \<open>simp add: scoring_wf_def\<close>)
qed

lemma add_subdags_wf:
  assumes "add_subdags sds st = Some st'" and "scoring_wf st"
    and "\<forall>sd\<in>set sds. \<forall>b\<in>set (csd_blocks sd).
           vb_author b < committee_size (ctx_committee (ss_context st))"
  shows "scoring_wf st' \<and> ss_context st' = ss_context st"
proof (rule for_each_inv [where I = "\<lambda>t. scoring_wf t \<and> ss_context t = ss_context st",
      OF assms(1) [unfolded add_subdags_def]])
  fix sd t t' assume "sd \<in> set sds" and "scoring_wf t \<and> ss_context t = ss_context st"
    and "add_subdag sd t = Some t'"
  with add_subdag_wf [of sd t t'] assms(3) show "scoring_wf t' \<and> ss_context t' = ss_context st"
    by auto
qed (use assms(2) in simp)

subsection \<open>Scores\<close>

definition votes_by :: "scoring_subdag \<Rightarrow> authority_index \<Rightarrow> stake list" where
  "votes_by st a = map (\<lambda>p. agg_stake (snd p)) (filter (\<lambda>(v, _). br_author v = a) (ss_votes st))"

lemma scores_loop:
  assumes "\<forall>(v, agg)\<in>set vs. br_author v < n \<and> agg_stake agg \<le> t"
    and "length scores = n" and "\<forall>s\<in>set scores. s \<le> k" and "k + t * length vs \<le> u64_max"
  shows "\<exists>scores'. for_each (\<lambda>(v, agg) scores. do {
         s \<leftarrow> vec_get scores (br_author v);
         total \<leftarrow> u64_add s (agg_stake agg);
         vec_set scores (br_author v) total
       }) vs scores = Some scores' \<and> length scores' = n
     \<and> (\<forall>a<n. scores' ! a = scores ! a
           + sum_list (map (\<lambda>p. agg_stake (snd p)) (filter (\<lambda>(v, _). br_author v = a) vs)))"
  using assms
proof (induction vs arbitrary: scores k)
  case Nil
  then show ?case by simp
next
  case (Cons x vs)
  obtain v agg where x: "x = (v, agg)" by force
  have v: "br_author v < n" "agg_stake agg \<le> t" using Cons.prems(1) by (auto simp: x)
  let ?total = "scores ! br_author v + agg_stake agg"
  have "scores ! br_author v \<le> k" using Cons.prems(2,3) v(1) by simp
  then have le: "?total \<le> k + t" "k + t \<le> u64_max" using v(2) Cons.prems(4) by auto
  have bound: "\<forall>s\<in>set (scores[br_author v := ?total]). s \<le> k + t"
    using Cons.prems(3) le(1) by (auto dest!: set_update_subset_insert [THEN subsetD])
  have rest: "\<forall>(v, agg)\<in>set vs. br_author v < n \<and> agg_stake agg \<le> t"
    "length (scores[br_author v := ?total]) = n" "k + t + t * length vs \<le> u64_max"
    using Cons.prems(1,2,4) by simp_all
  from Cons.IH [OF rest(1,2) bound rest(3)] obtain scores' where IH: "for_each (\<lambda>(v, agg) scores. do {
         s \<leftarrow> vec_get scores (br_author v);
         total \<leftarrow> u64_add s (agg_stake agg);
         vec_set scores (br_author v) total
       }) vs (scores[br_author v := ?total]) = Some scores'" "length scores' = n"
    "\<forall>a<n. scores' ! a = scores[br_author v := ?total] ! a
           + sum_list (map (\<lambda>p. agg_stake (snd p)) (filter (\<lambda>(v, _). br_author v = a) vs))"
    by blast
  have "vec_get scores (br_author v) = Some (scores ! br_author v)"
    "u64_add (scores ! br_author v) (agg_stake agg) = Some ?total"
    "vec_set scores (br_author v) ?total = Some (scores[br_author v := ?total])"
    using v(1) Cons.prems(2) le by (auto simp: vec_get_def vec_set_def u64_add_def)
  with IH v(1) Cons.prems(2) show ?case by (auto simp: x nth_list_update)
qed

text \<open>
  C28. Scoring by distributed votes: from a well-formed scoring state whose votes cannot
  overflow, the score vector has one entry per authority, and the score of an authority is the
  sum, over its recorded votes, of the stake that supports the vote.
\<close>

theorem distributed_scores_sum_votes:
  assumes "scoring_wf st" and "ss_commit_range st = Some r"
    and "total_stake (ctx_committee (ss_context st)) * length (ss_votes st) \<le> u64_max"
  shows "\<exists>scores. calculate_distributed_vote_scores st = Some (ReputationScores_new r scores)
     \<and> length scores = committee_size (ctx_committee (ss_context st))
     \<and> (\<forall>a<committee_size (ctx_committee (ss_context st)). scores ! a = sum_list (votes_by st a))"
proof -
  let ?c = "ctx_committee (ss_context st)"
  have "agg_stake agg \<le> total_stake ?c" if "agg_wf ?c agg" for agg
    using that committee_wf_stake_le_total [of ?c "set (agg_votes agg)"] assms(1)
    by (simp add: agg_wf_def scoring_wf_def)
  then have "\<forall>(v, agg)\<in>set (ss_votes st). br_author v < committee_size ?c \<and> agg_stake agg \<le> total_stake ?c"
    using assms(1) by (fastforce simp: scoring_wf_def)
  from scores_loop [OF this, of "replicate (committee_size ?c) 0" 0] assms(2,3)
  show ?thesis
    by (auto simp: calculate_distributed_vote_scores_def distributed_votes_scores_def votes_by_def
        case_prod_unfold)
qed

definition sample_scoring :: scoring_subdag where
  "sample_scoring = (ScoringSubdag_new sample_context)\<lparr>ss_commit_range := Some (CommitRange_new 1 1),
     ss_votes := [(BlockRef 2 1 0, \<lparr>agg_kind = QuorumThreshold, agg_votes = [0, 2], agg_stake = 2\<rparr>),
                  (BlockRef 3 1 0, \<lparr>agg_kind = QuorumThreshold, agg_votes = [1], agg_stake = 1\<rparr>)]\<rparr>"

theorem distributed_scores_sum_votes_witness:
  "\<exists>scores. calculate_distributed_vote_scores sample_scoring
       = Some (ReputationScores_new (CommitRange_new 1 1) scores) \<and> scores ! 1 = 3"
proof -
  have com: "ctx_committee (ss_context sample_scoring) = sample_committee"
    "ss_commit_range sample_scoring = Some (CommitRange_new 1 1)"
    by (simp_all add: sample_scoring_def ScoringSubdag_new_def)
  have "scoring_wf sample_scoring"
    using sample_committee_wf
    by (simp add: scoring_wf_def com)
       (simp add: sample_scoring_def agg_wf_def bmap_wf_def block_ref_less_iff stake_of_def sample_stake_at)
  from distributed_scores_sum_votes [OF this com(2)]
  show ?thesis by (auto simp: com) (auto simp: sample_scoring_def votes_by_def u64_max_def)
qed

end
