(* ===== verification/Dag_State.thy ===== *)
theory Dag_State
  imports Threshold_Clock Mem_Store Leader_Scoring
begin

section \<open>The state of the DAG\<close>

text \<open>
  Model of \<open>consensus/src/dag_state.rs\<close>: the cache of recent blocks over the store, the commit
  bookkeeping, garbage collection and eviction, and recovery from storage. Every method of
  \<open>DagState\<close> is one definition; metrics and logging are left out, except where evaluating their
  arguments can panic. The wall clock and \<open>Instant::now()\<close> are the argument \<open>now\<close>.
\<close>

subsection \<open>State\<close>

record block_info =
  bi_block :: verified_block
  bi_children :: "block_ref list"
  bi_children_stake :: stake_aggregator
  bi_committed :: bool
  bi_included :: bool

record round_info =
  ri_round :: round
  ri_blocks :: "block_ref list"
  ri_total_stake :: stake_aggregator

definition BlockInfo_new :: "verified_block \<Rightarrow> block_info" where
  "BlockInfo_new b = \<lparr>bi_block = b, bi_children = [],
     bi_children_stake = StakeAggregator_new QuorumThreshold, bi_committed = False,
     bi_included = False\<rparr>"

definition RoundInfo_new :: "round \<Rightarrow> round_info" where
  "RoundInfo_new r = \<lparr>ri_round = r, ri_blocks = [],
     ri_total_stake = StakeAggregator_new QuorumThreshold\<rparr>"

type_synonym recent_blocks = "(block_ref \<times> block_info) list"

record dag_state =
  ds_context :: consensus_context
  ds_genesis :: "(block_ref \<times> verified_block) list"
  ds_recent_blocks :: recent_blocks
  ds_recent_refs_by_authority :: "block_ref list list"
  ds_round_info :: "round_info list"
  ds_threshold_clock :: threshold_clock
  ds_evicted_rounds :: "round list"
  ds_highest_accepted_round :: round
  ds_last_commit :: "trusted_commit option"
  ds_last_commit_round_advancement_time :: "nat option"
  ds_last_committed_rounds :: "round list"
  ds_scoring_subdag :: scoring_subdag
  ds_pending_commit_votes :: "commit_vote list"
  ds_blocks_to_write :: "verified_block list"
  ds_commits_to_write :: "trusted_commit list"
  ds_commit_info_to_write :: "(commit_ref \<times> commit_info) list"
  ds_finalized_commits_to_write :: "(commit_ref \<times> rejected_transactions) list"
  ds_store :: mem_store
  ds_cached_rounds :: round

abbreviation ds_committee :: "dag_state \<Rightarrow> committee" where
  "ds_committee d \<equiv> ctx_committee (ds_context d)"

subsection \<open>Commits and garbage collection\<close>

definition last_commit_index :: "dag_state \<Rightarrow> commit_index" where
  "last_commit_index d = (case ds_last_commit d of Some c \<Rightarrow> c_index (tc_inner c) | None \<Rightarrow> 0)"

definition last_commit_digest :: "dag_state \<Rightarrow> digest" where
  "last_commit_digest d = (case ds_last_commit d of Some c \<Rightarrow> tc_digest c | None \<Rightarrow> Digest_MIN)"

definition last_commit_timestamp_ms :: "dag_state \<Rightarrow> timestamp_ms" where
  "last_commit_timestamp_ms d =
     (case ds_last_commit d of Some c \<Rightarrow> c_timestamp_ms (tc_inner c) | None \<Rightarrow> 0)"

definition last_commit_leader :: "dag_state \<Rightarrow> slot option" where
  "last_commit_leader d = (case ds_last_commit d of
     Some c \<Rightarrow> Some (slot_of_ref (c_leader (tc_inner c)))
   | None \<Rightarrow> map_option (\<lambda>(r, _). slot_of_ref r) (bset_first (ds_genesis d)))"

definition last_commit_round :: "dag_state \<Rightarrow> round" where
  "last_commit_round d =
     (case ds_last_commit d of Some c \<Rightarrow> br_round (c_leader (tc_inner c)) | None \<Rightarrow> 0)"

definition calculate_gc_round :: "dag_state \<Rightarrow> round \<Rightarrow> round" where
  "calculate_gc_round d commit_round =
     saturating_sub commit_round (gc_depth (protocol_config (ds_context d)))"

definition gc_round :: "dag_state \<Rightarrow> round" where
  "gc_round d = calculate_gc_round d (last_commit_round d)"

definition eviction_round :: "round \<Rightarrow> round \<Rightarrow> nat \<Rightarrow> round" where
  "eviction_round last_round gc cached_rounds = min gc (saturating_sub last_round cached_rounds)"

definition calculate_authority_eviction_round :: "dag_state \<Rightarrow> authority_index \<Rightarrow> round option" where
  "calculate_authority_eviction_round d a = do {
     refs \<leftarrow> vec_get (ds_recent_refs_by_authority d) a;
     let last_round = (case bset_last refs of Some r \<Rightarrow> br_round r | None \<Rightarrow> GENESIS_ROUND);
     Some (eviction_round last_round (gc_round d) (ds_cached_rounds d))
   }"

subsection \<open>Reading blocks\<close>

text \<open>First pass of \<open>get_blocks\<close>: genesis and cache; \<^term>\<open>None\<close> is a reference left for the store.\<close>

definition get_cached :: "dag_state \<Rightarrow> block_ref \<Rightarrow> verified_block option option" where
  "get_cached d r =
     (if br_round r = GENESIS_ROUND then Some (map_of (ds_genesis d) r)
      else case map_of (ds_recent_blocks d) r of
        Some info \<Rightarrow> Some (Some (bi_block info))
      | None \<Rightarrow> None)"

text \<open>Second pass: the results of the store fill the open positions in order.\<close>

fun fill_missing :: "'a option list \<Rightarrow> 'a list \<Rightarrow> 'a list" where
  "fill_missing [] results = []"
| "fill_missing (Some x # xs) results = x # fill_missing xs results"
| "fill_missing (None # xs) (r # results) = r # fill_missing xs results"
| "fill_missing (None # xs) [] = []"

definition get_blocks :: "dag_state \<Rightarrow> block_ref list \<Rightarrow> verified_block option list" where
  "get_blocks d refs = (
     let cached = map (get_cached d) refs;
         missing = filter (\<lambda>r. get_cached d r = None) refs
     in fill_missing cached (if missing = [] then [] else read_blocks (ds_store d) missing))"

definition get_block :: "dag_state \<Rightarrow> block_ref \<Rightarrow> verified_block option option" where
  "get_block d r = bset_last (get_blocks d [r])"

definition contains_cached :: "dag_state \<Rightarrow> block_ref \<Rightarrow> bool option option" where
  "contains_cached d r = do {
     recent_refs \<leftarrow> vec_get (ds_recent_refs_by_authority d) (br_author r);
     Some (if r \<in> set recent_refs \<or> map_of (ds_genesis d) r \<noteq> None then Some True
           else case bset_last recent_refs of
             None \<Rightarrow> Some False
           | Some l \<Rightarrow> if br_round l < br_round r then Some False else None)
   }"

definition contains_blocks :: "dag_state \<Rightarrow> block_ref list \<Rightarrow> bool list option" where
  "contains_blocks d refs = do {
     exist \<leftarrow> map_opt (contains_cached d) refs;
     let missing = filter (\<lambda>r. contains_cached d r = Some None) refs;
     Some (fill_missing exist (if missing = [] then [] else ms_contains_blocks (ds_store d) missing))
   }"

definition contains_block :: "dag_state \<Rightarrow> block_ref \<Rightarrow> bool option" where
  "contains_block d r = do { bs \<leftarrow> contains_blocks d [r]; bset_first bs }"

definition infos_between :: "dag_state \<Rightarrow> block_ref \<Rightarrow> block_ref \<Rightarrow> block_info list" where
  "infos_between d lo hi = map snd (filter (\<lambda>(r, _). lo \<le> r \<and> r \<le> hi) (ds_recent_blocks d))"

definition get_block_info_at_slot :: "dag_state \<Rightarrow> slot \<Rightarrow> block_info list option" where
  "get_block_info_at_slot d s = do {
     rassert (slot_round s > gc_round d);
     Some (infos_between d (BlockRef (slot_round s) (slot_authority s) Digest_MIN)
             (BlockRef (slot_round s) (slot_authority s) Digest_MAX))
   }"

definition get_uncommitted_blocks_at_slot :: "dag_state \<Rightarrow> slot \<Rightarrow> verified_block list" where
  "get_uncommitted_blocks_at_slot d s =
     map bi_block (infos_between d (BlockRef (slot_round s) (slot_authority s) Digest_MIN)
       (BlockRef (slot_round s) (slot_authority s) Digest_MAX))"

definition get_uncommitted_blocks_at_round :: "dag_state \<Rightarrow> round \<Rightarrow> verified_block list option" where
  "get_uncommitted_blocks_at_round d r = do {
     rassert (r > last_commit_round d);
     next_round \<leftarrow> u32_add r 1;
     Some (map (bi_block \<circ> snd) (filter (\<lambda>(k, _). BlockRef r 0 Digest_MIN \<le> k
             \<and> k < BlockRef next_round 0 Digest_MIN) (ds_recent_blocks d)))
   }"

text \<open>The \<open>while\<close> loop of \<open>ancestors_at_round\<close>, over the ordered set of linked references. It is a
  partial function: whether it ends depends on the ancestors of the blocks.\<close>

partial_function (option) link_down :: "dag_state \<Rightarrow> round \<Rightarrow> block_ref list \<Rightarrow> block_ref list option" where
  "link_down d earlier_round linked =
     (if linked = [] then Some linked
      else if br_round (last linked) \<le> earlier_round then Some linked
      else Option.bind (get_block d (last linked)) (\<lambda>b.
           Option.bind b (\<lambda>block.
             link_down d earlier_round (bset_extend (butlast linked) (vb_ancestors block)))))"

definition ancestors_at_round :: "dag_state \<Rightarrow> verified_block \<Rightarrow> round \<Rightarrow> verified_block list option" where
  "ancestors_at_round d later_block earlier_round = do {
     linked \<leftarrow> link_down d earlier_round (bset_extend [] (vb_ancestors later_block));
     map_opt (\<lambda>r. do { b \<leftarrow> get_block d r; b })
       (filter (\<lambda>r. BlockRef earlier_round 0 Digest_MIN \<le> r) linked)
   }"

definition get_last_block_for_authority :: "dag_state \<Rightarrow> authority_index \<Rightarrow> verified_block option" where
  "get_last_block_for_authority d a = do {
     refs \<leftarrow> vec_get (ds_recent_refs_by_authority d) a;
     (case bset_last refs of
        Some l \<Rightarrow> map_option bi_block (map_of (ds_recent_blocks d) l)
      | None \<Rightarrow> map_option snd (find (\<lambda>(r, _). br_author r = a) (ds_genesis d)))
   }"

definition get_last_proposed_block :: "dag_state \<Rightarrow> verified_block option option" where
  "get_last_proposed_block d =
     (if is_validator (ds_context d)
      then map_option Some (get_last_block_for_authority d (own_index (ds_context d)))
      else Some None)"

definition get_cached_blocks_in_range ::
    "dag_state \<Rightarrow> authority_index \<Rightarrow> round \<Rightarrow> round \<Rightarrow> nat \<Rightarrow> verified_block list option" where
  "get_cached_blocks_in_range d a start_round end_round limit =
     (if start_round \<ge> end_round \<or> limit = 0 then Some []
      else do {
        refs \<leftarrow> vec_get (ds_recent_refs_by_authority d) a;
        map_opt (\<lambda>r. map_option bi_block (map_of (ds_recent_blocks d) r))
          (take limit (filter (\<lambda>r. BlockRef start_round a Digest_MIN \<le> r
             \<and> r < BlockRef end_round 0 Digest_MIN) refs))
      })"

definition get_cached_blocks :: "dag_state \<Rightarrow> authority_index \<Rightarrow> round \<Rightarrow> verified_block list option" where
  "get_cached_blocks d a start = get_cached_blocks_in_range d a start u32_max u64_max"

definition get_last_cached_block_in_range ::
    "dag_state \<Rightarrow> authority_index \<Rightarrow> round \<Rightarrow> round \<Rightarrow> verified_block option option" where
  "get_last_cached_block_in_range d a start_round end_round =
     (if start_round \<ge> end_round then Some None
      else do {
        refs \<leftarrow> vec_get (ds_recent_refs_by_authority d) a;
        Some (do {
          r \<leftarrow> bset_last (filter (\<lambda>r. BlockRef start_round a Digest_MIN \<le> r
                 \<and> r < BlockRef end_round 0 Digest_MIN) refs);
          map_option bi_block (map_of (ds_recent_blocks d) r)
        })
      })"

text \<open>One authority of \<open>get_last_cached_block_per_authority\<close>: its last cached block before
  \<open>end_round\<close>, if any, and the other blocks of the same slot, in descending order.\<close>

definition last_cached_block_of ::
    "dag_state \<Rightarrow> round \<Rightarrow> nat \<Rightarrow> block_ref list \<Rightarrow> (verified_block option \<times> block_ref list) option" where
  "last_cached_block_of d end_round index block_refs = do {
     a \<leftarrow> to_authority_index (ds_committee d) index;
     last_evicted_round \<leftarrow> vec_get (ds_evicted_rounds d) a;
     rassert (\<not> saturating_sub end_round 1 \<le> last_evicted_round);
     first_round \<leftarrow> u32_add last_evicted_round 1;
     (case rev (filter (\<lambda>r. BlockRef first_round a Digest_MIN \<le> r
              \<and> r < BlockRef end_round a Digest_MIN) block_refs) of
        [] \<Rightarrow> Some (None, [])
      | r # rest \<Rightarrow> do {
          info \<leftarrow> map_of (ds_recent_blocks d) r;
          Some (Some (bi_block info), takeWhile (\<lambda>r'. \<not> br_round r' < br_round r) rest)
        })
   }"

definition get_last_cached_block_per_authority ::
    "dag_state \<Rightarrow> round \<Rightarrow> (verified_block \<times> block_ref list) list option" where
  "get_last_cached_block_per_authority d end_round = (
     let blocks = map snd (ds_genesis d) in do {
       rassert (end_round \<noteq> GENESIS_ROUND);
       if end_round = GENESIS_ROUND + 1 then Some (map (\<lambda>b. (b, [])) blocks)
       else do {
         found \<leftarrow> map_opt (\<lambda>(i, refs). last_cached_block_of d end_round i refs)
                    (enumerate 0 (ds_recent_refs_by_authority d));
         blocks' \<leftarrow> for_each (\<lambda>(i, (b, _)) bs. case b of None \<Rightarrow> Some bs | Some x \<Rightarrow> vec_set bs i x)
                      (enumerate 0 found) blocks;
         Some (zip blocks' (map snd found))
       }
     })"

definition contains_cached_block_at_slot :: "dag_state \<Rightarrow> slot \<Rightarrow> bool option" where
  "contains_cached_block_at_slot d s =
     (if slot_round s = GENESIS_ROUND then Some True
      else do {
        evicted \<leftarrow> vec_get (ds_evicted_rounds d) (slot_authority s);
        rassert (\<not> slot_round s \<le> evicted);
        refs \<leftarrow> vec_get (ds_recent_refs_by_authority d) (slot_authority s);
        Some (filter (\<lambda>r. BlockRef (slot_round s) (slot_authority s) Digest_MIN \<le> r
                \<and> r \<le> BlockRef (slot_round s) (slot_authority s) Digest_MAX) refs \<noteq> [])
      })"

subsection \<open>Commit and inclusion marks\<close>

definition set_committed :: "block_ref \<Rightarrow> dag_state \<Rightarrow> (dag_state \<times> bool) option" where
  "set_committed r d = do {
     info \<leftarrow> map_of (ds_recent_blocks d) r;
     Some (if bi_committed info then (d, False)
           else (d\<lparr>ds_recent_blocks :=
                     bmap_insert r (info\<lparr>bi_committed := True\<rparr>) (ds_recent_blocks d)\<rparr>, True))
   }"

definition is_committed :: "dag_state \<Rightarrow> block_ref \<Rightarrow> bool option" where
  "is_committed d r = map_option bi_committed (map_of (ds_recent_blocks d) r)"

definition has_been_included :: "dag_state \<Rightarrow> block_ref \<Rightarrow> bool option" where
  "has_been_included d r = map_option bi_included (map_of (ds_recent_blocks d) r)"

definition not_included :: "recent_blocks \<Rightarrow> block_ref set" where
  "not_included m = {r. \<exists>info. map_of m r = Some info \<and> \<not> bi_included info}"

lemma finite_not_included [simp]: "finite (not_included m)"
proof (rule finite_subset)
  show "not_included m \<subseteq> dom (map_of m)" by (auto simp: not_included_def)
qed (rule finite_dom_map_of)

lemma not_included_insert:
  "not_included (bmap_insert r (info\<lparr>bi_included := True\<rparr>) m) = not_included m - {r}"
  by (auto simp: not_included_def split: if_splits)

text \<open>The loop of \<open>link_causal_history\<close>: a work list of references, newly linked blocks first in
  first out. Every pass either shortens the list or marks one more block as included.\<close>

function link_targets ::
    "round \<Rightarrow> recent_blocks \<Rightarrow> block_ref list \<Rightarrow> block_ref list \<Rightarrow> (recent_blocks \<times> block_ref list) option" where
  "link_targets gc m [] linked = Some (m, linked)"
| "link_targets gc m (r # targets) linked =
     (if br_round r \<le> gc then link_targets gc m targets linked
      else case map_of m r of
        None \<Rightarrow> None
      | Some info \<Rightarrow>
          if bi_included info then link_targets gc m targets linked
          else link_targets gc (bmap_insert r (info\<lparr>bi_included := True\<rparr>) m)
                 (targets @ vb_ancestors (bi_block info)) (linked @ [r]))"
  by pat_completeness auto

lemma not_included_insert_less:
  assumes "map_of m r = Some info" and "\<not> bi_included info"
  shows "card (not_included (bmap_insert r (info\<lparr>bi_included := True\<rparr>) m)) < card (not_included m)"
proof -
  have "r \<in> not_included m" using assms by (simp add: not_included_def)
  then show ?thesis unfolding not_included_insert by (intro card_Diff1_less) simp_all
qed

termination link_targets
  by (relation "measures [\<lambda>(gc, m, ts, l). card (not_included m), \<lambda>(gc, m, ts, l). length ts]")
     (auto simp: not_included_insert_less)

definition link_causal_history :: "block_ref \<Rightarrow> dag_state \<Rightarrow> (dag_state \<times> block_ref list) option" where
  "link_causal_history root_block d = do {
     (m, linked) \<leftarrow> link_targets (gc_round d) (ds_recent_blocks d) [root_block] [];
     Some (d\<lparr>ds_recent_blocks := m\<rparr>, linked)
   }"

subsection \<open>Round info\<close>

definition get_round_info :: "dag_state \<Rightarrow> round \<Rightarrow> round_info option option" where
  "get_round_info d r = (case bset_first (ds_round_info d) of
     None \<Rightarrow> Some None
   | Some front \<Rightarrow>
       if r < ri_round front \<or> r \<le> gc_round d then Some None
       else case vec_get (ds_round_info d) (r - ri_round front) of
         None \<Rightarrow> Some None
       | Some info \<Rightarrow> do { rassert (ri_round info = r); Some (Some info) })"

definition update_round_info :: "verified_block \<Rightarrow> dag_state \<Rightarrow> dag_state option" where
  "update_round_info block d = (
     let block_ref = reference block in
     if vb_round block \<le> gc_round d then Some d
     else do {
       next_round \<leftarrow> (case bset_last (ds_round_info d) of
                        Some info \<Rightarrow> u32_add (ri_round info) 1
                      | None \<Rightarrow> u32_add (gc_round d) 1);
       rassert (vb_round block \<le> next_round);
       let infos = (if vb_round block = next_round
                    then ds_round_info d @ [RoundInfo_new (vb_round block)] else ds_round_info d);
       front \<leftarrow> bset_first infos;
       index \<leftarrow> checked_sub (vb_round block) (ri_round front);
       info \<leftarrow> vec_get infos index;
       (agg, _) \<leftarrow> agg_add_unique (br_author block_ref) (ds_committee d) (ri_total_stake info);
       infos' \<leftarrow> vec_set infos index
         (info\<lparr>ri_blocks := bset_insert block_ref (ri_blocks info), ri_total_stake := agg\<rparr>);
       Some (d\<lparr>ds_round_info := infos'\<rparr>)
     })"

subsection \<open>Accepting blocks\<close>

definition update_parent :: "block_ref \<Rightarrow> block_ref \<Rightarrow> dag_state \<Rightarrow> dag_state option" where
  "update_parent block_ref ancestor d = do {
     next_round \<leftarrow> u32_add (br_round ancestor) 1;
     if next_round \<noteq> br_round block_ref \<or> br_round ancestor \<le> gc_round d then Some d
     else do {
       info \<leftarrow> map_of (ds_recent_blocks d) ancestor;
       (agg, _) \<leftarrow> agg_add_unique (br_author block_ref) (ds_committee d) (bi_children_stake info);
       Some (d\<lparr>ds_recent_blocks := bmap_insert ancestor
                 (info\<lparr>bi_children := bset_insert block_ref (bi_children info),
                       bi_children_stake := agg\<rparr>) (ds_recent_blocks d)\<rparr>)
     }
   }"

definition insert_recent :: "verified_block \<Rightarrow> dag_state \<Rightarrow> dag_state option" where
  "insert_recent block d = (
     let block_ref = reference block in do {
       refs \<leftarrow> vec_get (ds_recent_refs_by_authority d) (br_author block_ref);
       Some (d\<lparr>ds_recent_blocks := bmap_insert block_ref (BlockInfo_new block) (ds_recent_blocks d),
               ds_recent_refs_by_authority :=
                 (ds_recent_refs_by_authority d)[br_author block_ref := bset_insert block_ref refs]\<rparr>)
     })"

definition update_v3_info :: "verified_block \<Rightarrow> dag_state \<Rightarrow> dag_state option" where
  "update_v3_info block d =
     (if enable_v3 (protocol_config (ds_context d)) then do {
        d' \<leftarrow> for_each (update_parent (reference block)) (vb_ancestors block) d;
        update_round_info block d'
      } else Some d)"

definition update_block_metadata :: "nat \<Rightarrow> verified_block \<Rightarrow> dag_state \<Rightarrow> dag_state option" where
  "update_block_metadata now block d = do {
     d1 \<leftarrow> insert_recent block d;
     d2 \<leftarrow> update_v3_info block d1;
     (clock, advanced) \<leftarrow> tc_add_block now (reference block) (ds_threshold_clock d2);
     let d3 = d2\<lparr>ds_threshold_clock := clock\<rparr>;
     _ \<leftarrow> (if advanced then get_last_proposed_block d3 else Some None);
     let d4 = d3\<lparr>ds_highest_accepted_round := max (ds_highest_accepted_round d3) (vb_round block)\<rparr>;
     refs \<leftarrow> vec_get (ds_recent_refs_by_authority d4) (vb_author block);
     _ \<leftarrow> bset_last refs;
     _ \<leftarrow> committee_authority (ds_committee d4) (vb_author block);
     Some d4
   }"

definition accept_block :: "nat \<Rightarrow> verified_block \<Rightarrow> dag_state \<Rightarrow> dag_state option" where
  "accept_block now block d = do {
     rassert (vb_round block \<noteq> 0);
     let block_ref = reference block;
     known \<leftarrow> contains_block d block_ref;
     if known then Some d
     else do {
       _ \<leftarrow> committee_authority (ds_committee d) (br_author block_ref);
       rassert (\<not> (br_author block_ref = own_index (ds_context d)
                  \<and> \<not> skip_equivocation_validation (ctx_parameters (ds_context d))
                  \<and> get_uncommitted_blocks_at_slot d (slot_of_ref block_ref) \<noteq> []));
       d' \<leftarrow> update_block_metadata now block d;
       Some (d'\<lparr>ds_blocks_to_write := ds_blocks_to_write d' @ [block]\<rparr>)
     }
   }"

definition accept_blocks :: "nat \<Rightarrow> verified_block list \<Rightarrow> dag_state \<Rightarrow> dag_state option" where
  "accept_blocks now blocks d = for_each (accept_block now) blocks d"

definition threshold_clock_round :: "dag_state \<Rightarrow> round" where
  "threshold_clock_round d = get_round (ds_threshold_clock d)"

definition threshold_clock_quorum_ts :: "dag_state \<Rightarrow> nat" where
  "threshold_clock_quorum_ts d = get_quorum_ts (ds_threshold_clock d)"

definition highest_accepted_round :: "dag_state \<Rightarrow> round" where
  "highest_accepted_round d = ds_highest_accepted_round d"

subsection \<open>Buffering commits\<close>

definition bump_committed_round :: "block_ref \<Rightarrow> round list \<Rightarrow> round list option" where
  "bump_committed_round r rounds = do {
     old \<leftarrow> vec_get rounds (br_author r);
     vec_set rounds (br_author r) (max old (br_round r))
   }"

text \<open>The part of \<open>add_commit\<close> after its checks on the index and the timestamp.\<close>

definition record_commit :: "nat \<Rightarrow> trusted_commit \<Rightarrow> bool \<Rightarrow> dag_state \<Rightarrow> dag_state option" where
  "record_commit now commit commit_round_advanced d = do {
     rounds \<leftarrow> for_each bump_committed_round (c_blocks (tc_inner commit)) (ds_last_committed_rounds d);
     _ \<leftarrow> map_opt (\<lambda>(i, _). do {
            index \<leftarrow> to_authority_index (ds_committee d) i;
            committee_authority (ds_committee d) index }) (enumerate 0 rounds);
     Some (d\<lparr>ds_last_commit := Some commit,
             ds_last_commit_round_advancement_time :=
               (if commit_round_advanced then Some now else ds_last_commit_round_advancement_time d),
             ds_last_committed_rounds := rounds,
             ds_pending_commit_votes := ds_pending_commit_votes d @ [tc_reference commit],
             ds_commits_to_write := ds_commits_to_write d @ [commit]\<rparr>)
   }"

definition add_commit :: "nat \<Rightarrow> trusted_commit \<Rightarrow> dag_state \<Rightarrow> dag_state option" where
  "add_commit now commit d = (case ds_last_commit d of
     Some last_commit \<Rightarrow>
       if c_index (tc_inner commit) \<le> c_index (tc_inner last_commit) then Some d
       else do {
         expected \<leftarrow> u32_add (c_index (tc_inner last_commit)) 1;
         rassert (c_index (tc_inner commit) = expected);
         rassert (\<not> c_timestamp_ms (tc_inner commit) < c_timestamp_ms (tc_inner last_commit));
         record_commit now commit (c_round (tc_inner last_commit) < c_round (tc_inner commit)) d
       }
   | None \<Rightarrow> do {
       rassert (c_index (tc_inner commit) = 1);
       record_commit now commit True d
     })"

definition recover_commits_to_write :: "trusted_commit list \<Rightarrow> dag_state \<Rightarrow> dag_state" where
  "recover_commits_to_write commits d = d\<lparr>ds_commits_to_write := ds_commits_to_write d @ commits\<rparr>"

definition ensure_commits_to_write_is_empty :: "dag_state \<Rightarrow> unit option" where
  "ensure_commits_to_write_is_empty d = rassert (ds_commits_to_write d = [])"

definition add_commit_info :: "reputation_scores \<Rightarrow> dag_state \<Rightarrow> dag_state option" where
  "add_commit_info scores d = do {
     rassert (ss_is_empty (ds_scoring_subdag d));
     last_commit \<leftarrow> ds_last_commit d;
     Some (d\<lparr>ds_commit_info_to_write := ds_commit_info_to_write d @
       [(tc_reference last_commit,
         \<lparr>ci_committed_rounds = ds_last_committed_rounds d, ci_reputation_scores = scores\<rparr>)]\<rparr>)
   }"

definition add_finalized_commit :: "commit_ref \<Rightarrow> rejected_transactions \<Rightarrow> dag_state \<Rightarrow> dag_state" where
  "add_finalized_commit r rejected d =
     d\<lparr>ds_finalized_commits_to_write := ds_finalized_commits_to_write d @ [(r, rejected)]\<rparr>"

definition take_commit_votes :: "nat \<Rightarrow> dag_state \<Rightarrow> dag_state \<times> commit_vote list" where
  "take_commit_votes limit d =
     (d\<lparr>ds_pending_commit_votes := drop limit (ds_pending_commit_votes d)\<rparr>,
      take limit (ds_pending_commit_votes d))"

subsection \<open>Flushing and eviction\<close>

fun evict_refs :: "round \<Rightarrow> block_ref list \<Rightarrow> recent_blocks \<Rightarrow> block_ref list \<times> recent_blocks" where
  "evict_refs e [] m = ([], m)"
| "evict_refs e (r # refs) m =
     (if br_round r \<le> e then evict_refs e refs (bmap_remove r m) else (r # refs, m))"

definition evict_authority :: "authority_index \<Rightarrow> dag_state \<Rightarrow> dag_state option" where
  "evict_authority a d = do {
     e \<leftarrow> calculate_authority_eviction_round d a;
     refs \<leftarrow> vec_get (ds_recent_refs_by_authority d) a;
     let (refs', m') = evict_refs e refs (ds_recent_blocks d);
     evicted \<leftarrow> vec_set (ds_evicted_rounds d) a e;
     Some (d\<lparr>ds_recent_blocks := m',
             ds_recent_refs_by_authority := (ds_recent_refs_by_authority d)[a := refs'],
             ds_evicted_rounds := evicted\<rparr>)
   }"

definition evict_round_info :: "dag_state \<Rightarrow> dag_state" where
  "evict_round_info d = d\<lparr>ds_round_info := dropWhile (\<lambda>i. ri_round i \<le> gc_round d) (ds_round_info d)\<rparr>"

definition flush :: "dag_state \<Rightarrow> dag_state option" where
  "flush d = (
     if ds_blocks_to_write d = [] \<and> ds_commits_to_write d = [] \<and> ds_commit_info_to_write d = []
        \<and> ds_finalized_commits_to_write d = []
     then Some d
     else do {
       let batch = WriteBatch_new (ds_blocks_to_write d) (ds_commits_to_write d)
                     (ds_commit_info_to_write d) (ds_finalized_commits_to_write d);
       let d1 = d\<lparr>ds_blocks_to_write := [], ds_commits_to_write := [], ds_commit_info_to_write := [],
                  ds_finalized_commits_to_write := [], ds_store := ms_write batch (ds_store d)\<rparr>;
       d2 \<leftarrow> for_each evict_authority (map fst (authorities (ds_committee d))) d1;
       Some (evict_round_info d2)
     })"

subsection \<open>Scoring\<close>

definition recover_last_commit_info :: "dag_state \<Rightarrow> (commit_ref \<times> commit_info) option" where
  "recover_last_commit_info d = read_last_commit_info (ds_store d)"

definition add_scoring_subdags :: "committed_sub_dag list \<Rightarrow> dag_state \<Rightarrow> dag_state option" where
  "add_scoring_subdags subdags d = do {
     ss \<leftarrow> add_subdags subdags (ds_scoring_subdag d);
     Some (d\<lparr>ds_scoring_subdag := ss\<rparr>)
   }"

definition clear_scoring_subdag :: "dag_state \<Rightarrow> dag_state" where
  "clear_scoring_subdag d = d\<lparr>ds_scoring_subdag := ss_clear (ds_scoring_subdag d)\<rparr>"

definition scoring_subdags_count :: "dag_state \<Rightarrow> nat option" where
  "scoring_subdags_count d = scored_subdags_count (ds_scoring_subdag d)"

definition calculate_scoring_subdag_scores :: "dag_state \<Rightarrow> reputation_scores option" where
  "calculate_scoring_subdag_scores d = calculate_distributed_vote_scores (ds_scoring_subdag d)"

definition scoring_subdag_commit_range :: "dag_state \<Rightarrow> commit_index option" where
  "scoring_subdag_commit_range d = map_option range_end (ss_commit_range (ds_scoring_subdag d))"

subsection \<open>Recovery from storage\<close>

text \<open>Committed rounds and unscored sub-dags of the commits after the last commit info.\<close>

definition recover_commits ::
    "mem_store \<Rightarrow> trusted_commit list \<Rightarrow> round list \<Rightarrow> (round list \<times> committed_sub_dag list) option" where
  "recover_commits store commits rounds = for_each (\<lambda>commit (rounds, subdags). do {
     rounds' \<leftarrow> for_each bump_committed_round (c_blocks (tc_inner commit)) rounds;
     subdag \<leftarrow> load_committed_subdag_from_store store commit;
     Some (rounds', subdags @ [subdag])
   }) commits (rounds, [])"

text \<open>The blocks of one authority above its eviction round, and that round.\<close>

definition recover_authority ::
    "authority_index \<Rightarrow> verified_block list \<times> dag_state \<Rightarrow> (verified_block list \<times> dag_state) option" where
  "recover_authority a acc = (case acc of (recovered, d) \<Rightarrow> do {
     last_block \<leftarrow> scan_last_blocks_by_author (ds_store d) a 1 None;
     let last_block_round = (case bset_last last_block of Some b \<Rightarrow> vb_round b | None \<Rightarrow> GENESIS_ROUND);
     let e = eviction_round last_block_round (gc_round d) (ds_cached_rounds d);
     start \<leftarrow> u32_add e 1;
     blocks \<leftarrow> scan_blocks_by_author (ds_store d) a start;
     evicted \<leftarrow> vec_set (ds_evicted_rounds d) a e;
     Some (recovered @ blocks, d\<lparr>ds_evicted_rounds := evicted\<rparr>)
   })"

text \<open>The backwards loop over the commits that marks their blocks as committed.\<close>

fun recover_committed :: "mem_store \<Rightarrow> round \<Rightarrow> commit_index \<Rightarrow> dag_state \<Rightarrow> dag_state option" where
  "recover_committed store gc index d = do {
     commits \<leftarrow> scan_commits store (CommitRange_new index index);
     (case commits of
        [] \<Rightarrow> Some d
      | commit # _ \<Rightarrow>
          if gc > 0 \<and> br_round (c_leader (tc_inner commit)) \<le> gc then Some d
          else do {
            d' \<leftarrow> for_each (\<lambda>r d. do {
                     (d', first) \<leftarrow> set_committed r d;
                     rassert first;
                     Some d' })
                   (filter (\<lambda>r. br_round r > gc) (c_blocks (tc_inner commit))) d;
            (case index of
               0 \<Rightarrow> Some d'
             | Suc index' \<Rightarrow> if index' = 0 then Some d' else recover_committed store gc index' d')
          })
   }"

definition DagState_new :: "crypto \<Rightarrow> nat \<Rightarrow> consensus_context \<Rightarrow> mem_store \<Rightarrow> dag_state option" where
  "DagState_new cr now ctx store = do {
     let num_authorities = committee_size (ctx_committee ctx);
     gblocks \<leftarrow> genesis_blocks cr ctx;
     let genesis = fold (\<lambda>b. bmap_insert (reference b) b) gblocks [];
     let last_commit = read_last_commit store;
     (rounds0, start_index) \<leftarrow> (case read_last_commit_info store of
         Some (commit_ref, info) \<Rightarrow> do {
           i \<leftarrow> u32_add (cr_index commit_ref) 1;
           Some (ci_committed_rounds info, i) }
       | None \<Rightarrow> Some (replicate num_authorities 0, GENESIS_COMMIT_INDEX + 1));
     (rounds, subdags) \<leftarrow> (case last_commit of
         Some c \<Rightarrow> do {
           commits \<leftarrow> scan_commits store (CommitRange_new start_index (c_index (tc_inner c)));
           recover_commits store commits rounds0 }
       | None \<Rightarrow> Some (rounds0, []));
     scoring \<leftarrow> add_subdags subdags (ScoringSubdag_new ctx);
     let d0 = \<lparr>ds_context = ctx, ds_genesis = genesis, ds_recent_blocks = [],
               ds_recent_refs_by_authority = replicate num_authorities [], ds_round_info = [],
               ds_threshold_clock = ThresholdClock_new 1 ctx now,
               ds_evicted_rounds = replicate num_authorities 0, ds_highest_accepted_round = 0,
               ds_last_commit = last_commit, ds_last_commit_round_advancement_time = None,
               ds_last_committed_rounds = rounds, ds_scoring_subdag = scoring,
               ds_pending_commit_votes = [], ds_blocks_to_write = [], ds_commits_to_write = [],
               ds_commit_info_to_write = [], ds_finalized_commits_to_write = [], ds_store = store,
               ds_cached_rounds = as_u32 (dag_state_cached_rounds (ctx_parameters ctx))\<rparr>;
     (recovered, d1) \<leftarrow> for_each recover_authority (map fst (authorities (ctx_committee ctx))) ([], d0);
     d2 \<leftarrow> for_each (update_block_metadata now) (sort_key reference recovered) d1;
     d3 \<leftarrow> (case last_commit of
              Some c \<Rightarrow> recover_committed store (gc_round d2) (c_index (tc_inner c)) d2
            | None \<Rightarrow> Some d2);
     start \<leftarrow> u32_add (gc_round d3) 1;
     proposed \<leftarrow> scan_blocks_by_author store (own_index ctx) start;
     for_each (\<lambda>b d. map_option fst (link_causal_history (reference b) d)) proposed d3
   }"

end
