(* ===== verification/Dag_State_Lemmas.thy ===== *)
theory Dag_State_Lemmas
  imports Dag_State
begin

section \<open>Correctness of the DAG state\<close>

text \<open>
  The abstract content of a \<open>DagState\<close> is a partial map from references to blocks
  (\<open>dag_lookup\<close>): genesis, then cache, then store. This theory shows that the reading operations
  are views of that map, that accepting a block adds exactly that block to it, and that flushing
  and eviction leave it alone.
\<close>

subsection \<open>The abstract map\<close>

definition dag_lookup :: "dag_state \<Rightarrow> block_ref \<Rightarrow> verified_block option" where
  "dag_lookup d r =
     (if br_round r = GENESIS_ROUND then map_of (ds_genesis d) r
      else case map_of (ds_recent_blocks d) r of
        Some info \<Rightarrow> Some (bi_block info)
      | None \<Rightarrow> read_block (ds_store d) r)"

lemma fill_missing_map:
  "fill_missing (map f refs) (map g (filter (\<lambda>r. f r = None) refs))
     = map (\<lambda>r. case f r of Some x \<Rightarrow> x | None \<Rightarrow> g r) refs"
  by (induction refs) (auto split: option.splits)

lemma get_cached_dag_lookup:
  "(case get_cached d r of Some x \<Rightarrow> x | None \<Rightarrow> read_block (ds_store d) r) = dag_lookup d r"
  by (auto simp: get_cached_def dag_lookup_def split: option.splits)

lemma get_blocks_eq: "get_blocks d refs = map (dag_lookup d) refs"
proof -
  have "get_blocks d refs
      = fill_missing (map (get_cached d) refs)
          (map (read_block (ds_store d)) (filter (\<lambda>r. get_cached d r = None) refs))"
    by (simp add: get_blocks_def read_blocks_map Let_def)
  then show ?thesis by (simp add: fill_missing_map get_cached_dag_lookup)
qed

lemma get_block_eq: "get_block d r = Some (dag_lookup d r)"
  by (simp add: get_block_def get_blocks_eq bset_last_def)

subsection \<open>Invariant\<close>

definition recent_wf :: "dag_state \<Rightarrow> bool" where
  "recent_wf d \<longleftrightarrow> bmap_wf (ds_recent_blocks d)
     \<and> (\<forall>r info. map_of (ds_recent_blocks d) r = Some info \<longrightarrow>
          reference (bi_block info) = r \<and> 0 < br_round r \<and> br_author r < committee_size (ds_committee d))
     \<and> length (ds_recent_refs_by_authority d) = committee_size (ds_committee d)
     \<and> (\<forall>a<committee_size (ds_committee d). bset_wf (ds_recent_refs_by_authority d ! a)
          \<and> set (ds_recent_refs_by_authority d ! a)
              = {r. map_of (ds_recent_blocks d) r \<noteq> None \<and> br_author r = a})"

text \<open>The cache and the store fit together: cached blocks are stored or waiting to be, a stored
  block is the cached one if there is one, and the newest block of an authority is cached.\<close>

definition cache_wf :: "dag_state \<Rightarrow> bool" where
  "cache_wf d \<longleftrightarrow> store_wf (ds_store d)
     \<and> (\<forall>r info. map_of (ds_recent_blocks d) r = Some info \<longrightarrow>
          bi_block info \<in> set (ds_blocks_to_write d) \<or> read_block (ds_store d) r = Some (bi_block info))
     \<and> (\<forall>b\<in>set (ds_blocks_to_write d).
          \<exists>info. map_of (ds_recent_blocks d) (reference b) = Some info \<and> bi_block info = b)
     \<and> (\<forall>r info b. map_of (ds_recent_blocks d) r = Some info \<longrightarrow> read_block (ds_store d) r = Some b
          \<longrightarrow> b = bi_block info)
     \<and> (\<forall>r b. read_block (ds_store d) r = Some b \<longrightarrow>
          0 < br_round r \<and> br_author r < committee_size (ds_committee d)
          \<and> (\<exists>l\<in>set (ds_recent_refs_by_authority d ! br_author r). br_round r \<le> br_round l))"

definition dag_wf :: "dag_state \<Rightarrow> bool" where
  "dag_wf d \<longleftrightarrow> committee_wf (ds_committee d) \<and> recent_wf d \<and> cache_wf d
     \<and> clock_wf (ds_threshold_clock d) \<and> tc_context (ds_threshold_clock d) = ds_context d
     \<and> length (ds_evicted_rounds d) = committee_size (ds_committee d)
     \<and> length (ds_last_committed_rounds d) = committee_size (ds_committee d)
     \<and> 0 < ds_cached_rounds d
     \<and> bmap_wf (ds_genesis d)
     \<and> (\<forall>r b. map_of (ds_genesis d) r = Some b \<longrightarrow> br_round r = 0 \<and> reference b = r)
     \<and> (\<forall>a<committee_size (ds_committee d). \<exists>r\<in>fst ` set (ds_genesis d). br_author r = a)"

lemma recent_refs_iff:
  assumes "recent_wf d" and "br_author r < committee_size (ds_committee d)"
  shows "r \<in> set (ds_recent_refs_by_authority d ! br_author r) \<longleftrightarrow> map_of (ds_recent_blocks d) r \<noteq> None"
  using assms by (simp add: recent_wf_def)

lemma dag_lookup_reference:
  assumes "dag_wf d" and "dag_lookup d r = Some b"
  shows "reference b = r"
  using assms read_block_reference
  by (auto simp: dag_lookup_def dag_wf_def recent_wf_def cache_wf_def split: if_splits option.splits)

subsection \<open>Existence checks\<close>

text \<open>What \<open>contains_blocks\<close> decides from the cache is right, and the store decides the rest.\<close>

lemma contains_cached_correct:
  assumes "dag_wf d" and "br_author r < committee_size (ds_committee d)"
  shows "\<exists>x. contains_cached d r = Some x
     \<and> (case x of Some e \<Rightarrow> e | None \<Rightarrow> map_of (ms_blocks (ds_store d)) (block_key r) \<noteq> None)
         = (dag_lookup d r \<noteq> None)"
proof -
  let ?refs = "ds_recent_refs_by_authority d ! br_author r"
  have rw: "recent_wf d" and cw: "cache_wf d" using assms(1) by (simp_all add: dag_wf_def)
  have get: "vec_get (ds_recent_refs_by_authority d) (br_author r) = Some ?refs"
    using rw assms(2) by (simp add: vec_get_def recent_wf_def)
  have refs: "r \<in> set ?refs \<longleftrightarrow> map_of (ds_recent_blocks d) r \<noteq> None"
    by (rule recent_refs_iff [OF rw assms(2)])
  have sorted: "bset_wf ?refs" using rw assms(2) by (simp add: recent_wf_def)
  have genesis: "map_of (ds_genesis d) r \<noteq> None \<Longrightarrow> br_round r = GENESIS_ROUND"
    using assms(1) by (auto simp: dag_wf_def GENESIS_ROUND_def)
  have recent: "map_of (ds_recent_blocks d) r \<noteq> None \<Longrightarrow> br_round r \<noteq> GENESIS_ROUND"
    using rw by (auto simp: recent_wf_def GENESIS_ROUND_def)
  have stored: "br_round r \<noteq> GENESIS_ROUND \<and> ?refs \<noteq> [] \<and> br_round r \<le> br_round (last ?refs)"
    if "read_block (ds_store d) r \<noteq> None"
  proof -
    from that cw obtain l where l: "l \<in> set ?refs" "br_round r \<le> br_round l" "0 < br_round r"
      unfolding cache_wf_def by blast
    then have "br_round l \<le> br_round (last ?refs)"
      using bset_last_max [OF sorted] block_ref_le_round by blast
    with l show ?thesis by (auto simp: GENESIS_ROUND_def)
  qed
  let ?x = "if r \<in> set ?refs \<or> map_of (ds_genesis d) r \<noteq> None then Some True
      else case bset_last ?refs of None \<Rightarrow> Some False
        | Some l \<Rightarrow> if br_round l < br_round r then Some False else None"
  have x: "contains_cached d r = Some ?x" by (simp add: contains_cached_def get)
  consider "br_round r = GENESIS_ROUND" | "br_round r \<noteq> GENESIS_ROUND" "r \<in> set ?refs"
    | "br_round r \<noteq> GENESIS_ROUND" "r \<notin> set ?refs" by blast
  then show ?thesis
  proof cases
    case 1
    then have "r \<notin> set ?refs" "read_block (ds_store d) r = None"
      using refs recent stored by blast+
    with 1 x show ?thesis
      by (cases "map_of (ds_genesis d) r")
         (auto simp: dag_lookup_def bset_last_def read_block_def split: option.splits)
  next
    case 2
    with x refs show ?thesis by (auto simp: dag_lookup_def split: option.splits)
  next
    case 3
    then have "map_of (ds_genesis d) r = None" using genesis by blast
    with 3 x refs stored show ?thesis
      by (cases "read_block (ds_store d) r")
         (auto simp: dag_lookup_def bset_last_def read_block_def split: option.splits)
  qed
qed

lemma contains_blocks_eq:
  assumes "dag_wf d" and "\<forall>r\<in>set refs. br_author r < committee_size (ds_committee d)"
  shows "contains_blocks d refs = Some (map (\<lambda>r. dag_lookup d r \<noteq> None) refs)"
proof -
  define f where "f r = the (contains_cached d r)" for r
  have f: "contains_cached d r = Some (f r)"
    "(case f r of Some e \<Rightarrow> e | None \<Rightarrow> map_of (ms_blocks (ds_store d)) (block_key r) \<noteq> None)
         = (dag_lookup d r \<noteq> None)" if "r \<in> set refs" for r
    using contains_cached_correct [OF assms(1), of r] assms(2) that by (auto simp: f_def)
  have "map_opt (contains_cached d) refs = Some (map f refs)" using f(1) by (rule map_opt_total)
  moreover have "filter (\<lambda>r. contains_cached d r = Some None) refs = filter (\<lambda>r. f r = None) refs"
    by (rule filter_cong) (auto simp: f(1))
  ultimately have "contains_blocks d refs = Some (fill_missing (map f refs)
      (map (\<lambda>r. map_of (ms_blocks (ds_store d)) (block_key r) \<noteq> None) (filter (\<lambda>r. f r = None) refs)))"
    by (simp add: contains_blocks_def ms_contains_blocks_def Let_def)
  also have "\<dots> = Some (map (\<lambda>r. dag_lookup d r \<noteq> None) refs)"
    unfolding fill_missing_map using f(2) by simp
  finally show ?thesis .
qed

lemma contains_block_eq:
  assumes "dag_wf d" and "br_author r < committee_size (ds_committee d)"
  shows "contains_block d r = Some (dag_lookup d r \<noteq> None)"
  using contains_blocks_eq [OF assms(1), of "[r]"] assms(2)
  by (simp add: contains_block_def bset_first_def)

subsection \<open>Updates that leave the blocks alone\<close>

definition cache_view :: "dag_state \<Rightarrow> block_ref \<Rightarrow> verified_block option" where
  "cache_view d r = map_option bi_block (map_of (ds_recent_blocks d) r)"

text \<open>Two states with the same blocks: they differ at most in block annotations, round info, the
  clock and the commit bookkeeping.\<close>

definition same_blocks :: "dag_state \<Rightarrow> dag_state \<Rightarrow> bool" where
  "same_blocks d d' \<longleftrightarrow> cache_view d' = cache_view d
     \<and> (bmap_wf (ds_recent_blocks d) \<longrightarrow> bmap_wf (ds_recent_blocks d'))
     \<and> ds_context d' = ds_context d \<and> ds_genesis d' = ds_genesis d
     \<and> ds_recent_refs_by_authority d' = ds_recent_refs_by_authority d
     \<and> ds_store d' = ds_store d \<and> ds_blocks_to_write d' = ds_blocks_to_write d
     \<and> ds_cached_rounds d' = ds_cached_rounds d
     \<and> ds_evicted_rounds d' = ds_evicted_rounds d"

lemma same_blocks_refl [simp]: "same_blocks d d"
  by (simp add: same_blocks_def)

lemma same_blocks_trans: "same_blocks d1 d2 \<Longrightarrow> same_blocks d2 d3 \<Longrightarrow> same_blocks d1 d3"
  by (simp add: same_blocks_def)

lemma cache_view_Some: "cache_view d r = Some b \<longleftrightarrow>
    (\<exists>info. map_of (ds_recent_blocks d) r = Some info \<and> bi_block info = b)"
  by (auto simp: cache_view_def)

lemma cache_view_None: "cache_view d r = None \<longleftrightarrow> map_of (ds_recent_blocks d) r = None"
  by (auto simp: cache_view_def)

lemma dag_lookup_view:
  "dag_lookup d r = (if br_round r = GENESIS_ROUND then map_of (ds_genesis d) r
     else case cache_view d r of Some b \<Rightarrow> Some b | None \<Rightarrow> read_block (ds_store d) r)"
  by (auto simp: dag_lookup_def cache_view_def split: option.splits)

lemma recent_wf_view:
  "recent_wf d \<longleftrightarrow> bmap_wf (ds_recent_blocks d)
     \<and> (\<forall>r b. cache_view d r = Some b \<longrightarrow>
          reference b = r \<and> 0 < br_round r \<and> br_author r < committee_size (ds_committee d))
     \<and> length (ds_recent_refs_by_authority d) = committee_size (ds_committee d)
     \<and> (\<forall>a<committee_size (ds_committee d). bset_wf (ds_recent_refs_by_authority d ! a)
          \<and> set (ds_recent_refs_by_authority d ! a) = {r. cache_view d r \<noteq> None \<and> br_author r = a})"
  unfolding recent_wf_def cache_view_None by (auto simp: cache_view_Some)

lemma cache_wf_view:
  "cache_wf d \<longleftrightarrow> store_wf (ds_store d)
     \<and> (\<forall>r b. cache_view d r = Some b \<longrightarrow>
          b \<in> set (ds_blocks_to_write d) \<or> read_block (ds_store d) r = Some b)
     \<and> (\<forall>b\<in>set (ds_blocks_to_write d). cache_view d (reference b) = Some b)
     \<and> (\<forall>r b b'. cache_view d r = Some b' \<longrightarrow> read_block (ds_store d) r = Some b \<longrightarrow> b = b')
     \<and> (\<forall>r b. read_block (ds_store d) r = Some b \<longrightarrow>
          0 < br_round r \<and> br_author r < committee_size (ds_committee d)
          \<and> (\<exists>l\<in>set (ds_recent_refs_by_authority d ! br_author r). br_round r \<le> br_round l))"
  unfolding cache_wf_def cache_view_Some by (intro conj_cong refl) blast+

lemma same_blocks_wf:
  assumes "same_blocks d d'" and "dag_wf d" and "clock_wf (ds_threshold_clock d')"
    and "tc_context (ds_threshold_clock d') = ds_context d"
    and "length (ds_last_committed_rounds d') = length (ds_last_committed_rounds d)"
  shows "dag_wf d'"
proof -
  have e: "cache_view d' = cache_view d" "ds_context d' = ds_context d" "ds_genesis d' = ds_genesis d"
    "ds_recent_refs_by_authority d' = ds_recent_refs_by_authority d" "ds_store d' = ds_store d"
    "ds_blocks_to_write d' = ds_blocks_to_write d" "ds_cached_rounds d' = ds_cached_rounds d"
    "ds_evicted_rounds d' = ds_evicted_rounds d"
    "bmap_wf (ds_recent_blocks d) \<Longrightarrow> bmap_wf (ds_recent_blocks d')"
    using assms(1) by (simp_all add: same_blocks_def)
  show ?thesis
    using assms(2) unfolding dag_wf_def recent_wf_view cache_wf_view e(1-8)
    using assms(3-5) e(9) by (elim conjE, intro conjI) simp_all
qed

lemma same_blocks_lookup: "same_blocks d d' \<Longrightarrow> dag_lookup d' = dag_lookup d"
  by (rule ext) (simp add: same_blocks_def dag_lookup_view split: option.split)

lemma same_blocks_annotate:
  assumes "map_of (ds_recent_blocks d) r = Some info" and "bi_block info' = bi_block info"
  shows "same_blocks d (d\<lparr>ds_recent_blocks := bmap_insert r info' (ds_recent_blocks d)\<rparr>)"
  using assms by (auto simp: same_blocks_def cache_view_def)

text \<open>An annotation step keeps everything but the annotations.\<close>

definition annotates :: "dag_state \<Rightarrow> dag_state \<Rightarrow> bool" where
  "annotates d d' \<longleftrightarrow> same_blocks d d' \<and> ds_threshold_clock d' = ds_threshold_clock d
     \<and> ds_last_committed_rounds d' = ds_last_committed_rounds d \<and> ds_last_commit d' = ds_last_commit d
     \<and> ds_highest_accepted_round d' = ds_highest_accepted_round d"

lemma annotates_refl [simp]: "annotates d d"
  by (simp add: annotates_def)

lemma annotates_trans: "annotates d1 d2 \<Longrightarrow> annotates d2 d3 \<Longrightarrow> annotates d1 d3"
  by (auto simp: annotates_def intro: same_blocks_trans)

lemma annotates_wf: "annotates d d' \<Longrightarrow> dag_wf d \<Longrightarrow> dag_wf d'"
  by (rule same_blocks_wf) (auto simp: annotates_def dag_wf_def)

lemma annotates_lookup: "annotates d d' \<Longrightarrow> dag_lookup d' = dag_lookup d"
  by (simp add: annotates_def same_blocks_lookup)

lemma annotates_gc: "annotates d d' \<Longrightarrow> gc_round d' = gc_round d"
  by (simp add: annotates_def same_blocks_def gc_round_def last_commit_round_def calculate_gc_round_def)

lemma update_parent_annotates: "update_parent b a d = Some d' \<Longrightarrow> annotates d d'"
  by (auto simp: update_parent_def annotates_def panic_simps split: if_splits
      intro!: same_blocks_annotate)

lemma update_parents_annotate: "for_each (update_parent b) as d = Some d' \<Longrightarrow> annotates d d'"
  by (rule for_each_inv [where I = "annotates d"])
     (auto intro: annotates_trans update_parent_annotates)

lemma update_round_info_only:
  "update_round_info b d = Some d' \<Longrightarrow> \<exists>infos. d' = d\<lparr>ds_round_info := infos\<rparr>"
proof (cases "vb_round b \<le> gc_round d")
  case False
  assume "update_round_info b d = Some d'"
  with False obtain infos where "d' = d\<lparr>ds_round_info := infos\<rparr>"
    unfolding update_round_info_def Let_def
    by (clarsimp simp: Option.bind_eq_Some_conv split: prod.splits)
  then show ?thesis by (rule exI)
qed (auto simp: update_round_info_def intro: exI [of _ "ds_round_info d"])

lemma update_round_info_annotates: "update_round_info b d = Some d' \<Longrightarrow> annotates d d'"
  by (drule update_round_info_only) (auto simp: annotates_def same_blocks_def cache_view_def fun_eq_iff)

lemma set_committed_annotates: "set_committed r d = Some (d', f) \<Longrightarrow> annotates d d'"
  by (auto simp: set_committed_def annotates_def panic_simps split: if_splits
      intro!: same_blocks_annotate)

subsection \<open>Accepting a block\<close>

definition insert_block :: "verified_block \<Rightarrow> dag_state \<Rightarrow> dag_state" where
  "insert_block b d = d\<lparr>
     ds_recent_blocks := bmap_insert (reference b) (BlockInfo_new b) (ds_recent_blocks d),
     ds_recent_refs_by_authority := (ds_recent_refs_by_authority d)[vb_author b :=
       bset_insert (reference b) (ds_recent_refs_by_authority d ! vb_author b)],
     ds_blocks_to_write := ds_blocks_to_write d @ [b]\<rparr>"

lemma insert_block_view: "cache_view (insert_block b d) = (cache_view d)(reference b \<mapsto> b)"
  by (auto simp: cache_view_def insert_block_def BlockInfo_new_def)

lemma insert_block_lookup:
  "0 < vb_round b \<Longrightarrow> dag_lookup (insert_block b d) = (dag_lookup d)(reference b \<mapsto> b)"
proof (rule ext)
  fix r
  have "ds_store (insert_block b d) = ds_store d" "ds_genesis (insert_block b d) = ds_genesis d"
    by (simp_all add: insert_block_def)
  moreover assume "0 < vb_round b"
  ultimately show "dag_lookup (insert_block b d) r = ((dag_lookup d)(reference b \<mapsto> b)) r"
    unfolding dag_lookup_view insert_block_view
    by (auto simp: dag_lookup_view GENESIS_ROUND_def split: option.split)
qed

lemma insert_block_wf:
  assumes "dag_wf d" and "dag_lookup d (reference b) = None" and "0 < vb_round b"
    and "vb_author b < committee_size (ds_committee d)"
  shows "dag_wf (insert_block b d)"
proof -
  let ?d = "insert_block b d"
  have rw: "recent_wf d" and cw: "cache_wf d" using assms(1) by (simp_all add: dag_wf_def)
  have fresh: "cache_view d (reference b) = None" "read_block (ds_store d) (reference b) = None"
    using assms(2,3) by (auto simp: dag_lookup_view GENESIS_ROUND_def split: option.splits)
  have fields: "ds_committee ?d = ds_committee d" "ds_store ?d = ds_store d"
    "set (ds_blocks_to_write ?d) = insert b (set (ds_blocks_to_write d))"
    "length (ds_recent_refs_by_authority ?d) = length (ds_recent_refs_by_authority d)"
    by (simp_all add: insert_block_def)
  have refs: "ds_recent_refs_by_authority ?d ! a = (if a = vb_author b
      then bset_insert (reference b) (ds_recent_refs_by_authority d ! a)
      else ds_recent_refs_by_authority d ! a)" if "a < committee_size (ds_committee d)" for a
    using that rw by (auto simp: insert_block_def recent_wf_def nth_list_update)
  have bm: "bmap_wf (ds_recent_blocks ?d)"
    using rw by (simp add: recent_wf_def insert_block_def)
  have "recent_wf ?d"
    using rw assms(3,4) bm unfolding recent_wf_view insert_block_view fields
    by (auto simp: refs)
  moreover have "cache_wf ?d"
  proof -
    have "\<exists>l\<in>set (ds_recent_refs_by_authority ?d ! br_author r). br_round r \<le> br_round l"
      if "read_block (ds_store d) r = Some x" for r x
    proof -
      from that cw obtain l where "br_author r < committee_size (ds_committee d)"
        "l \<in> set (ds_recent_refs_by_authority d ! br_author r)" "br_round r \<le> br_round l"
        unfolding cache_wf_def by blast
      then show ?thesis by (intro bexI [of _ l]) (auto simp: refs)
    qed
    with cw fresh show ?thesis unfolding cache_wf_view insert_block_view fields by auto
  qed
  ultimately show ?thesis using assms(1) by (simp add: dag_wf_def insert_block_def)
qed

lemma same_blocks_buffer:
  "same_blocks x y \<Longrightarrow> same_blocks (x\<lparr>ds_blocks_to_write := l\<rparr>) (y\<lparr>ds_blocks_to_write := l\<rparr>)"
  by (simp add: same_blocks_def cache_view_def fun_eq_iff)

lemma update_block_metadata_blocks:
  assumes "update_block_metadata now b d = Some d'" and "clock_wf (ds_threshold_clock d)"
    and "tc_context (ds_threshold_clock d) = ds_context d"
    and "vb_author b < committee_size (ds_committee d)"
  shows "same_blocks (insert_block b d) (d'\<lparr>ds_blocks_to_write := ds_blocks_to_write d' @ [b]\<rparr>)
       \<and> clock_wf (ds_threshold_clock d') \<and> tc_context (ds_threshold_clock d') = ds_context d
       \<and> ds_last_committed_rounds d' = ds_last_committed_rounds d \<and> ds_last_commit d' = ds_last_commit d
       \<and> ds_highest_accepted_round d' = max (ds_highest_accepted_round d) (vb_round b)"
proof -
  from assms(1) obtain d1 d2 clock adv where
      ins: "insert_recent b d = Some d1" and d2: "update_v3_info b d1 = Some d2"
    and clock: "tc_add_block now (reference b) (ds_threshold_clock d2) = Some (clock, adv)"
    and d': "d' = d2\<lparr>ds_threshold_clock := clock,
      ds_highest_accepted_round := max (ds_highest_accepted_round d2) (vb_round b)\<rparr>"
    by (auto simp: update_block_metadata_def Let_def Option.bind_eq_Some_conv)
  have d1: "d1 = d\<lparr>ds_recent_blocks := bmap_insert (reference b) (BlockInfo_new b) (ds_recent_blocks d),
      ds_recent_refs_by_authority := (ds_recent_refs_by_authority d)[vb_author b :=
        bset_insert (reference b) (ds_recent_refs_by_authority d ! vb_author b)]\<rparr>"
    using ins by (auto simp: insert_recent_def Let_def panic_simps)
  have ann: "annotates d1 d2"
    using d2 by (auto simp: update_v3_info_def panic_simps split: if_splits
        intro: annotates_trans update_parents_annotate update_round_info_annotates)
  then have same: "same_blocks d1 d2" and fields: "ds_threshold_clock d2 = ds_threshold_clock d"
    "ds_last_committed_rounds d2 = ds_last_committed_rounds d" "ds_last_commit d2 = ds_last_commit d"
    "ds_highest_accepted_round d2 = ds_highest_accepted_round d"
    by (simp_all add: annotates_def d1)
  have "d1\<lparr>ds_blocks_to_write := ds_blocks_to_write d @ [b]\<rparr> = insert_block b d"
    by (simp add: d1 insert_block_def)
  moreover have "ds_blocks_to_write d2 = ds_blocks_to_write d"
    using same by (simp add: same_blocks_def d1)
  ultimately have "same_blocks (insert_block b d) (d2\<lparr>ds_blocks_to_write := ds_blocks_to_write d2 @ [b]\<rparr>)"
    using same_blocks_buffer [OF same] by metis
  then have "same_blocks (insert_block b d) (d'\<lparr>ds_blocks_to_write := ds_blocks_to_write d' @ [b]\<rparr>)"
    by (simp add: d' same_blocks_def cache_view_def fun_eq_iff)
  moreover have "clock_wf clock \<and> tc_context clock = ds_context d"
    using tc_add_block_wf [OF _ _ clock] assms(2-4) fields by simp
  ultimately show ?thesis using fields by (simp add: d')
qed

text \<open>Accepting a block adds that block to the map and nothing else.\<close>

lemma accept_block_lookup:
  assumes "dag_wf d" and "accept_block now b d = Some d'"
    and "vb_author b < committee_size (ds_committee d)"
  shows "dag_wf d' \<and> ds_context d' = ds_context d \<and> ds_last_commit d' = ds_last_commit d
       \<and> dag_lookup d' = (if dag_lookup d (reference b) = None
                          then (dag_lookup d)(reference b \<mapsto> b) else dag_lookup d)
       \<and> cache_view d' = (if dag_lookup d (reference b) = None
                          then (cache_view d)(reference b \<mapsto> b) else cache_view d)
       \<and> ds_highest_accepted_round d' = (if dag_lookup d (reference b) = None
            then max (ds_highest_accepted_round d) (vb_round b) else ds_highest_accepted_round d)"
proof (cases "dag_lookup d (reference b) = None")
  case False
  then have "contains_block d (reference b) = Some True"
    using contains_block_eq [OF assms(1), of "reference b"] assms(3) by simp
  with assms(2) have "d' = d" by (simp add: accept_block_def panic_simps)
  with False assms(1) show ?thesis by auto
next
  case True
  then have "contains_block d (reference b) = Some False"
    using contains_block_eq [OF assms(1), of "reference b"] assms(3) by simp
  with assms(2) obtain d1 where pos: "0 < vb_round b"
    and d1: "update_block_metadata now b d = Some d1"
    and d': "d' = d1\<lparr>ds_blocks_to_write := ds_blocks_to_write d1 @ [b]\<rparr>"
    by (auto simp: accept_block_def panic_simps)
  have clk: "clock_wf (ds_threshold_clock d)" "tc_context (ds_threshold_clock d) = ds_context d"
    using assms(1) by (simp_all add: dag_wf_def)
  note m = update_block_metadata_blocks [OF d1 clk assms(3), folded d']
  have wf: "dag_wf (insert_block b d)" by (rule insert_block_wf [OF assms(1) True pos assms(3)])
  have "dag_wf d'"
    using m by (intro same_blocks_wf [OF _ wf]) (simp_all add: d' insert_block_def)
  moreover have "dag_lookup d' = (dag_lookup d)(reference b \<mapsto> b)"
    using same_blocks_lookup m insert_block_lookup [OF pos] by metis
  moreover have "ds_context d' = ds_context d" "ds_last_commit d' = ds_last_commit d"
    using m by (simp_all add: same_blocks_def insert_block_def d')
  moreover have "cache_view d' = (cache_view d)(reference b \<mapsto> b)"
    using m by (simp add: same_blocks_def insert_block_view)
  moreover have "ds_highest_accepted_round d' = max (ds_highest_accepted_round d) (vb_round b)"
    using m by (simp add: d')
  ultimately show ?thesis using True by simp
qed

lemma get_last_block_for_authority_total:
  assumes "dag_wf d" and "a < committee_size (ds_committee d)"
  shows "\<exists>b. get_last_block_for_authority d a = Some b \<and> vb_author b = a"
proof -
  let ?refs = "ds_recent_refs_by_authority d ! a"
  have rw: "recent_wf d" using assms(1) by (simp add: dag_wf_def)
  then have get: "vec_get (ds_recent_refs_by_authority d) a = Some ?refs"
    using assms(2) by (simp add: vec_get_def recent_wf_def)
  show ?thesis
  proof (cases "?refs = []")
    case False
    then have "last ?refs \<in> set ?refs" by simp
    then obtain info where "map_of (ds_recent_blocks d) (last ?refs) = Some info"
        "br_author (last ?refs) = a"
      using rw assms(2) by (auto simp: recent_wf_def)
    moreover from this have "reference (bi_block info) = last ?refs"
      using rw by (simp add: recent_wf_def)
    ultimately show ?thesis
      using get False
      by (auto simp: get_last_block_for_authority_def bset_last_def) (metis br_author_reference)
  next
    case True
    from assms obtain r b where rb: "(r, b) \<in> set (ds_genesis d)" "br_author r = a"
      by (fastforce simp: dag_wf_def)
    then obtain r' b' where f: "find (\<lambda>(r, _). br_author r = a) (ds_genesis d) = Some (r', b')"
      by (cases "find (\<lambda>(r, _). br_author r = a) (ds_genesis d)") (auto simp: find_None_iff)
    then have mem: "(r', b') \<in> set (ds_genesis d)" "br_author r' = a"
      by (auto simp: find_Some_iff) (metis nth_mem)+
    then have "map_of (ds_genesis d) r' = Some b'"
      using assms(1) by (simp add: dag_wf_def bmap_wf_distinct)
    then have "reference b' = r'" using assms(1) by (simp add: dag_wf_def)
    with f get True mem(2) show ?thesis
      by (auto simp: get_last_block_for_authority_def bset_last_def)
  qed
qed

lemma get_last_proposed_block_total: "dag_wf d \<Longrightarrow> \<exists>b. get_last_proposed_block d = Some b"
  using get_last_block_for_authority_total [of d "own_index (ds_context d)"]
  by (auto simp: get_last_proposed_block_def is_validator_def is_valid_index_def)

text \<open>A block of a committee member is accepted unless it equivocates in the own slot.\<close>

lemma accept_block_total:
  assumes "dag_wf d" and "0 < vb_round b" and "vb_round b < u32_max"
    and "vb_author b < committee_size (ds_committee d)"
    and "\<not> enable_v3 (protocol_config (ds_context d))"
    and "vb_author b = own_index (ds_context d) \<Longrightarrow> dag_lookup d (reference b) = None \<Longrightarrow>
           get_uncommitted_blocks_at_slot d (slot_of_ref (reference b)) = []"
  shows "\<exists>d'. accept_block now b d = Some d'"
proof (cases "dag_lookup d (reference b) = None")
  case False
  then have "contains_block d (reference b) = Some True"
    using contains_block_eq [OF assms(1), of "reference b"] assms(4) by simp
  then show ?thesis using assms(2) by (simp add: accept_block_def)
next
  case True
  then have new: "contains_block d (reference b) = Some False"
    using contains_block_eq [OF assms(1), of "reference b"] assms(4) by simp
  let ?n = "committee_size (ds_committee d)"
  let ?d1 = "d\<lparr>ds_recent_blocks := bmap_insert (reference b) (BlockInfo_new b) (ds_recent_blocks d),
      ds_recent_refs_by_authority := (ds_recent_refs_by_authority d)[vb_author b :=
        bset_insert (reference b) (ds_recent_refs_by_authority d ! vb_author b)]\<rparr>"
  have clk: "clock_wf (ds_threshold_clock d)" "tc_context (ds_threshold_clock d) = ds_context d"
    and len: "length (ds_recent_refs_by_authority d) = ?n"
    using assms(1) by (simp_all add: dag_wf_def recent_wf_def)
  from tc_add_block_step [OF clk(1), of "reference b" now] obtain clock adv where
    clock: "tc_add_block now (reference b) (ds_threshold_clock d) = Some (clock, adv)"
      "clock_wf clock" "tc_context clock = ds_context d"
    using assms(3,4) clk(2) by (auto simp: is_valid_index_def)
  have wf: "dag_wf ((insert_block b d)\<lparr>ds_threshold_clock := clock\<rparr>)"
    by (rule same_blocks_wf [OF _ insert_block_wf [OF assms(1) True assms(2,4)]])
       (use clock in \<open>simp_all add: same_blocks_def cache_view_def fun_eq_iff insert_block_def\<close>)
  have glp: "get_last_proposed_block (?d1\<lparr>ds_threshold_clock := clock\<rparr>)
      = get_last_proposed_block ((insert_block b d)\<lparr>ds_threshold_clock := clock\<rparr>)"
    by (simp add: get_last_proposed_block_def get_last_block_for_authority_def insert_block_def
        cong: option.case_cong)
  obtain x where "get_last_proposed_block (?d1\<lparr>ds_threshold_clock := clock\<rparr>) = Some x"
    using get_last_proposed_block_total [OF wf] unfolding glp by blast
  moreover have "committee_authority (ds_committee d) (vb_author b)
      = Some (committee_authorities (ds_committee d) ! vb_author b)"
    using assms(4) by (simp add: committee_authority_Some)
  moreover have "insert_recent b d = Some ?d1" "update_v3_info b ?d1 = Some ?d1"
    using assms(4,5) len by (simp_all add: insert_recent_def update_v3_info_def vec_get_def Let_def)
  ultimately have "\<exists>d'. update_block_metadata now b d = Some d'"
    using assms(4) clock(1) len
    by (simp add: update_block_metadata_def vec_get_def bset_last_def Let_def)
  then show ?thesis
    using new assms(2,4,6) True by (auto simp: accept_block_def committee_authority_Some rassert_def
        committee_authority_def vec_get_def committee_size_def)
qed

end
