(* ===== verification/Dag_Flush.thy ===== *)
theory Dag_Flush
  imports Dag_State_Lemmas
begin

section \<open>Flushing and eviction\<close>

text \<open>
  \<open>DagState::flush\<close> writes the buffers to the store and then evicts old blocks from the cache.
  The lemmas follow its two phases; the properties at the end state what a caller of the DAG state
  can rely on: existence checks agree with lookups, accepting adds one block, and flushing changes
  no lookup and drops nothing above the garbage collection round.
\<close>

subsection \<open>Writing the buffers\<close>

definition write_buffers :: "dag_state \<Rightarrow> dag_state" where
  "write_buffers d = d\<lparr>ds_blocks_to_write := [], ds_commits_to_write := [], ds_commit_info_to_write := [],
     ds_finalized_commits_to_write := [],
     ds_store := ms_write (WriteBatch_new (ds_blocks_to_write d) (ds_commits_to_write d)
       (ds_commit_info_to_write d) (ds_finalized_commits_to_write d)) (ds_store d)\<rparr>"

lemma write_buffers_store:
  assumes "cache_wf d"
  shows "read_block (ds_store (write_buffers d)) r
       = (if r \<in> reference ` set (ds_blocks_to_write d) then cache_view d r
          else read_block (ds_store d) r)"
proof -
  let ?wb = "WriteBatch_new (ds_blocks_to_write d) (ds_commits_to_write d)
       (ds_commit_info_to_write d) (ds_finalized_commits_to_write d)"
  have view: "cache_view d (reference b) = Some b" if "b \<in> set (ds_blocks_to_write d)" for b
    using assms that by (simp add: cache_wf_view)
  have inj: "inj_on reference (set (wb_blocks ?wb))"
    using view by (intro inj_onI) (simp add: WriteBatch_new_def, metis option.inject)
  have "read_block (ms_write ?wb (ds_store d)) (reference b) = cache_view d (reference b)"
    if "b \<in> set (ds_blocks_to_write d)" for b
    using read_block_write [OF inj, of b "ds_store d"] view that by (simp add: WriteBatch_new_def)
  moreover have "read_block (ms_write ?wb (ds_store d)) r = read_block (ds_store d) r"
    if "r \<notin> reference ` set (ds_blocks_to_write d)"
    using read_block_write_other [of r ?wb] that by (simp add: WriteBatch_new_def)
  ultimately show ?thesis by (auto simp: write_buffers_def)
qed

lemma write_buffers_fields [simp]:
  "cache_view (write_buffers d) = cache_view d" "ds_context (write_buffers d) = ds_context d"
  "ds_genesis (write_buffers d) = ds_genesis d" "ds_blocks_to_write (write_buffers d) = []"
  "ds_recent_refs_by_authority (write_buffers d) = ds_recent_refs_by_authority d"
  "ds_recent_blocks (write_buffers d) = ds_recent_blocks d"
  "gc_round (write_buffers d) = gc_round d"
  by (auto simp: write_buffers_def cache_view_def gc_round_def last_commit_round_def calculate_gc_round_def)

lemma write_buffers_cached_stored:
  assumes "cache_wf d" and "recent_wf d" and "cache_view d r = Some b"
  shows "read_block (ds_store (write_buffers d)) r = Some b"
proof -
  have "reference b = r" using assms(2,3) by (simp add: recent_wf_view)
  moreover have "b \<in> set (ds_blocks_to_write d) \<or> read_block (ds_store d) r = Some b"
    using assms(1,3) unfolding cache_wf_view by blast
  ultimately show ?thesis using assms(3) by (auto simp: write_buffers_store [OF assms(1)])
qed

lemma write_buffers_wf:
  assumes "dag_wf d"
  shows "dag_wf (write_buffers d)"
proof -
  have cw: "cache_wf d" and rw: "recent_wf d" using assms by (simp_all add: dag_wf_def)
  have view: "cache_view d (reference b) = Some b" if "b \<in> set (ds_blocks_to_write d)" for b
    using cw that by (simp add: cache_wf_view)
  have stored: "0 < br_round r \<and> br_author r < committee_size (ds_committee d)
      \<and> (\<exists>l\<in>set (ds_recent_refs_by_authority d ! br_author r). br_round r \<le> br_round l)"
    if r: "read_block (ds_store (write_buffers d)) r = Some b" for r b
  proof (cases "r \<in> reference ` set (ds_blocks_to_write d)")
    case True
    then have v: "cache_view d r \<noteq> None" using view by auto
    then have "0 < br_round r" "br_author r < committee_size (ds_committee d)"
      using rw by (auto simp: recent_wf_view)
    moreover have "r \<in> set (ds_recent_refs_by_authority d ! br_author r)"
      using v calculation(2) rw by (simp add: recent_wf_view)
    ultimately show ?thesis by blast
  next
    case False
    with r have "read_block (ds_store d) r = Some b" by (simp add: write_buffers_store [OF cw])
    with cw show ?thesis unfolding cache_wf_def by blast
  qed
  have "store_wf (ds_store (write_buffers d))"
    using cw by (simp add: write_buffers_def cache_wf_def store_wf_write)
  moreover have "\<forall>r b. cache_view d r = Some b \<longrightarrow> read_block (ds_store (write_buffers d)) r = Some b"
    using write_buffers_cached_stored [OF cw rw] by blast
  ultimately have "cache_wf (write_buffers d)"
    unfolding cache_wf_view using stored by auto
  moreover have "recent_wf (write_buffers d)"
    using rw unfolding recent_wf_view by simp
  ultimately show ?thesis using assms by (simp add: dag_wf_def) (simp add: write_buffers_def)
qed

lemma write_buffers_lookup:
  assumes "dag_wf d"
  shows "dag_lookup (write_buffers d) = dag_lookup d"
proof (rule ext)
  fix r
  have cw: "cache_wf d" using assms by (simp add: dag_wf_def)
  have "r \<in> reference ` set (ds_blocks_to_write d) \<Longrightarrow> cache_view d r \<noteq> None"
    using cw by (auto simp: cache_wf_view)
  then show "dag_lookup (write_buffers d) r = dag_lookup d r"
    by (auto simp: dag_lookup_view write_buffers_store [OF cw] split: option.split)
qed

subsection \<open>Eviction\<close>

lemma evict_refs_eq:
  "evict_refs e refs m = (dropWhile (\<lambda>r. br_round r \<le> e) refs,
     fold bmap_remove (takeWhile (\<lambda>r. br_round r \<le> e) refs) m)"
  by (induction refs arbitrary: m) auto

lemma evicted_prefix:
  assumes "bset_wf refs"
  shows "dropWhile (\<lambda>r. br_round r \<le> e) refs = filter (\<lambda>r. e < br_round r) refs
       \<and> set (takeWhile (\<lambda>r. br_round r \<le> e) refs) = {r \<in> set refs. br_round r \<le> e}"
  using assms
proof (induction refs)
  case Nil
  then show ?case by simp
next
  case (Cons x refs)
  show ?case
  proof (cases "br_round x \<le> e")
    case True
    then show ?thesis using Cons by auto
  next
    case False
    have "e < br_round r" if "r \<in> set refs" for r
      using Cons.prems that False block_ref_less_round [of x r] by auto
    then show ?thesis using False by (auto simp: filter_id_conv not_le)
  qed
qed

lemma map_of_fold_bmap_remove:
  "map_of (fold bmap_remove rs m) r = (if r \<in> set rs then None else map_of m r)"
  by (induction rs arbitrary: m) auto

lemma bmap_wf_fold_remove: "bmap_wf m \<Longrightarrow> bmap_wf (fold bmap_remove rs m)"
  by (induction rs arbitrary: m) auto

lemma evict_authority_eq:
  assumes "dag_wf d" and "a < committee_size (ds_committee d)"
  shows "\<exists>d' e. evict_authority a d = Some d'
     \<and> e \<le> gc_round d
     \<and> (\<forall>r\<in>set (ds_recent_refs_by_authority d ! a). e < br_round (last (ds_recent_refs_by_authority d ! a)))
     \<and> (\<forall>r. map_of (ds_recent_blocks d') r =
           (if br_author r = a \<and> br_round r \<le> e then None else map_of (ds_recent_blocks d) r))
     \<and> bmap_wf (ds_recent_blocks d')
     \<and> ds_recent_refs_by_authority d' = (ds_recent_refs_by_authority d)
           [a := filter (\<lambda>r. e < br_round r) (ds_recent_refs_by_authority d ! a)]
     \<and> ds_evicted_rounds d' = (ds_evicted_rounds d)[a := e]
     \<and> d' = d\<lparr>ds_recent_blocks := ds_recent_blocks d',
               ds_recent_refs_by_authority := ds_recent_refs_by_authority d',
               ds_evicted_rounds := ds_evicted_rounds d'\<rparr>"
proof -
  let ?refs = "ds_recent_refs_by_authority d ! a"
  have rw: "recent_wf d" and lens: "length (ds_recent_refs_by_authority d) = committee_size (ds_committee d)"
    "length (ds_evicted_rounds d) = committee_size (ds_committee d)" "0 < ds_cached_rounds d"
    using assms(1) by (simp_all add: dag_wf_def recent_wf_def)
  have refs: "bset_wf ?refs"
    "set ?refs = {r. map_of (ds_recent_blocks d) r \<noteq> None \<and> br_author r = a}"
    using rw assms(2) by (simp_all add: recent_wf_def)
  define l where "l = (case bset_last ?refs of Some r \<Rightarrow> br_round r | None \<Rightarrow> GENESIS_ROUND)"
  define e where "e = eviction_round l (gc_round d) (ds_cached_rounds d)"
  have ev: "calculate_authority_eviction_round d a = Some e"
    using assms(2) lens by (simp add: calculate_authority_eviction_round_def vec_get_def e_def l_def)
  define m' where "m' = fold bmap_remove (takeWhile (\<lambda>r. br_round r \<le> e) ?refs) (ds_recent_blocks d)"
  have run: "evict_authority a d = Some (d\<lparr>ds_recent_blocks := m',
      ds_recent_refs_by_authority := (ds_recent_refs_by_authority d)[a := filter (\<lambda>r. e < br_round r) ?refs],
      ds_evicted_rounds := (ds_evicted_rounds d)[a := e]\<rparr>)"
    using assms(2) lens evicted_prefix [OF refs(1), of e]
    by (simp add: evict_authority_def ev vec_get_def vec_set_def evict_refs_eq m'_def)
  have m: "map_of m' r = (if br_author r = a \<and> br_round r \<le> e then None else map_of (ds_recent_blocks d) r)" for r
    using evicted_prefix [OF refs(1), of e] refs(2) by (auto simp: m'_def map_of_fold_bmap_remove)
  have last: "e < br_round (last ?refs)" if "r \<in> set ?refs" for r
  proof -
    from that have "?refs \<noteq> []" by auto
    then have l: "l = br_round (last ?refs)" "last ?refs \<in> set ?refs" by (auto simp: l_def bset_last_def)
    then have "0 < l" using refs(2) rw by (auto simp: recent_wf_def)
    then show ?thesis using l(1) lens(3) by (simp add: e_def eviction_round_def)
  qed
  have "bmap_wf m'" using rw by (simp add: m'_def bmap_wf_fold_remove recent_wf_def)
  moreover have "e \<le> gc_round d" by (simp add: e_def eviction_round_def)
  ultimately show ?thesis using run m last by (intro exI conjI) auto
qed

lemma evict_authority_correct:
  assumes "dag_wf d" and "ds_blocks_to_write d = []" and "a < committee_size (ds_committee d)"
  shows "\<exists>d'. evict_authority a d = Some d' \<and> dag_wf d' \<and> dag_lookup d' = dag_lookup d
     \<and> ds_blocks_to_write d' = [] \<and> gc_round d' = gc_round d \<and> ds_context d' = ds_context d
     \<and> (\<forall>r. gc_round d < br_round r \<longrightarrow> map_of (ds_recent_blocks d') r = map_of (ds_recent_blocks d) r)"
proof -
  from evict_authority_eq [OF assms(1,3)] obtain d' e where
    run: "evict_authority a d = Some d'" and e: "e \<le> gc_round d"
    and last: "\<And>r. r \<in> set (ds_recent_refs_by_authority d ! a) \<Longrightarrow>
        e < br_round (last (ds_recent_refs_by_authority d ! a))"
    and m: "\<And>r. map_of (ds_recent_blocks d') r =
        (if br_author r = a \<and> br_round r \<le> e then None else map_of (ds_recent_blocks d) r)"
    and bm: "bmap_wf (ds_recent_blocks d')"
    and refs: "ds_recent_refs_by_authority d' = (ds_recent_refs_by_authority d)
        [a := filter (\<lambda>r. e < br_round r) (ds_recent_refs_by_authority d ! a)]"
    and evicted: "ds_evicted_rounds d' = (ds_evicted_rounds d)[a := e]"
    and d': "d' = d\<lparr>ds_recent_blocks := ds_recent_blocks d',
        ds_recent_refs_by_authority := ds_recent_refs_by_authority d',
        ds_evicted_rounds := ds_evicted_rounds d'\<rparr>" by blast
  have f: "ds_context d' = ds_context d" "ds_store d' = ds_store d" "ds_genesis d' = ds_genesis d"
    "ds_blocks_to_write d' = []" "ds_last_commit d' = ds_last_commit d"
    "ds_threshold_clock d' = ds_threshold_clock d" "ds_cached_rounds d' = ds_cached_rounds d"
    "ds_last_committed_rounds d' = ds_last_committed_rounds d"
    using assms(2) by (subst d', simp)+
  have v: "cache_view d' r = (if br_author r = a \<and> br_round r \<le> e then None else cache_view d r)" for r
    by (simp add: cache_view_def m)
  have rw: "recent_wf d" and cw: "cache_wf d" using assms(1) by (simp_all add: dag_wf_def)
  have nth: "ds_recent_refs_by_authority d' ! i = (if i = a
      then filter (\<lambda>r. e < br_round r) (ds_recent_refs_by_authority d ! a)
      else ds_recent_refs_by_authority d ! i)" for i
    using rw assms(3) by (auto simp: refs recent_wf_def nth_list_update)
  have set_a: "set (ds_recent_refs_by_authority d ! a) = {r. cache_view d r \<noteq> None \<and> br_author r = a}"
    and sorted_a: "bset_wf (ds_recent_refs_by_authority d ! a)"
    using rw assms(3) by (simp_all add: recent_wf_view)
  have "recent_wf d'"
    unfolding recent_wf_view f nth v
    using rw bm assms(3) set_a by (auto simp: recent_wf_view refs sorted_wrt_filter)
  moreover have "cache_wf d'"
  proof -
    have cov: "\<exists>l\<in>set (ds_recent_refs_by_authority d' ! br_author r). br_round r \<le> br_round l"
      if r: "read_block (ds_store d) r = Some b" for r b
    proof -
      from r cw obtain l where l: "l \<in> set (ds_recent_refs_by_authority d ! br_author r)"
        "br_round r \<le> br_round l" unfolding cache_wf_def by blast
      show ?thesis
      proof (cases "br_author r = a")
        case True
        let ?l = "last (ds_recent_refs_by_authority d ! a)"
        have "l \<le> ?l" using bset_last_max [OF sorted_a] l(1) True by simp
        then have "br_round r \<le> br_round ?l" using block_ref_le_round l(2) order_trans by blast
        moreover have "?l \<in> set (ds_recent_refs_by_authority d' ! a)"
          using l(1) True last [of l] last_in_set [of "ds_recent_refs_by_authority d ! a"]
          by (cases "ds_recent_refs_by_authority d ! a = []") (auto simp: nth)
        ultimately show ?thesis using True by blast
      qed (use l nth in auto)
    qed
    show ?thesis using cw cov unfolding cache_wf_view f v by (auto simp: assms(2))
  qed
  ultimately have wf: "dag_wf d'" using assms(1) f evicted unfolding dag_wf_def by simp
  have "dag_lookup d' r = dag_lookup d r" for r
    using cw unfolding dag_lookup_view f v cache_wf_view
    by (cases "cache_view d r") (auto simp: assms(2))
  moreover have "gc_round d' = gc_round d"
    by (simp add: gc_round_def last_commit_round_def calculate_gc_round_def f)
  ultimately show ?thesis using run wf f m e by (intro exI [of _ d']) (auto simp: fun_eq_iff)
qed

lemma evict_authorities_correct:
  assumes "dag_wf d" and "ds_blocks_to_write d = []"
    and "\<forall>a\<in>set as. a < committee_size (ds_committee d)"
  shows "\<exists>d'. for_each evict_authority as d = Some d' \<and> dag_wf d' \<and> dag_lookup d' = dag_lookup d
     \<and> ds_blocks_to_write d' = [] \<and> gc_round d' = gc_round d \<and> ds_context d' = ds_context d
     \<and> (\<forall>r. gc_round d < br_round r \<longrightarrow> map_of (ds_recent_blocks d') r = map_of (ds_recent_blocks d) r)"
  using assms
proof (induction as arbitrary: d)
  case Nil
  then show ?case by simp
next
  case (Cons a as)
  from evict_authority_correct [OF Cons.prems(1,2), of a] Cons.prems(3) obtain d1 where
    d1: "evict_authority a d = Some d1" "dag_wf d1" "dag_lookup d1 = dag_lookup d"
      "ds_blocks_to_write d1 = []" "gc_round d1 = gc_round d" "ds_context d1 = ds_context d"
      "\<forall>r. gc_round d < br_round r \<longrightarrow> map_of (ds_recent_blocks d1) r = map_of (ds_recent_blocks d) r"
    by auto
  from Cons.IH [OF d1(2,4)] Cons.prems(3) d1 show ?case by auto
qed

lemma flush_correct:
  assumes "dag_wf d"
  shows "\<exists>d'. flush d = Some d' \<and> dag_wf d' \<and> dag_lookup d' = dag_lookup d
     \<and> ds_blocks_to_write d' = [] \<and> gc_round d' = gc_round d \<and> ds_context d' = ds_context d
     \<and> (\<forall>r. gc_round d < br_round r \<longrightarrow> map_of (ds_recent_blocks d') r = map_of (ds_recent_blocks d) r)"
proof (cases "ds_blocks_to_write d = [] \<and> ds_commits_to_write d = [] \<and> ds_commit_info_to_write d = []
    \<and> ds_finalized_commits_to_write d = []")
  case True
  then show ?thesis using assms by (simp add: flush_def)
next
  case False
  have com: "committee_wf (ds_committee d)" using assms by (simp add: dag_wf_def)
  have as: "\<forall>a\<in>set (map fst (authorities (ds_committee d))). a < committee_size (ds_committee (write_buffers d))"
    unfolding authorities_indices [OF com] by simp
  from evict_authorities_correct [OF write_buffers_wf [OF assms] _ as] obtain d2 where
    d2: "for_each evict_authority (map fst (authorities (ds_committee d))) (write_buffers d) = Some d2"
      "dag_wf d2" "dag_lookup d2 = dag_lookup d" "ds_blocks_to_write d2 = []" "gc_round d2 = gc_round d" "ds_context d2 = ds_context d"
      "\<forall>r. gc_round d < br_round r \<longrightarrow> map_of (ds_recent_blocks d2) r = map_of (ds_recent_blocks d) r"
    using write_buffers_lookup [OF assms] by auto
  have "flush d = Some (evict_round_info d2)"
    using d2(1) unfolding flush_def if_not_P [OF False] Let_def by (simp add: write_buffers_def)
  moreover have ann: "annotates d2 (evict_round_info d2)"
    by (simp add: annotates_def same_blocks_def cache_view_def evict_round_info_def fun_eq_iff)
  ultimately show ?thesis
    using d2 annotates_wf [OF ann] annotates_lookup [OF ann] annotates_gc [OF ann]
    by (simp add: evict_round_info_def)
qed

subsection \<open>A fresh DAG state\<close>

definition initial_dag :: "nat \<Rightarrow> consensus_context \<Rightarrow> verified_block list \<Rightarrow> dag_state" where
  "initial_dag now ctx gblocks = (
     let n = committee_size (ctx_committee ctx) in
     \<lparr>ds_context = ctx, ds_genesis = fold (\<lambda>b. bmap_insert (reference b) b) gblocks [],
      ds_recent_blocks = [], ds_recent_refs_by_authority = replicate n [], ds_round_info = [],
      ds_threshold_clock = ThresholdClock_new 1 ctx now, ds_evicted_rounds = replicate n 0,
      ds_highest_accepted_round = 0, ds_last_commit = None,
      ds_last_commit_round_advancement_time = None, ds_last_committed_rounds = replicate n 0,
      ds_scoring_subdag = ScoringSubdag_new ctx, ds_pending_commit_votes = [],
      ds_blocks_to_write = [], ds_commits_to_write = [], ds_commit_info_to_write = [],
      ds_finalized_commits_to_write = [], ds_store = MemStore_new,
      ds_cached_rounds = as_u32 (dag_state_cached_rounds (ctx_parameters ctx))\<rparr>)"

lemma initial_dag_fields [simp]:
  "ds_context (initial_dag now ctx gs) = ctx"
  "ds_genesis (initial_dag now ctx gs) = fold (\<lambda>b. bmap_insert (reference b) b) gs []"
  "ds_recent_blocks (initial_dag now ctx gs) = []"
  "ds_recent_refs_by_authority (initial_dag now ctx gs) = replicate (committee_size (ctx_committee ctx)) []"
  "ds_threshold_clock (initial_dag now ctx gs) = ThresholdClock_new 1 ctx now"
  "ds_evicted_rounds (initial_dag now ctx gs) = replicate (committee_size (ctx_committee ctx)) 0"
  "ds_last_commit (initial_dag now ctx gs) = None"
  "ds_last_committed_rounds (initial_dag now ctx gs) = replicate (committee_size (ctx_committee ctx)) 0"
  "ds_blocks_to_write (initial_dag now ctx gs) = []"
  "ds_store (initial_dag now ctx gs) = MemStore_new"
  "ds_cached_rounds (initial_dag now ctx gs) = as_u32 (dag_state_cached_rounds (ctx_parameters ctx))"
  by (simp_all add: initial_dag_def Let_def)

lemma genesis_blocks_refs:
  assumes "committee_wf (ctx_committee ctx)" and "genesis_blocks cr ctx = Some gs"
  shows "map vb_author gs = [0..<committee_size (ctx_committee ctx)] \<and> (\<forall>b\<in>set gs. vb_round b = 0)"
proof -
  have gen: "list_all2 (\<lambda>a b. vb_author b = fst a \<and> vb_round b = 0)
      (authorities (ctx_committee ctx)) gs"
    using assms(2) unfolding genesis_blocks_def map_opt_Some
    by (rule list_all2_mono)
       (auto simp: Let_def panic_simps new_verified_def vb_inner_def SignedBlock_new_genesis_def
          genesis_block_v1_def genesis_block_v2_def GENESIS_ROUND_def split: if_splits)
  then have "map vb_author gs = map fst (authorities (ctx_committee ctx))"
    by (induction rule: list_all2_induct) auto
  moreover have "\<forall>b\<in>set gs. vb_round b = 0"
    using gen by (induction rule: list_all2_induct) auto
  ultimately show ?thesis by (simp add: authorities_indices [OF assms(1)])
qed

lemma initial_dag_wf:
  assumes "committee_wf (ctx_committee ctx)" and "genesis_blocks cr ctx = Some gs"
    and "0 < as_u32 (dag_state_cached_rounds (ctx_parameters ctx))"
  shows "dag_wf (initial_dag now ctx gs)"
proof -
  let ?d = "initial_dag now ctx gs"
  note g = genesis_blocks_refs [OF assms(1,2)]
  have "inj_on vb_author (set gs)"
    using g by (metis distinct_map distinct_upt)
  then have inj: "inj_on reference (set gs)"
    by (metis (no_types, lifting) br_author_reference inj_on_def)
  let ?g = "fold (\<lambda>b. bmap_insert (reference b) b) gs []"
  have look: "map_of ?g r = None" if "r \<notin> reference ` set gs" for r
    using bmap.lookup_insert_all_other [where key = reference and val = "\<lambda>b. b" and m = "[]", OF that]
    by simp
  have look2: "map_of ?g (reference b) = Some b" if "b \<in> set gs" for b
    by (rule bmap.lookup_insert_all_consistent [where key = reference and val = "\<lambda>b. b"])
       (use inj that in \<open>auto dest: inj_onD\<close>)
  have gen: "br_round r = 0 \<and> reference b = r" if "map_of ?g r = Some b" for r b
  proof -
    from that look have "r \<in> reference ` set gs" by fastforce
    then obtain x where "x \<in> set gs" "r = reference x" by auto
    with look2 that g show ?thesis by auto
  qed
  have wf_g: "bmap_wf ?g"
    by (rule bmap.invar_insert_all [where key = reference and val = "\<lambda>b. b"]) simp
  have all: "\<exists>r\<in>fst ` set ?g. br_author r = a" if "a < committee_size (ctx_committee ctx)" for a
  proof -
    from that g have "a \<in> set (map vb_author gs)" by simp
    then obtain b where b: "b \<in> set gs" "vb_author b = a" by auto
    with look2 have "(reference b, b) \<in> set ?g" by (auto dest: map_of_SomeD)
    with b(2) show ?thesis by (intro bexI [of _ "reference b"]) force+
  qed
  have parts: "recent_wf ?d" "cache_wf ?d" "clock_wf (ThresholdClock_new 1 ctx now)"
    by (simp_all add: recent_wf_def cache_wf_def read_block_def MemStore_new_def store_wf_def
        clock_wf_new assms(1))
  have gen_all: "\<forall>r b. map_of ?g r = Some b \<longrightarrow> br_round r = 0 \<and> reference b = r"
    using gen by blast
  have authors: "\<forall>a<committee_size (ctx_committee ctx). \<exists>r\<in>fst ` set ?g. br_author r = a"
    using all by blast
  show ?thesis
    unfolding dag_wf_def initial_dag_fields length_replicate
    by (intro conjI) (fact assms(1,3) parts wf_g gen_all authors refl | simp add: ThresholdClock_new_def)+
qed

lemma recover_authority_fresh:
  assumes "ds_store d = MemStore_new" and "ds_last_commit d = None" and "a < length (ds_evicted_rounds d)"
    and "ds_evicted_rounds d ! a = 0"
  shows "recover_authority a ([], d) = Some ([], d)"
proof -
  have "ds_evicted_rounds d = (ds_evicted_rounds d)[a := 0]"
    using assms(3,4) by (metis list_update_id)
  then have "d\<lparr>ds_evicted_rounds := (ds_evicted_rounds d)[a := 0]\<rparr> = d" by simp
  with assms show ?thesis
    by (simp add: recover_authority_def scan_last_blocks_by_author_def scan_blocks_by_author_def
        scan_blocks_by_author_in_range_def MemStore_new_def read_blocks_def bset_last_def
        gc_round_def last_commit_round_def calculate_gc_round_def eviction_round_def GENESIS_ROUND_def
        u32_add_def u32_max_def vec_set_def)
qed

lemma DagState_new_fresh:
  assumes "committee_wf (ctx_committee ctx)" and "genesis_blocks cr ctx = Some gs"
  shows "DagState_new cr now ctx MemStore_new = Some (initial_dag now ctx gs)"
proof -
  let ?d = "initial_dag now ctx gs"
  have "for_each recover_authority as ([], ?d) = Some ([], ?d)"
    if "\<forall>a\<in>set as. a < committee_size (ctx_committee ctx)" for as
    using that
  proof (induction as)
    case (Cons a as)
    have "recover_authority a ([], ?d) = Some ([], ?d)"
      using Cons.prems by (intro recover_authority_fresh) (simp_all add: initial_dag_def Let_def)
    with Cons show ?case by simp
  qed simp
  then have rec: "for_each recover_authority (map fst (authorities (ctx_committee ctx))) ([], ?d) = Some ([], ?d)"
    unfolding authorities_indices [OF assms(1)] by simp
  have gc: "gc_round ?d = 0"
    by (simp add: initial_dag_def Let_def gc_round_def last_commit_round_def calculate_gc_round_def)
  show ?thesis
    using rec gc assms(2) unfolding DagState_new_def
    by (simp add: read_last_commit_def read_last_commit_info_def MemStore_new_def bset_last_def
        add_subdags_def GENESIS_COMMIT_INDEX_def u32_add_def u32_max_def scan_blocks_by_author_def
        scan_blocks_by_author_in_range_def read_blocks_def)
       (simp add: initial_dag_def Let_def MemStore_new_def u32_max_def)
qed

subsection \<open>What callers rely on\<close>

text \<open>
  C29. The existence check is exact: for references of committee members, \<open>contains_blocks\<close>
  answers without panicking whether \<open>get_blocks\<close> finds the block, although it skips the store for
  references newer than everything cached of their author.
\<close>

theorem contains_blocks_agrees_with_get_blocks:
  assumes "dag_wf d" and "\<forall>r\<in>set refs. is_valid_index (ds_committee d) (br_author r)"
  shows "contains_blocks d refs = Some (map (\<lambda>b. b \<noteq> None) (get_blocks d refs))"
  using contains_blocks_eq [OF assms(1), of refs] assms(2)
  by (simp add: get_blocks_eq is_valid_index_def comp_def)

definition sample_genesis :: "verified_block list" where
  "sample_genesis = map (\<lambda>a. new_verified sample_crypto
     (SignedBlock_new_genesis (V2 (genesis_block_v2 sample_context a))) [0, of_nat a, 0]) [0..<4]"

definition sample_dag :: dag_state where
  "sample_dag = initial_dag 0 sample_context sample_genesis"

lemma sample_genesis_blocks: "genesis_blocks sample_crypto sample_context = Some sample_genesis"
proof -
  let ?f = "\<lambda>a. new_verified sample_crypto
     (SignedBlock_new_genesis (V2 (genesis_block_v2 sample_context a))) [0, of_nat a, 0]"
  have "genesis_blocks sample_crypto sample_context
      = Some (map (\<lambda>p. ?f (fst p)) (authorities (ctx_committee sample_context)))"
    unfolding genesis_blocks_def
    by (rule map_opt_total)
       (auto simp: Let_def sample_config_def SignedBlock_new_genesis_def sample_crypto_def
          genesis_block_v2_def GENESIS_ROUND_def)
  also have "map (\<lambda>p. ?f (fst p)) (authorities (ctx_committee sample_context))
      = map ?f (map fst (authorities (ctx_committee sample_context)))" by simp
  also have "\<dots> = sample_genesis"
    using sample_committee_wf by (simp only: authorities_indices sample_context_fields
        sample_committee_size sample_genesis_def)
  finally show ?thesis .
qed

lemma sample_cached_rounds: "as_u32 (dag_state_cached_rounds (ctx_parameters sample_context)) = 5"
  by (simp add: sample_context_def Context_new_def as_u32_def u32_max_def)

lemma sample_dag_wf: "dag_wf sample_dag"
  unfolding sample_dag_def
  by (rule initial_dag_wf [OF _ sample_genesis_blocks])
     (simp_all add: sample_committee_wf sample_cached_rounds)

lemma sample_dag_fields [simp]: "ds_context sample_dag = sample_context"
  by (simp add: sample_dag_def)

lemma sample_dag_lookup: "0 < br_round r \<Longrightarrow> dag_lookup sample_dag r = None"
  by (simp add: dag_lookup_def sample_dag_def GENESIS_ROUND_def read_block_def MemStore_new_def)

theorem contains_blocks_agrees_with_get_blocks_witness:
  "contains_blocks sample_dag [BlockRef 1 2 0, BlockRef 3 0 7] = Some [False, False]"
  using contains_blocks_agrees_with_get_blocks [OF sample_dag_wf, of "[BlockRef 1 2 0, BlockRef 3 0 7]"]
  by (simp add: is_valid_index_def get_blocks_eq sample_dag_lookup)

text \<open>
  C30. Accepting a block: a block of a committee member in a round between genesis and the
  maximal round is accepted without panic (unless it equivocates in the authority's own slot),
  the invariant is kept, the block can be read back under its reference, and no other reference
  changes, so an accepted block never disappears or changes.
\<close>

theorem accept_block_adds_exactly_the_block:
  assumes "dag_wf d" and "0 < vb_round b" and "vb_round b < u32_max"
    and "is_valid_index (ds_committee d) (vb_author b)"
    and "\<not> enable_v3 (protocol_config (ds_context d))"
    and "vb_author b = own_index (ds_context d) \<Longrightarrow>
           get_uncommitted_blocks_at_slot d (slot_of_ref (reference b)) = []"
  shows "\<exists>d'. accept_block now b d = Some d' \<and> dag_wf d'
     \<and> (get_block d (reference b) = Some None \<longrightarrow> get_block d' (reference b) = Some (Some b))
     \<and> (\<forall>r. r \<noteq> reference b \<or> get_block d r \<noteq> Some None \<longrightarrow> get_block d' r = get_block d r)"
proof -
  have a: "vb_author b < committee_size (ds_committee d)" using assms(4) by (simp add: is_valid_index_def)
  from accept_block_total [OF assms(1-3) a assms(5)] assms(6) obtain d' where
    d': "accept_block now b d = Some d'" by blast
  from accept_block_lookup [OF assms(1) d' a] show ?thesis
    using d' by (intro exI [of _ d']) (auto simp: get_block_eq)
qed

theorem accept_block_adds_exactly_the_block_witness:
  "\<exists>d'. accept_block 3 (sample_vblock 1 2 []) sample_dag = Some d'
      \<and> get_block d' (sample_ref 1 2) = Some (Some (sample_vblock 1 2 []))"
  using accept_block_adds_exactly_the_block [OF sample_dag_wf, of "sample_vblock 1 2 []" 3]
  by (auto simp: is_valid_index_def u32_max_def sample_config_def get_block_eq sample_dag_lookup)

text \<open>
  C31. Flushing loses nothing: it always succeeds on a well-formed state, leaves every read of a
  block as it was although it evicts blocks from the cache, empties the block buffer, keeps the
  invariant, and keeps every cached block above the garbage collection round in the cache with
  its annotations.
\<close>

theorem flush_preserves_blocks:
  assumes "dag_wf d"
  shows "\<exists>d'. flush d = Some d' \<and> dag_wf d' \<and> ds_blocks_to_write d' = []
     \<and> get_blocks d' refs = get_blocks d refs
     \<and> (\<forall>r. gc_round d < br_round r \<longrightarrow> map_of (ds_recent_blocks d') r = map_of (ds_recent_blocks d) r)"
  using flush_correct [OF assms] by (auto simp: get_blocks_eq)

theorem flush_preserves_blocks_witness:
  "\<exists>d'. flush sample_dag = Some d' \<and> get_blocks d' [BlockRef 1 2 0] = [None]"
  using flush_preserves_blocks [OF sample_dag_wf, of "[BlockRef 1 2 0]"]
  by (auto simp: get_blocks_eq sample_dag_lookup)

end
