(* ===== verification/Leader_Schedule.thy ===== *)
theory Leader_Schedule
  imports Dag_Flush "HOL-Library.Multiset"
begin

section \<open>The leader schedule\<close>

text \<open>
  Model of \<open>consensus/src/leader_schedule.rs\<close>: the stake-weighted election of a leader per
  round, and the swap table that replaces authorities of low reputation by ones of high
  reputation. The random generator of the crate \<open>rand\<close> is the parameter \<open>rng_lib\<close>: the
  functions take the seed the code builds. The weights of the weighted choice are the stakes;
  the code converts them to \<open>f32\<close> on the way into the library.
\<close>

subsection \<open>The random generator\<close>

record rng_lib =
  rng_shuffle :: "bytes \<Rightarrow> (authority_index \<times> nat) list \<Rightarrow> (authority_index \<times> nat) list"
  rng_choose :: "bytes \<Rightarrow> (authority_index \<times> string \<times> stake) list \<Rightarrow> (authority_index \<times> string \<times> stake) option"
  rng_choose_multiple_weighted ::
    "bytes \<Rightarrow> (authority_index \<times> stake) list \<Rightarrow> nat \<Rightarrow> string + (authority_index \<times> stake) list"

text \<open>What the documentation of \<open>rand\<close> promises: \<open>shuffle\<close> permutes, \<open>choose\<close> returns an element
  unless the slice is empty, and \<open>choose_multiple_weighted\<close> draws without replacement the
  requested number of elements as long as there are that many and some weight is positive.\<close>

definition rng_ok :: "rng_lib \<Rightarrow> bool" where
  "rng_ok rng \<longleftrightarrow>
     (\<forall>seed xs. mset (rng_shuffle rng seed xs) = mset xs)
   \<and> (\<forall>seed. rng_choose rng seed [] = None)
   \<and> (\<forall>seed xs. xs \<noteq> [] \<longrightarrow> (\<exists>x\<in>set xs. rng_choose rng seed xs = Some x))
   \<and> (\<forall>seed xs n. n \<le> length xs \<longrightarrow> (\<exists>p\<in>set xs. 0 < snd p) \<longrightarrow>
        (\<exists>ys. rng_choose_multiple_weighted rng seed xs n = Inr ys \<and> length ys = n
           \<and> mset ys \<subseteq># mset xs))"

definition to_le_bytes :: "nat \<Rightarrow> bytes" where
  "to_le_bytes n = map (\<lambda>i. of_nat (n div 256 ^ i)) [0..<4]"

subsection \<open>The swap table\<close>

record leader_swap_table =
  good_nodes :: "(authority_index \<times> string \<times> stake) list"
  bad_nodes :: "(authority_index \<times> string \<times> stake) list"
  swap_scores :: reputation_scores

definition LeaderSwapTable_default :: leader_swap_table where
  "LeaderSwapTable_default =
     \<lparr>good_nodes = [], bad_nodes = [], swap_scores = ReputationScores_default\<rparr>"

text \<open>The loop of \<open>retrieve_first_nodes\<close>, with the accumulated stake.\<close>

fun first_nodes ::
    "committee \<Rightarrow> nat \<Rightarrow> stake \<Rightarrow> (authority_index \<times> nat) list \<Rightarrow> (authority_index \<times> string \<times> stake) list option" where
  "first_nodes c threshold stake [] = Some []"
| "first_nodes c threshold stake ((a, score) # rest) = do {
     s \<leftarrow> committee_stake c a;
     stake' \<leftarrow> u64_add stake s;
     scaled \<leftarrow> u64_mul threshold (total_stake c);
     (if stake' > scaled div 100 then Some []
      else do {
        auth \<leftarrow> committee_authority c a;
        nodes \<leftarrow> first_nodes c threshold stake' rest;
        Some ((a, auth_hostname auth, auth_stake auth) # nodes)
      })
   }"

definition retrieve_first_nodes ::
    "committee \<Rightarrow> (authority_index \<times> nat) list \<Rightarrow> nat \<Rightarrow> (authority_index \<times> string \<times> stake) list option" where
  "retrieve_first_nodes c auths stake_threshold = first_nodes c stake_threshold 0 auths"

definition new_inner ::
    "rng_lib \<Rightarrow> consensus_context \<Rightarrow> nat \<Rightarrow> commit_index \<Rightarrow> reputation_scores \<Rightarrow> leader_swap_table option" where
  "new_inner rng ctx swap_stake_threshold commit_index scores = do {
     rassert (swap_stake_threshold \<le> 33);
     if scores_per_authority scores = [] then Some LeaderSwapTable_default
     else do {
       let seed = replicate 28 0 @ to_le_bytes commit_index;
       by_score \<leftarrow> authorities_by_score (ctx_committee ctx) scores;
       rassert (length by_score = committee_size (ctx_committee ctx));
       let sorted = sort_key (\<lambda>p. - int (snd p)) (rng_shuffle rng seed by_score);
       good \<leftarrow> retrieve_first_nodes (ctx_committee ctx) sorted swap_stake_threshold;
       bad \<leftarrow> retrieve_first_nodes (ctx_committee ctx) (rev sorted) swap_stake_threshold;
       Some \<lparr>good_nodes = good, bad_nodes = fold (\<lambda>(a, x). bmap_insert a x) bad [], swap_scores = scores\<rparr>
     }
   }"

definition LeaderSwapTable_new ::
    "rng_lib \<Rightarrow> consensus_context \<Rightarrow> commit_index \<Rightarrow> reputation_scores \<Rightarrow> leader_swap_table option" where
  "LeaderSwapTable_new rng ctx commit_index scores =
     new_inner rng ctx (bad_nodes_stake_threshold (protocol_config ctx)) commit_index scores"

definition swap ::
    "rng_lib \<Rightarrow> leader_swap_table \<Rightarrow> authority_index \<Rightarrow> round \<Rightarrow> nat \<Rightarrow> authority_index option option" where
  "swap rng t leader leader_round leader_offset =
     (if map_of (bad_nodes t) leader \<noteq> None then do {
        rassert (leader_offset = 0);
        let seed = replicate 24 0 @ to_le_bytes leader_round @ to_le_bytes leader_offset;
        (idx, _, _) \<leftarrow> rng_choose rng seed (good_nodes t);
        Some (Some idx)
      } else Some None)"

subsection \<open>The schedule\<close>

record leader_schedule =
  ls_swap_table :: leader_swap_table
  ls_context :: consensus_context
  num_commits_per_schedule :: nat

definition CONSENSUS_COMMITS_PER_SCHEDULE :: nat where
  "CONSENSUS_COMMITS_PER_SCHEDULE = 300"

definition LeaderSchedule_new :: "consensus_context \<Rightarrow> leader_swap_table \<Rightarrow> leader_schedule" where
  "LeaderSchedule_new ctx t = \<lparr>ls_swap_table = t, ls_context = ctx,
     num_commits_per_schedule = CONSENSUS_COMMITS_PER_SCHEDULE\<rparr>"

definition from_store :: "rng_lib \<Rightarrow> consensus_context \<Rightarrow> dag_state \<Rightarrow> leader_schedule option" where
  "from_store rng ctx d = do {
     table \<leftarrow> (case recover_last_commit_info d of
        None \<Rightarrow> Some LeaderSwapTable_default
      | Some (last_commit_ref, last_commit_info) \<Rightarrow>
          LeaderSwapTable_new rng ctx (cr_index last_commit_ref) (ci_reputation_scores last_commit_info));
     _ \<leftarrow> scoring_subdags_count d;
     Some (LeaderSchedule_new ctx table)
   }"

definition commits_until_leader_schedule_update :: "leader_schedule \<Rightarrow> dag_state \<Rightarrow> nat option" where
  "commits_until_leader_schedule_update ls d = do {
     subdag_count \<leftarrow> scoring_subdags_count d;
     rassert (subdag_count \<le> num_commits_per_schedule ls);
     checked_sub (num_commits_per_schedule ls) subdag_count
   }"

definition update_leader_swap_table :: "leader_swap_table \<Rightarrow> leader_schedule \<Rightarrow> leader_schedule option" where
  "update_leader_swap_table table ls = do {
     let old = scores_commit_range (swap_scores (ls_swap_table ls));
     let new = scores_commit_range (swap_scores table);
     (if old \<noteq> CommitRange 0 0 then
        (if is_next_range old new then do { eq \<leftarrow> is_equal_size old new; rassert eq } else None)
      else Some ());
     Some (ls\<lparr>ls_swap_table := table\<rparr>)
   }"

definition update_leader_schedule_v2 ::
    "rng_lib \<Rightarrow> leader_schedule \<Rightarrow> dag_state \<Rightarrow> (leader_schedule \<times> dag_state) option" where
  "update_leader_schedule_v2 rng ls d = do {
     scores \<leftarrow> calculate_scoring_subdag_scores d;
     last_commit_index \<leftarrow> scoring_subdag_commit_range d;
     d' \<leftarrow> add_commit_info scores (clear_scoring_subdag d);
     table \<leftarrow> LeaderSwapTable_new rng (ls_context ls) last_commit_index scores;
     ls' \<leftarrow> update_leader_swap_table table ls;
     scores_update_metrics (ctx_committee (ls_context ls)) scores;
     Some (ls', d')
   }"

definition elect_leader_stake_based :: "rng_lib \<Rightarrow> leader_schedule \<Rightarrow> round \<Rightarrow> nat \<Rightarrow> authority_index option" where
  "elect_leader_stake_based rng ls round offset = do {
     let c = ctx_committee (ls_context ls);
     rassert (offset < committee_size c);
     let seed = replicate 28 0 @ to_le_bytes round;
     let choices = map (\<lambda>(index, auth). (index, auth_stake auth)) (authorities c);
     chosen \<leftarrow> expect_ok (rng_choose_multiple_weighted rng seed choices (committee_size c));
     map_option fst (bset_first (drop offset chosen))
   }"

definition elect_leader :: "rng_lib \<Rightarrow> leader_schedule \<Rightarrow> round \<Rightarrow> nat \<Rightarrow> authority_index option" where
  "elect_leader rng ls round leader_offset = do {
     leader \<leftarrow> elect_leader_stake_based rng ls round leader_offset;
     swapped \<leftarrow> swap rng (ls_swap_table ls) leader round leader_offset;
     Some (case swapped of None \<Rightarrow> leader | Some l \<Rightarrow> l)
   }"

subsection \<open>Selecting nodes up to a stake\<close>

text \<open>The selected nodes are the longest prefix that stays within the share of the stake.\<close>

lemma first_nodes_prefix:
  assumes "committee_wf c" and "threshold * total_stake c \<le> u64_max"
    and "\<forall>p\<in>set xs. fst p < committee_size c"
    and "stake + sum_list (map (\<lambda>p. stake_at c (fst p)) xs) \<le> u64_max"
  shows "\<exists>n\<le>length xs. first_nodes c threshold stake xs
           = Some (map (\<lambda>p. (fst p, auth_hostname (committee_authorities c ! fst p), stake_at c (fst p))) (take n xs))
     \<and> (n = 0 \<or> stake + sum_list (map (\<lambda>p. stake_at c (fst p)) (take n xs)) \<le> threshold * total_stake c div 100)
     \<and> (n < length xs \<longrightarrow>
          threshold * total_stake c div 100 < stake + sum_list (map (\<lambda>p. stake_at c (fst p)) (take (Suc n) xs)))"
  using assms(3,4)
proof (induction xs arbitrary: stake)
  case (Cons p xs)
  obtain a score where p: "p = (a, score)" by force
  let ?limit = "threshold * total_stake c div 100" and ?stake = "stake + stake_at c a"
  have a: "a < committee_size c" using Cons.prems(1) p by simp
  have eq: "first_nodes c threshold stake (p # xs) = (if ?stake > ?limit then Some []
      else do { nodes \<leftarrow> first_nodes c threshold ?stake xs;
                Some ((a, auth_hostname (committee_authorities c ! a), stake_at c a) # nodes) })"
    using a assms(2) Cons.prems(2) p
    by (simp add: committee_stake_valid is_valid_index_def u64_add_def u64_mul_def committee_authority_def
        vec_get_def committee_size_def stake_at_def)
  show ?case
  proof (cases "?stake > ?limit")
    case True
    then show ?thesis using eq p by (intro exI [of _ 0]) simp
  next
    case False
    have "\<forall>p\<in>set xs. fst p < committee_size c" "?stake + sum_list (map (\<lambda>p. stake_at c (fst p)) xs) \<le> u64_max"
      using Cons.prems p by simp_all
    from Cons.IH [OF this] obtain n where n: "n \<le> length xs"
      "first_nodes c threshold ?stake xs
         = Some (map (\<lambda>p. (fst p, auth_hostname (committee_authorities c ! fst p), stake_at c (fst p))) (take n xs))"
      "n = 0 \<or> ?stake + sum_list (map (\<lambda>p. stake_at c (fst p)) (take n xs)) \<le> ?limit"
      "n < length xs \<longrightarrow> ?limit < ?stake + sum_list (map (\<lambda>p. stake_at c (fst p)) (take (Suc n) xs))"
      by blast
    then show ?thesis using False eq p by (intro exI [of _ "Suc n"]) (auto simp: add.assoc)
  qed
qed simp

lemma sum_list_take_drop_less:
  fixes f :: "'a \<Rightarrow> nat"
  assumes "sum_list (map f (take n xs)) + sum_list (map f (drop m xs)) < sum_list (map f xs)"
  shows "n \<le> m"
proof (rule ccontr)
  assume "\<not> n \<le> m"
  then have "take n xs = take m xs @ drop m (take n xs)"
    by (metis append_take_drop_id min.absorb1 nat_le_linear take_take)
  then have "sum_list (map f (take m xs)) \<le> sum_list (map f (take n xs))"
    by (metis le_add1 map_append sum_list_append)
  moreover have "sum_list (map f (take m xs)) + sum_list (map f (drop m xs)) = sum_list (map f xs)"
    by (metis append_take_drop_id map_append sum_list_append)
  ultimately show False using assms by linarith
qed

lemma keys_fold_insert:
  "fst ` set (fold (\<lambda>(a, x). bmap_insert a x) xs m) = fst ` set xs \<union> fst ` set m"
  by (induction xs arbitrary: m) (auto simp: split_beta)

lemma authorities_by_score_eq:
  assumes "committee_wf c" and "length (scores_per_authority s) = committee_size c"
  shows "authorities_by_score c s = Some (enumerate 0 (scores_per_authority s))"
proof -
  have "map_opt (\<lambda>(index, score). do { i \<leftarrow> to_authority_index c index; Some (i, score) })
      (enumerate 0 (scores_per_authority s)) = Some (map (\<lambda>p. p) (enumerate 0 (scores_per_authority s)))"
    using assms
    by (intro map_opt_total)
       (auto simp: in_set_enumerate_eq to_authority_index_def committee_size_def committee_wf_def as_u32_id)
  then show ?thesis by (simp add: authorities_by_score_def)
qed

text \<open>A sorted permutation of the scored authorities lists every member once, with its score.\<close>

lemma scored_permutation:
  assumes "mset xs = mset (enumerate 0 scores)" and "length scores = committee_size c"
  shows "distinct (map fst xs)" and "fst ` set xs = members c"
    and "\<And>p. p \<in> set xs \<Longrightarrow> snd p = scores ! fst p \<and> fst p < committee_size c"
    and "sum_list (map (\<lambda>p. stake_at c (fst p)) xs) = stake_of c (members c)"
proof -
  have "mset (map fst xs) = mset (map fst (enumerate 0 scores))" using assms(1) by (metis mset_map)
  then have fsts: "mset (map fst xs) = mset [0..<committee_size c]"
    by (simp only: map_fst_enumerate assms(2) add_0)
  then show dist: "distinct (map fst xs)" by (metis distinct_upt mset_eq_imp_distinct_iff)
  have "set (map fst xs) = set [0..<committee_size c]" using fsts by (metis set_mset_mset)
  then show keys: "fst ` set xs = members c" by (auto simp: members_def)
  have "set xs = set (enumerate 0 scores)" using assms(1) by (metis set_mset_mset)
  then show "snd p = scores ! fst p \<and> fst p < committee_size c" if "p \<in> set xs" for p
    using that assms(2) by (cases p) (auto simp: in_set_enumerate_eq)
  show "sum_list (map (\<lambda>p. stake_at c (fst p)) xs) = stake_of c (members c)"
    using stake_of_list [OF dist, of c] keys by (simp add: comp_def)
qed

lemma stake_of_part:
  assumes "distinct (map fst xs)"
  shows "stake_of c (fst ` set xs) = sum_list (map (\<lambda>p. stake_at c (fst p)) xs)"
  using stake_of_list [OF assms, of c] by (simp add: comp_def)

lemma new_inner_split:
  assumes "rng_ok rng" and "committee_wf (ctx_committee ctx)" and "threshold \<le> 33"
    and "threshold * total_stake (ctx_committee ctx) \<le> u64_max"
    and "length (scores_per_authority scores) = committee_size (ctx_committee ctx)"
  shows "\<exists>t xs n m. new_inner rng ctx threshold commit_index scores = Some t \<and> swap_scores t = scores
     \<and> mset xs = mset (enumerate 0 (scores_per_authority scores)) \<and> sorted_wrt (\<lambda>p q. snd q \<le> snd p) xs
     \<and> n \<le> m \<and> m \<le> length xs
     \<and> map fst (good_nodes t) = map fst (take n xs) \<and> fst ` set (bad_nodes t) = fst ` set (drop m xs)
     \<and> sum_list (map (\<lambda>p. stake_at (ctx_committee ctx) (fst p)) (take n xs))
          \<le> threshold * total_stake (ctx_committee ctx) div 100
     \<and> sum_list (map (\<lambda>p. stake_at (ctx_committee ctx) (fst p)) (drop m xs))
          \<le> threshold * total_stake (ctx_committee ctx) div 100"
proof -
  let ?c = "ctx_committee ctx" and ?w = "\<lambda>p. stake_at (ctx_committee ctx) (fst p)"
  let ?limit = "threshold * total_stake ?c div 100"
  define xs where "xs = sort_key (\<lambda>p. - int (snd p))
    (rng_shuffle rng (replicate 28 0 @ to_le_bytes commit_index) (enumerate 0 (scores_per_authority scores)))"
  have perm: "mset xs = mset (enumerate 0 (scores_per_authority scores))"
    using assms(1) by (simp add: xs_def rng_ok_def)
  note part = scored_permutation [OF perm assms(5)]
  have len: "length xs = committee_size ?c" using perm assms(5) by (metis length_enumerate size_mset)
  have total: "total_stake ?c = stake_of ?c (members ?c)" "0 < total_stake ?c" "total_stake ?c \<le> u64_max"
    "committee_size ?c \<noteq> 0"
    using assms(2) by (auto simp: committee_wf_def committee_size_def)
  have "\<forall>p\<in>set xs. fst p < committee_size ?c" using part(3) by blast
  moreover have "0 + sum_list (map ?w xs) \<le> u64_max" using part(4) total by simp
  ultimately obtain n k where
    n: "n \<le> length xs" "first_nodes ?c threshold 0 xs
         = Some (map (\<lambda>p. (fst p, auth_hostname (committee_authorities ?c ! fst p), stake_at ?c (fst p))) (take n xs))"
      "n = 0 \<or> 0 + sum_list (map ?w (take n xs)) \<le> ?limit"
    and k: "k \<le> length (rev xs)" "first_nodes ?c threshold 0 (rev xs)
         = Some (map (\<lambda>p. (fst p, auth_hostname (committee_authorities ?c ! fst p), stake_at ?c (fst p))) (take k (rev xs)))"
      "k = 0 \<or> 0 + sum_list (map ?w (take k (rev xs))) \<le> ?limit"
    using first_nodes_prefix [OF assms(2,4), of xs 0] first_nodes_prefix [OF assms(2,4), of "rev xs" 0]
    by (auto simp: rev_map [symmetric])
  let ?m = "length xs - k"
  have rev: "take k (rev xs) = rev (drop ?m xs)" using k(1) by (simp add: take_rev)
  have sums: "sum_list (map ?w (take n xs)) \<le> ?limit" "sum_list (map ?w (drop ?m xs)) \<le> ?limit"
    using n(3) k(3) unfolding rev by (auto simp: rev_map [symmetric])
  have "2 * ?limit < total_stake ?c"
  proof -
    have "threshold * total_stake ?c \<le> 33 * total_stake ?c" using assms(3) by simp
    with total(2) show ?thesis by linarith
  qed
  then have nm: "n \<le> ?m" using sums part(4) total(1) by (intro sum_list_take_drop_less [of ?w _ xs]) linarith
  have sorted: "sorted_wrt (\<lambda>p q. snd q \<le> snd p) xs"
  proof -
    have "sorted (map (\<lambda>p. - int (snd p)) xs)" by (simp add: xs_def)
    then show ?thesis by (simp add: sorted_wrt_map)
  qed
  have fsts: "fst ` set (take k (rev xs)) = fst ` set (drop ?m xs)" by (simp add: rev)
  obtain t where t: "new_inner rng ctx threshold commit_index scores = Some t" "swap_scores t = scores"
    "map fst (good_nodes t) = map fst (take n xs)" "fst ` set (bad_nodes t) = fst ` set (drop ?m xs)"
  proof -
    let ?node = "\<lambda>p. (fst p, auth_hostname (committee_authorities ?c ! fst p), stake_at ?c (fst p))"
    let ?t = "\<lparr>good_nodes = map ?node (take n xs),
      bad_nodes = fold (\<lambda>(a, x). bmap_insert a x) (map ?node (take k (rev xs))) [], swap_scores = scores\<rparr>"
    have "new_inner rng ctx threshold commit_index scores = Some ?t"
      using assms(3,5) total(4) n(2) k(2)
      by (auto simp: new_inner_def authorities_by_score_eq [OF assms(2,5)] retrieve_first_nodes_def xs_def Let_def)
    then show ?thesis
      using that [of ?t] fsts by (simp add: keys_fold_insert image_image comp_def)
  qed
  have "?m \<le> length xs" by simp
  then show ?thesis
    by (intro exI [of _ t] exI [of _ xs] exI [of _ n] exI [of _ ?m] conjI t perm sorted nm sums)
qed

subsection \<open>The swap table is sound\<close>

text \<open>
  C37. Building a swap table succeeds for a well-formed committee with one score per authority,
  and the table is sound: good and bad nodes are disjoint committee members, each group holds at
  most the configured percentage of the stake, no node outside the bad group scores lower than
  a bad node, and no node outside the good group scores higher than a good node.
\<close>

theorem swap_table_sound:
  assumes "rng_ok rng" and "committee_wf (ctx_committee ctx)"
    and "bad_nodes_stake_threshold (protocol_config ctx) \<le> 33"
    and "bad_nodes_stake_threshold (protocol_config ctx) * total_stake (ctx_committee ctx) \<le> u64_max"
    and "length (scores_per_authority scores) = committee_size (ctx_committee ctx)"
  shows "\<exists>t. LeaderSwapTable_new rng ctx commit_index scores = Some t
     \<and> fst ` set (good_nodes t) \<inter> fst ` set (bad_nodes t) = {}
     \<and> fst ` set (good_nodes t) \<union> fst ` set (bad_nodes t) \<subseteq> members (ctx_committee ctx)
     \<and> 100 * stake_of (ctx_committee ctx) (fst ` set (good_nodes t))
          \<le> bad_nodes_stake_threshold (protocol_config ctx) * total_stake (ctx_committee ctx)
     \<and> 100 * stake_of (ctx_committee ctx) (fst ` set (bad_nodes t))
          \<le> bad_nodes_stake_threshold (protocol_config ctx) * total_stake (ctx_committee ctx)
     \<and> (\<forall>a b. b \<in> fst ` set (bad_nodes t) \<and> a \<in> members (ctx_committee ctx) - fst ` set (bad_nodes t)
          \<longrightarrow> scores_per_authority scores ! b \<le> scores_per_authority scores ! a)
     \<and> (\<forall>a g. g \<in> fst ` set (good_nodes t) \<and> a \<in> members (ctx_committee ctx) - fst ` set (good_nodes t)
          \<longrightarrow> scores_per_authority scores ! a \<le> scores_per_authority scores ! g)"
proof -
  let ?c = "ctx_committee ctx" and ?thr = "bad_nodes_stake_threshold (protocol_config ctx)"
  from new_inner_split [OF assms(1-5), of commit_index] obtain t xs n m where
    t: "new_inner rng ctx ?thr commit_index scores = Some t"
    and perm: "mset xs = mset (enumerate 0 (scores_per_authority scores))"
    and sorted: "sorted_wrt (\<lambda>p q. snd q \<le> snd p) xs" and nm: "n \<le> m" "m \<le> length xs"
    and good: "map fst (good_nodes t) = map fst (take n xs)"
    and bad: "fst ` set (bad_nodes t) = fst ` set (drop m xs)"
    and gs: "sum_list (map (\<lambda>p. stake_at ?c (fst p)) (take n xs)) \<le> ?thr * total_stake ?c div 100"
    and bs: "sum_list (map (\<lambda>p. stake_at ?c (fst p)) (drop m xs)) \<le> ?thr * total_stake ?c div 100"
    by blast
  note part = scored_permutation [OF perm assms(5)]
  have good': "fst ` set (good_nodes t) = fst ` set (take n xs)" using good by (metis set_map)
  have split: "xs = take i xs @ drop i xs" for i by simp
  have dist: "distinct (map fst (take i xs))" "distinct (map fst (drop i xs))"
    "fst ` set (take i xs) \<inter> fst ` set (drop i xs) = {}" for i
    using part(1) split [of i] by (metis distinct_append map_append set_map)+
  have order: "snd q \<le> snd p" if "p \<in> set (take i xs)" "q \<in> set (drop i xs)" for i p q
    using sorted split [of i] that by (metis sorted_wrt_append)
  have scores: "scores_per_authority scores ! y \<le> scores_per_authority scores ! x"
    if "x \<in> fst ` set (take i xs)" "y \<in> fst ` set (drop i xs)" for i x y
    using that order part(3) by (metis (no_types, lifting) image_iff in_set_dropD in_set_takeD)
  have "set (take n xs) \<subseteq> set (take m xs)" using nm(1) by (rule set_take_subset_set_take)
  then have disj: "fst ` set (take n xs) \<inter> fst ` set (drop m xs) = {}" using dist(3) [of m] by blast
  have mem: "fst ` set (take i xs) \<union> fst ` set (drop i xs) = members ?c" for i
    using part(2) split [of i] by (metis image_Un set_append)
  have stakes: "100 * stake_of ?c (fst ` set (take n xs)) \<le> ?thr * total_stake ?c"
    "100 * stake_of ?c (fst ` set (drop m xs)) \<le> ?thr * total_stake ?c"
    using gs bs by (simp_all add: stake_of_part dist)
  have sub: "fst ` set (take n xs) \<union> fst ` set (drop m xs) \<subseteq> members ?c"
    using mem [of n] mem [of m] by blast
  have low: "\<forall>a b. b \<in> fst ` set (drop m xs) \<and> a \<in> members ?c - fst ` set (drop m xs)
      \<longrightarrow> scores_per_authority scores ! b \<le> scores_per_authority scores ! a"
    using mem [of m] scores [of _ m] by blast
  have high: "\<forall>a g. g \<in> fst ` set (take n xs) \<and> a \<in> members ?c - fst ` set (take n xs)
      \<longrightarrow> scores_per_authority scores ! a \<le> scores_per_authority scores ! g"
    using mem [of n] scores [of _ n] by blast
  show ?thesis
    unfolding LeaderSwapTable_new_def
    by (rule exI [of _ t], unfold good' bad, intro conjI t disj sub stakes low high)
qed

definition sample_rng :: rng_lib where
  "sample_rng = \<lparr>rng_shuffle = (\<lambda>_ xs. xs), rng_choose = (\<lambda>_ xs. bset_first xs),
     rng_choose_multiple_weighted = (\<lambda>_ xs n. Inr (take n xs))\<rparr>"

lemma sample_rng_ok: "rng_ok sample_rng"
proof -
  have "mset (take n xs) \<subseteq># mset xs" for n and xs :: "(nat \<times> nat) list"
    by (metis append_take_drop_id mset_append mset_subset_eq_add_left)
  then show ?thesis
    by (auto simp: rng_ok_def sample_rng_def bset_first_def split: list.splits)
qed

definition sample_scores :: reputation_scores where
  "sample_scores = ReputationScores_new (CommitRange 1 301) [3, 9, 1, 5]"

theorem swap_table_sound_witness:
  "\<exists>t. LeaderSwapTable_new sample_rng sample_context 300 sample_scores = Some t
     \<and> fst ` set (good_nodes t) \<inter> fst ` set (bad_nodes t) = {}"
  using swap_table_sound [OF sample_rng_ok, of sample_context sample_scores 300]
  by (auto simp: sample_committee_wf sample_config_def u64_max_def sample_scores_def ReputationScores_new_def)

subsection \<open>Electing leaders\<close>

lemma sum_list_map_pos:
  fixes f :: "'a \<Rightarrow> nat"
  shows "0 < sum_list (map f xs) \<Longrightarrow> \<exists>x\<in>set xs. 0 < f x"
  by (induction xs) auto

lemma elect_leader_stake_based_total:
  assumes "rng_ok rng" and "committee_wf (ctx_committee (ls_context ls))"
    and "offset < committee_size (ctx_committee (ls_context ls))"
  shows "\<exists>a. elect_leader_stake_based rng ls round offset = Some a
           \<and> a < committee_size (ctx_committee (ls_context ls))"
proof -
  let ?c = "ctx_committee (ls_context ls)"
  let ?choices = "map (\<lambda>(index, auth). (index, auth_stake auth)) (authorities ?c)"
  have fsts: "map fst ?choices = [0..<committee_size ?c]"
    using authorities_indices [OF assms(2)] by (simp add: comp_def split_beta)
  have len: "length ?choices = committee_size ?c" using fsts by (metis length_map length_upt minus_nat.diff_0)
  have snds: "map snd ?choices = map auth_stake (committee_authorities ?c)"
    by (auto simp: authorities_def comp_def split_beta intro: nth_equalityI simp: nth_enumerate_eq)
  have "0 < sum_list (map snd ?choices)"
    unfolding snds using assms(2) by (simp add: committee_wf_def stake_of_members)
  then have pos: "\<exists>p\<in>set ?choices. 0 < snd p"
    by (rule sum_list_map_pos)
  have "committee_size ?c \<le> length ?choices" using len by simp
  with pos obtain ys where ys: "rng_choose_multiple_weighted rng (replicate 28 0 @ to_le_bytes round) ?choices
      (committee_size ?c) = Inr ys" "length ys = committee_size ?c" "mset ys \<subseteq># mset ?choices"
    using assms(1) unfolding rng_ok_def by blast
  have "drop offset ys \<noteq> []" using ys(2) assms(3) by simp
  then obtain y zs where y: "drop offset ys = y # zs" by (cases "drop offset ys") auto
  have "set ys \<subseteq> set ?choices" using ys(3) set_mset_mono by fastforce
  then have "fst y \<in> set (map fst ?choices)"
    using y by (metis (no_types, lifting) image_eqI in_set_dropD list.set_intros(1) list.set_map subsetD)
  then have "fst y < committee_size ?c" unfolding fsts by simp
  then show ?thesis using ys(1) y assms(3) by (simp add: elect_leader_stake_based_def Let_def bset_first_def)
qed

text \<open>
  C38. With a swap table built from scores, the leader elected for any round is a committee
  member and never one of the bad nodes, as long as some node qualifies as good.
\<close>

theorem elected_leader_is_not_bad:
  assumes "rng_ok rng" and "committee_wf (ctx_committee ctx)"
    and "bad_nodes_stake_threshold (protocol_config ctx) \<le> 33"
    and "bad_nodes_stake_threshold (protocol_config ctx) * total_stake (ctx_committee ctx) \<le> u64_max"
    and "length (scores_per_authority scores) = committee_size (ctx_committee ctx)"
    and "LeaderSwapTable_new rng ctx commit_index scores = Some t" and "good_nodes t \<noteq> []"
  shows "\<exists>a. elect_leader rng (LeaderSchedule_new ctx t) round 0 = Some a
           \<and> a \<in> members (ctx_committee ctx) - fst ` set (bad_nodes t)"
proof -
  let ?ls = "LeaderSchedule_new ctx t" and ?c = "ctx_committee ctx"
  have ctx: "ls_context ?ls = ctx" "ls_swap_table ?ls = t" by (simp_all add: LeaderSchedule_new_def)
  have size: "0 < committee_size ?c" using assms(2) by (simp add: committee_wf_def committee_size_def)
  from elect_leader_stake_based_total [of rng ?ls 0 round] assms(1,2) size obtain l where
    l: "elect_leader_stake_based rng ?ls round 0 = Some l" "l < committee_size ?c" by (auto simp: ctx)
  from new_inner_split [OF assms(1-5), of commit_index] assms(6) obtain xs n m where
    perm: "mset xs = mset (enumerate 0 (scores_per_authority scores))" and nm: "n \<le> m"
    and good: "map fst (good_nodes t) = map fst (take n xs)"
    and bad: "fst ` set (bad_nodes t) = fst ` set (drop m xs)"
    unfolding LeaderSwapTable_new_def by auto
  note part = scored_permutation [OF perm assms(5)]
  have "distinct (map fst (take m xs @ drop m xs))" using part(1) by simp
  then have "fst ` set (take m xs) \<inter> fst ` set (drop m xs) = {}"
    unfolding map_append distinct_append set_map by blast
  moreover have good': "fst ` set (good_nodes t) = fst ` set (take n xs)" using good by (metis set_map)
  ultimately have disj: "fst ` set (good_nodes t) \<inter> fst ` set (bad_nodes t) = {}"
    unfolding bad using set_take_subset_set_take [OF nm, of xs] by blast
  have mem: "fst ` set (good_nodes t) \<subseteq> members ?c"
    unfolding good' part(2) [symmetric] using set_take_subset [of n xs] by blast
  show ?thesis
  proof (cases "map_of (bad_nodes t) l = None")
    case True
    then have "l \<notin> fst ` set (bad_nodes t)" by (simp add: map_of_eq_None_iff)
    then show ?thesis using l True by (simp add: elect_leader_def swap_def ctx)
  next
    case False
    obtain g where "g \<in> set (good_nodes t)"
      "rng_choose rng (replicate 24 0 @ to_le_bytes round @ to_le_bytes 0) (good_nodes t) = Some g"
      using assms(1,7) unfolding rng_ok_def by blast
    then show ?thesis using l False disj mem
      by (force simp: elect_leader_def swap_def ctx Let_def split_beta)
  qed
qed

definition sample_table :: leader_swap_table where
  "sample_table = \<lparr>good_nodes = [(1, '''', 1)], bad_nodes = [(2, '''', 1)], swap_scores = sample_scores\<rparr>"

lemma sample_authorities: "i < 4 \<Longrightarrow> committee_authorities sample_committee ! i = sample_authority 1"
  by (auto simp: sample_committee_def numeral_eq_Suc less_Suc_eq)

lemma sample_table_new: "LeaderSwapTable_new sample_rng sample_context 300 sample_scores = Some sample_table"
proof -
  have by_score: "authorities_by_score sample_committee sample_scores = Some [(0, 3), (1, 9), (2, 1), (3, 5)]"
    by (simp add: authorities_by_score_eq [OF sample_committee_wf] sample_scores_def ReputationScores_new_def
        numeral_eq_Suc)
  have sorted: "sort_key (\<lambda>p. - int (snd p)) [(0, 3), (1, 9), (2, 1), (3, 5)]
      = [(1 :: nat, 9), (3, 5), (0, 3), (2, 1)]" by simp
  have first: "first_nodes sample_committee 30 s ((a, x) # rest)
      = (if s + 1 > 1 then Some [] else do {
           nodes \<leftarrow> first_nodes sample_committee 30 (s + 1) rest; Some ((a, '''', 1) # nodes) })"
    if "a < 4" "s < 4" for a s x rest
    using that
    by (simp add: committee_stake_valid is_valid_index_def sample_stake_at u64_add_def u64_mul_def u64_max_def
        committee_authority_def vec_get_def committee_size_def [symmetric] sample_authorities)
       (simp add: sample_authority_def)
  show ?thesis
    by (simp add: LeaderSwapTable_new_def new_inner_def sample_config_def by_score Let_def
        sample_rng_def sorted retrieve_first_nodes_def first sample_table_def del: first_nodes.simps(2))
       (simp add: sample_scores_def ReputationScores_new_def)
qed

theorem elected_leader_is_not_bad_witness:
  "\<exists>a. elect_leader sample_rng (LeaderSchedule_new sample_context sample_table) 7 0 = Some a
     \<and> a \<in> members sample_committee - {2}"
  using elected_leader_is_not_bad [OF sample_rng_ok _ _ _ _ sample_table_new, of 7]
  by (simp add: sample_committee_wf sample_config_def u64_max_def sample_table_def)
     (simp add: sample_scores_def ReputationScores_new_def)

text \<open>
  C39. The guard of the previous property is needed: when the best authority alone holds more
  than the configured share of the stake, a table can have bad nodes and no good node, and
  electing a bad node then panics.
\<close>

theorem electing_bad_leader_without_good_nodes_panics:
  assumes "rng_ok rng" and "good_nodes t = []" and "map_of (bad_nodes t) l \<noteq> None"
    and "elect_leader_stake_based rng (LeaderSchedule_new ctx t) round 0 = Some l"
  shows "elect_leader rng (LeaderSchedule_new ctx t) round 0 = None"
proof -
  have "rng_choose rng seed [] = None" for seed using assms(1) unfolding rng_ok_def by blast
  then show ?thesis using assms(2-4) by (auto simp: elect_leader_def swap_def LeaderSchedule_new_def Let_def)
qed

text \<open>Two authorities of stakes one and three; the heavy one has the higher score.\<close>

definition skewed_committee :: committee where
  "skewed_committee = \<lparr>committee_epoch = 0, committee_authorities = map sample_authority [1, 3],
     total_stake = 4, quorum_threshold = 3, certification_threshold = 3, validity_threshold = 2\<rparr>"

definition skewed_context :: consensus_context where
  "skewed_context = sample_context\<lparr>ctx_committee := skewed_committee\<rparr>"

theorem electing_bad_leader_without_good_nodes_panics_witness:
  "\<exists>t. LeaderSwapTable_new sample_rng skewed_context 300 (ReputationScores_new (CommitRange 1 301) [0, 9]) = Some t
     \<and> elect_leader sample_rng (LeaderSchedule_new skewed_context t) 7 0 = None"
proof -
  let ?scores = "ReputationScores_new (CommitRange 1 301) [0, 9]"
  let ?t = "\<lparr>good_nodes = [], bad_nodes = [(0, '''', 1)], swap_scores = ?scores\<rparr>"
  have ctx: "ctx_committee skewed_context = skewed_committee"
    "bad_nodes_stake_threshold (protocol_config skewed_context) = 30"
    by (simp_all add: skewed_context_def sample_config_def)
  have size: "committee_size skewed_committee = 2" by (simp add: skewed_committee_def committee_size_def)
  have "new_inner sample_rng skewed_context 30 300 ?scores = Some ?t"
    by (simp add: new_inner_def ctx authorities_by_score_def ReputationScores_new_def to_authority_index_def
        skewed_committee_def as_u32_def u32_max_def committee_size_def sample_rng_def retrieve_first_nodes_def
        committee_stake_def vec_get_def u64_add_def u64_mul_def u64_max_def committee_authority_def sample_authority_def)
  moreover have "elect_leader_stake_based sample_rng (LeaderSchedule_new skewed_context ?t) 7 0 = Some 0"
    by (simp add: elect_leader_stake_based_def LeaderSchedule_new_def ctx size sample_rng_def authorities_def
        skewed_committee_def as_u32_def u32_max_def committee_size_def Let_def bset_first_def)
  ultimately show ?thesis
    using electing_bad_leader_without_good_nodes_panics [OF sample_rng_ok, of ?t 0 skewed_context 7]
    by (simp add: LeaderSwapTable_new_def ctx)
qed

subsection \<open>Updating the schedule\<close>

lemma distributed_votes_scores_length:
  assumes "distributed_votes_scores st = Some scores"
  shows "length scores = committee_size (ctx_committee (ss_context st))"
  using assms unfolding distributed_votes_scores_def
  by (rule for_each_inv [where I = "\<lambda>xs. length xs = committee_size (ctx_committee (ss_context st))"])
     (auto simp: panic_simps)

lemma scores_update_metrics_total:
  assumes "length (scores_per_authority s) = committee_size c" and "committee_wf c"
  shows "scores_update_metrics c s = Some ()"
proof -
  have "\<exists>u. scores_update_metrics c s = Some u \<and> True"
    unfolding scores_update_metrics_def using assms
    by (intro for_each_total)
       (auto simp: in_set_enumerate_eq to_authority_index_def committee_authority_def vec_get_def
          committee_size_def committee_wf_def as_u32_id)
  then show ?thesis by simp
qed

text \<open>
  C40. A leader schedule update succeeds when the scored commits directly follow those of the
  current table in a window of the same length (or the table is the initial one). Afterwards the
  table is built from exactly the scored commits, the scores are buffered for storage with the
  last commit, and the scoring starts over with a full window to go.
\<close>

theorem schedule_update_continues_windows:
  assumes "rng_ok rng" and "committee_wf (ctx_committee (ls_context ls))"
    and "ss_context (ds_scoring_subdag d) = ls_context ls"
    and "bad_nodes_stake_threshold (protocol_config (ls_context ls)) \<le> 33"
    and "bad_nodes_stake_threshold (protocol_config (ls_context ls))
           * total_stake (ctx_committee (ls_context ls)) \<le> u64_max"
    and "calculate_scoring_subdag_scores d = Some scores" and "ds_last_commit d = Some last_commit"
    and "scores_commit_range (swap_scores (ls_swap_table ls)) = CommitRange 0 0
       \<or> is_next_range (scores_commit_range (swap_scores (ls_swap_table ls))) (scores_commit_range scores)
         \<and> is_equal_size (scores_commit_range (swap_scores (ls_swap_table ls))) (scores_commit_range scores)
             = Some True"
  shows "\<exists>ls' d'. update_leader_schedule_v2 rng ls d = Some (ls', d')
     \<and> swap_scores (ls_swap_table ls') = scores
     \<and> ss_commit_range (ds_scoring_subdag d) = Some (scores_commit_range scores)
     \<and> ds_commit_info_to_write d' = ds_commit_info_to_write d @ [(tc_reference last_commit,
          \<lparr>ci_committed_rounds = ds_last_committed_rounds d, ci_reputation_scores = scores\<rparr>)]
     \<and> ss_is_empty (ds_scoring_subdag d')
     \<and> commits_until_leader_schedule_update ls' d' = Some (num_commits_per_schedule ls)"
proof -
  let ?c = "ctx_committee (ls_context ls)" and ?thr = "bad_nodes_stake_threshold (protocol_config (ls_context ls))"
  from assms(6) obtain range votes where
    range: "ss_commit_range (ds_scoring_subdag d) = Some range" "scores_commit_range scores = range"
    and votes: "distributed_votes_scores (ds_scoring_subdag d) = Some votes" "scores_per_authority scores = votes"
    by (auto simp: calculate_scoring_subdag_scores_def calculate_distributed_vote_scores_def panic_simps
        ReputationScores_new_def)
  have len: "length (scores_per_authority scores) = committee_size ?c"
    using distributed_votes_scores_length [OF votes(1)] votes(2) assms(3) by simp
  from new_inner_split [OF assms(1,2,4,5) len, of "range_end range"] obtain t where
    t: "LeaderSwapTable_new rng (ls_context ls) (range_end range) scores = Some t" "swap_scores t = scores"
    unfolding LeaderSwapTable_new_def by blast
  have upd: "update_leader_swap_table t ls = Some (ls\<lparr>ls_swap_table := t\<rparr>)"
    using assms(8) t(2) by (auto simp: update_leader_swap_table_def Let_def)
  show ?thesis
    using assms(6,7) range t upd scores_update_metrics_total [OF len assms(2)]
    by (simp add: update_leader_schedule_v2_def scoring_subdag_commit_range_def add_commit_info_def
        clear_scoring_subdag_def ss_clear_def ss_is_empty_def commits_until_leader_schedule_update_def
        scoring_subdags_count_def scored_subdags_count_def checked_sub_def)
qed

definition sample_scored_dag :: dag_state where
  "sample_scored_dag = sample_dag\<lparr>
     ds_last_commit := Some \<lparr>tc_inner = Commit_new 300 0 5 (sample_ref 9 1) [], tc_digest = 300, tc_serialized = []\<rparr>,
     ds_scoring_subdag := (ScoringSubdag_new sample_context)\<lparr>ss_commit_range := Some (CommitRange 1 301)\<rparr>\<rparr>"

theorem schedule_update_continues_windows_witness:
  "\<exists>ls' d'. update_leader_schedule_v2 sample_rng
       (LeaderSchedule_new sample_context LeaderSwapTable_default) sample_scored_dag = Some (ls', d')
     \<and> commits_until_leader_schedule_update ls' d' = Some 300"
proof -
  let ?ls = "LeaderSchedule_new sample_context LeaderSwapTable_default"
  have fields: "ls_context ?ls = sample_context" "num_commits_per_schedule ?ls = 300"
    "scores_commit_range (swap_scores (ls_swap_table ?ls)) = CommitRange 0 0"
    by (simp_all add: LeaderSchedule_new_def CONSENSUS_COMMITS_PER_SCHEDULE_def LeaderSwapTable_default_def
        ReputationScores_default_def)
  have "calculate_scoring_subdag_scores sample_scored_dag
      = Some (ReputationScores_new (CommitRange 1 301) [0, 0, 0, 0])"
    by (simp add: calculate_scoring_subdag_scores_def calculate_distributed_vote_scores_def
        distributed_votes_scores_def sample_scored_dag_def ScoringSubdag_new_def numeral_eq_Suc)
  moreover have "ds_last_commit sample_scored_dag \<noteq> None" by (simp add: sample_scored_dag_def)
  moreover have "ss_context (ds_scoring_subdag sample_scored_dag) = sample_context"
    by (simp add: sample_scored_dag_def ScoringSubdag_new_def)
  ultimately show ?thesis
    using schedule_update_continues_windows [OF sample_rng_ok, of ?ls sample_scored_dag]
    by (fastforce simp: fields sample_committee_wf sample_config_def u64_max_def)
qed

end
