(* ===== verification/Dag_Traversal.thy ===== *)
theory Dag_Traversal
  imports Dag_Flush
begin

section \<open>Causal history\<close>

text \<open>
  The traversals of \<open>DagState\<close>: \<open>ancestors_at_round\<close>, which the committers use to find the decision
  blocks linked to an anchor, and \<open>link_causal_history\<close>, which marks what an own block includes.
  Both are related to the causal relation of the DAG, the reflexive-transitive closure of the
  ancestor links.
\<close>

subsection \<open>The order of references is well-founded\<close>

lemma wf_block_ref_less: "wf {(a, b :: block_ref). a < b}"
proof (rule wf_subset)
  show "wf (inv_image (less_than <*lex*> less_than <*lex*> measure unat) ref_tuple)"
    by (intro wf_inv_image wf_lex_prod wf_less_than wf_measure)
  show "{(a, b). a < b} \<subseteq> inv_image (less_than <*lex*> less_than <*lex*> measure unat) ref_tuple"
    by (auto simp: block_ref_less_iff ref_tuple_def word_less_nat_alt)
qed

subsection \<open>The causal relation\<close>

definition causal :: "dag_state \<Rightarrow> (block_ref \<times> block_ref) set" where
  "causal d = {(r, a). \<exists>b. dag_lookup d r = Some b \<and> a \<in> set (vb_ancestors b)}"

text \<open>Above the round \<open>g\<close> the DAG is causally complete; ancestors are always of earlier rounds.\<close>

definition dag_closed :: "dag_state \<Rightarrow> round \<Rightarrow> bool" where
  "dag_closed d g \<longleftrightarrow> (\<forall>r a. (r, a) \<in> causal d \<longrightarrow>
     br_round a < br_round r \<and> (g < br_round a \<longrightarrow> dag_lookup d a \<noteq> None))"

lemma causal_round:
  assumes "dag_closed d g" and "(r, a) \<in> (causal d)\<^sup>*"
  shows "a = r \<or> br_round a < br_round r"
  using assms(2)
proof (induction rule: rtrancl_induct)
  case (step y z)
  then have "br_round z < br_round y" using assms(1) by (auto simp: dag_closed_def)
  with step.IH show ?case by auto
qed simp

lemma causal_round_eq:
  assumes "dag_closed d g" and "(r, a) \<in> (causal d)\<^sup>*" and "br_round r \<le> br_round a"
  shows "a = r"
  using causal_round [OF assms(1,2)] assms(3) by auto

subsection \<open>The traversal loop\<close>

text \<open>The loop stops with a set of references of rounds at most \<open>r0\<close>, from which exactly the same
  references of round \<open>r0\<close> can be reached as from the set it started with.\<close>

lemma link_down_correct:
  assumes "dag_closed d g" and "g \<le> r0"
    and "bset_wf linked" and "\<forall>x\<in>set linked. x \<le> m" and "\<forall>x\<in>set linked. g < br_round x \<longrightarrow> dag_lookup d x \<noteq> None"
  shows "\<exists>linked'. link_down d r0 linked = Some linked' \<and> bset_wf linked'
     \<and> (\<forall>x\<in>set linked'. br_round x \<le> r0)
     \<and> (\<forall>x\<in>set linked'. g < br_round x \<longrightarrow> dag_lookup d x \<noteq> None)
     \<and> (\<forall>r. br_round r = r0 \<longrightarrow>
          ((\<exists>x\<in>set linked'. (x, r) \<in> (causal d)\<^sup>*) \<longleftrightarrow> (\<exists>x\<in>set linked. (x, r) \<in> (causal d)\<^sup>*)))"
  using assms(3-5)
proof (induction m arbitrary: linked rule: wf_induct_rule [OF wf_block_ref_less])
  case (1 m)
  show ?case
  proof (cases "linked = [] \<or> br_round (last linked) \<le> r0")
    case True
    have "br_round x \<le> r0" if "x \<in> set linked" for x
      using True that bset_last_max [OF 1(2) that] block_ref_le_round [of x "last linked"] by auto
    then show ?thesis using True 1 by (auto simp: link_down.simps)
  next
    case False
    let ?l = "last linked"
    have ne: "linked \<noteq> []" and rl: "r0 < br_round ?l" using False by auto
    then have "?l \<in> set linked" by simp
    with 1(4) rl assms(2) obtain b where b: "dag_lookup d ?l = Some b" by fastforce
    let ?next = "bset_extend (butlast linked) (vb_ancestors b)"
    have anc: "(?l, a) \<in> causal d" if "a \<in> set (vb_ancestors b)" for a
      using b that by (auto simp: causal_def)
    have step: "link_down d r0 linked = link_down d r0 ?next"
      using False b by (simp add: link_down.simps [of d r0 linked] get_block_eq)
    have set: "set ?next = (set linked - {?l}) \<union> set (vb_ancestors b)"
      using bset_butlast [OF 1(2) ne] by simp
    have below: "x < ?l" if "x \<in> set ?next" for x
    proof (cases "x \<in> set (vb_ancestors b)")
      case True
      then have "br_round x < br_round ?l" using anc assms(1) by (auto simp: dag_closed_def)
      then show ?thesis by (simp add: block_ref_less_iff)
    qed (use that set bset_last_max [OF 1(2)] in \<open>auto simp: le_less\<close>)
    have wfn: "bset_wf ?next" using 1(2) by simp
    have known: "\<forall>x\<in>set ?next. g < br_round x \<longrightarrow> dag_lookup d x \<noteq> None"
      using 1(4) anc assms(1) unfolding set dag_closed_def by blast
    have reach: "(\<exists>x\<in>set ?next. (x, r) \<in> (causal d)\<^sup>*) \<longleftrightarrow> (\<exists>x\<in>set linked. (x, r) \<in> (causal d)\<^sup>*)"
      if r: "br_round r = r0" for r
    proof
      assume "\<exists>x\<in>set ?next. (x, r) \<in> (causal d)\<^sup>*"
      then show "\<exists>x\<in>set linked. (x, r) \<in> (causal d)\<^sup>*"
        using anc \<open>?l \<in> set linked\<close> unfolding set by (auto intro: converse_rtrancl_into_rtrancl)
    next
      assume "\<exists>x\<in>set linked. (x, r) \<in> (causal d)\<^sup>*"
      then obtain x where x: "x \<in> set linked" "(x, r) \<in> (causal d)\<^sup>*" by blast
      show "\<exists>x\<in>set ?next. (x, r) \<in> (causal d)\<^sup>*"
      proof (cases "x = ?l")
        case True
        then have "x \<noteq> r" using r rl by auto
        with x(2) obtain y where "(x, y) \<in> causal d" "(y, r) \<in> (causal d)\<^sup>*"
          by (meson converse_rtranclE)
        then show ?thesis using True b unfolding set by (auto simp: causal_def)
      qed (use x set in auto)
    qed
    have "\<exists>linked'. link_down d r0 ?next = Some linked' \<and> bset_wf linked'
       \<and> (\<forall>x\<in>set linked'. br_round x \<le> r0)
       \<and> (\<forall>x\<in>set linked'. g < br_round x \<longrightarrow> dag_lookup d x \<noteq> None)
       \<and> (\<forall>r. br_round r = r0 \<longrightarrow>
          ((\<exists>x\<in>set linked'. (x, r) \<in> (causal d)\<^sup>*) \<longleftrightarrow> (\<exists>x\<in>set ?next. (x, r) \<in> (causal d)\<^sup>*)))"
    proof (cases "?next = []")
      case True
      then show ?thesis by (simp add: link_down.simps)
    next
      case ne': False
      have "last ?next < ?l" using below ne' last_in_set by blast
      moreover have "?l \<le> m" using 1(3) \<open>?l \<in> set linked\<close> by blast
      ultimately show ?thesis
        using bset_last_max [OF wfn] by (intro 1(1) wfn known) auto
    qed
    with step reach show ?thesis by auto
  qed
qed

subsection \<open>Ancestors at a round\<close>

lemma round_start_le: "BlockRef r 0 Digest_MIN \<le> x \<longleftrightarrow> r \<le> br_round x"
proof -
  have "x < BlockRef r 0 Digest_MIN \<longleftrightarrow> br_round x < r"
    by (auto simp: block_ref_less_iff Digest_MIN_def word_not_simps)
  then show ?thesis by (simp add: not_less [symmetric])
qed

lemma ancestors_at_round_correct:
  assumes "dag_wf d" and "dag_closed d g" and "g < r0"
    and "\<forall>a\<in>set (vb_ancestors b). g < br_round a \<longrightarrow> dag_lookup d a \<noteq> None"
  shows "\<exists>bs. ancestors_at_round d b r0 = Some bs \<and> bset_wf (map reference bs)
     \<and> (\<forall>x\<in>set bs. dag_lookup d (reference x) = Some x)
     \<and> reference ` set bs = {r. br_round r = r0 \<and> (\<exists>a\<in>set (vb_ancestors b). (a, r) \<in> (causal d)\<^sup>*)}"
proof -
  let ?init = "bset_extend [] (vb_ancestors b)"
  have init: "set ?init = set (vb_ancestors b)" "bset_wf ?init" by simp_all
  have bound: "\<forall>x\<in>set ?init. x \<le> Max (insert BlockRef_MIN (set ?init))" by simp
  from link_down_correct [OF assms(2) less_imp_le [OF assms(3)] init(2) bound] assms(4) obtain linked where
    run: "link_down d r0 ?init = Some linked" and wf: "bset_wf linked"
    and le: "\<forall>x\<in>set linked. br_round x \<le> r0"
    and known: "\<forall>x\<in>set linked. g < br_round x \<longrightarrow> dag_lookup d x \<noteq> None"
    and reach: "\<And>r. br_round r = r0 \<Longrightarrow>
        (\<exists>x\<in>set linked. (x, r) \<in> (causal d)\<^sup>*) \<longleftrightarrow> (\<exists>a\<in>set (vb_ancestors b). (a, r) \<in> (causal d)\<^sup>*)"
    unfolding init by blast
  let ?sel = "filter (\<lambda>r. BlockRef r0 0 Digest_MIN \<le> r) linked"
  have sel: "set ?sel = {x \<in> set linked. br_round x = r0}"
    using le by (auto simp: round_start_le)
  have sel_reach: "set ?sel = {r. br_round r = r0 \<and> (\<exists>a\<in>set (vb_ancestors b). (a, r) \<in> (causal d)\<^sup>*)}"
  proof (intro equalityI subsetI)
    fix r assume "r \<in> set ?sel"
    then show "r \<in> {r. br_round r = r0 \<and> (\<exists>a\<in>set (vb_ancestors b). (a, r) \<in> (causal d)\<^sup>*)}"
      using reach [of r] unfolding sel by auto
  next
    fix r assume r: "r \<in> {r. br_round r = r0 \<and> (\<exists>a\<in>set (vb_ancestors b). (a, r) \<in> (causal d)\<^sup>*)}"
    with reach [of r] obtain x where "x \<in> set linked" "(x, r) \<in> (causal d)\<^sup>*" by auto
    with causal_round_eq [OF assms(2), of x r] le r show "r \<in> set ?sel" unfolding sel by auto
  qed
  define f where "f r = the (dag_lookup d r)" for r
  have look: "dag_lookup d r = Some (f r)" if "r \<in> set ?sel" for r
    using that known assms(3) unfolding sel by (auto simp: f_def)
  have refs: "map reference (map f ?sel) = ?sel"
    using look dag_lookup_reference [OF assms(1)] by (auto intro!: map_idI)
  have "ancestors_at_round d b r0 = Some (map f ?sel)"
    unfolding ancestors_at_round_def run bind.bind_lunit
    by (rule map_opt_total) (simp add: get_block_eq look)
  moreover have "bset_wf (map reference (map f ?sel))"
    unfolding refs using wf by (simp add: sorted_wrt_filter)
  moreover have "\<forall>x\<in>set (map f ?sel). dag_lookup d (reference x) = Some x"
    using look dag_lookup_reference [OF assms(1)] by fastforce
  moreover have "reference ` set (map f ?sel) = set ?sel"
    using refs by (metis set_map)
  ultimately show ?thesis using sel_reach by auto
qed

lemma ancestors_at_round_exact:
  assumes "dag_wf d" and "dag_closed d g" and "g < earlier_round"
    and "dag_lookup d (reference later_block) = Some later_block"
    and "earlier_round < vb_round later_block"
  shows "\<exists>bs. ancestors_at_round d later_block earlier_round = Some bs \<and> bset_wf (map reference bs)
     \<and> (\<forall>x\<in>set bs. dag_lookup d (reference x) = Some x)
     \<and> reference ` set bs = {r. br_round r = earlier_round \<and> (reference later_block, r) \<in> (causal d)\<^sup>*}"
proof -
  let ?l = "reference later_block"
  have links: "(?l, a) \<in> causal d \<longleftrightarrow> a \<in> set (vb_ancestors later_block)" for a
    using assms(4) by (simp add: causal_def)
  then have known: "\<forall>a\<in>set (vb_ancestors later_block). g < br_round a \<longrightarrow> dag_lookup d a \<noteq> None"
    using assms(2) unfolding dag_closed_def by blast
  have "(\<exists>a\<in>set (vb_ancestors later_block). (a, r) \<in> (causal d)\<^sup>*) \<longleftrightarrow> (?l, r) \<in> (causal d)\<^sup>*"
    if "br_round r = earlier_round" for r
  proof
    assume "\<exists>a\<in>set (vb_ancestors later_block). (a, r) \<in> (causal d)\<^sup>*"
    then show "(?l, r) \<in> (causal d)\<^sup>*" using links by (meson converse_rtrancl_into_rtrancl)
  next
    assume "(?l, r) \<in> (causal d)\<^sup>*"
    moreover have "?l \<noteq> r" using that assms(5) by auto
    ultimately show "\<exists>a\<in>set (vb_ancestors later_block). (a, r) \<in> (causal d)\<^sup>*"
      using links by (meson converse_rtranclE)
  qed
  then show ?thesis
    using ancestors_at_round_correct [OF assms(1-3) known] by auto blast
qed

text \<open>
  C32. \<open>ancestors_at_round\<close> terminates and is exact: on a DAG that is causally complete above a
  round below the requested one, it returns, in ascending reference order and without
  duplicates, exactly the blocks of that round in the causal history of the given block.
\<close>

theorem ancestors_at_round_is_causal_history:
  assumes "dag_wf d" and "dag_closed d g" and "g < earlier_round"
    and "dag_lookup d (reference later_block) = Some later_block"
    and "earlier_round < vb_round later_block"
  shows "\<exists>bs. ancestors_at_round d later_block earlier_round = Some bs \<and> bset_wf (map reference bs)
     \<and> (\<forall>x\<in>set bs. get_block d (reference x) = Some (Some x))
     \<and> reference ` set bs = {r. br_round r = earlier_round \<and> (reference later_block, r) \<in> (causal d)\<^sup>*}"
  using ancestors_at_round_exact [OF assms] by (simp add: get_block_eq)

text \<open>A DAG of two blocks on the sample committee, built by accepting them.\<close>

lemma accept_blocks_fresh:
  assumes "dag_wf d" and "\<not> enable_v3 (protocol_config (ds_context d))"
    and "\<forall>b\<in>set bs. 0 < vb_round b \<and> vb_round b < u32_max \<and> vb_author b < committee_size (ds_committee d)
           \<and> vb_author b \<noteq> own_index (ds_context d) \<and> dag_lookup d (reference b) = None"
    and "distinct (map reference bs)"
  shows "\<exists>d'. accept_blocks now bs d = Some d' \<and> dag_wf d' \<and> ds_context d' = ds_context d
     \<and> ds_last_commit d' = ds_last_commit d
     \<and> dag_lookup d' = dag_lookup d ++ map_of (map (\<lambda>b. (reference b, b)) bs)
     \<and> cache_view d' = cache_view d ++ map_of (map (\<lambda>b. (reference b, b)) bs)
     \<and> ds_highest_accepted_round d' = fold max (map vb_round bs) (ds_highest_accepted_round d)"
  using assms
proof (induction bs arbitrary: d)
  case (Cons b bs)
  have b: "0 < vb_round b" "vb_round b < u32_max" "vb_author b < committee_size (ds_committee d)"
    "vb_author b \<noteq> own_index (ds_context d)" "dag_lookup d (reference b) = None"
    using Cons.prems(3) by auto
  from accept_block_total [OF Cons.prems(1) b(1-3) Cons.prems(2)] b(4) obtain d1 where
    d1: "accept_block now b d = Some d1" by blast
  with accept_block_lookup [OF Cons.prems(1) d1 b(3)] b(5) have
    props: "dag_wf d1" "ds_context d1 = ds_context d" "ds_last_commit d1 = ds_last_commit d"
      "dag_lookup d1 = (dag_lookup d)(reference b \<mapsto> b)" "cache_view d1 = (cache_view d)(reference b \<mapsto> b)"
      "ds_highest_accepted_round d1 = max (ds_highest_accepted_round d) (vb_round b)" by auto
  have "\<exists>d'. accept_blocks now bs d1 = Some d' \<and> dag_wf d' \<and> ds_context d' = ds_context d1
     \<and> ds_last_commit d' = ds_last_commit d1
     \<and> dag_lookup d' = dag_lookup d1 ++ map_of (map (\<lambda>b. (reference b, b)) bs)
     \<and> cache_view d' = cache_view d1 ++ map_of (map (\<lambda>b. (reference b, b)) bs)
     \<and> ds_highest_accepted_round d' = fold max (map vb_round bs) (ds_highest_accepted_round d1)"
    using Cons.prems(2-4) props by (intro Cons.IH) (auto simp: image_iff)
  moreover have "map_of (map (\<lambda>b. (reference b, b)) bs) (reference b) = None"
    using Cons.prems(4) by (auto simp: map_of_eq_None_iff)
  then have "dag_lookup d1 ++ map_of (map (\<lambda>b. (reference b, b)) bs)
      = dag_lookup d ++ map_of (map (\<lambda>b. (reference b, b)) (b # bs))"
    and "cache_view d1 ++ map_of (map (\<lambda>b. (reference b, b)) bs)
      = cache_view d ++ map_of (map (\<lambda>b. (reference b, b)) (b # bs))"
    by (auto simp: props(4,5) map_add_def fun_eq_iff split: option.split)
  moreover have "accept_blocks now (b # bs) d = accept_blocks now bs d1"
    using d1 by (simp add: accept_blocks_def)
  moreover have "fold max (map vb_round (b # bs)) (ds_highest_accepted_round d)
      = fold max (map vb_round bs) (ds_highest_accepted_round d1)"
    by (simp add: props(6) max.commute)
  ultimately show ?case using props(2,3) by metis
qed (simp add: accept_blocks_def)

lemma sample_genesis_lookup:
  assumes "dag_lookup sample_dag r = Some b"
  shows "br_round r = 0 \<and> b \<in> set sample_genesis \<and> reference b = r"
proof -
  from assms have round: "br_round r = 0" using sample_dag_lookup [of r] by (cases "br_round r") auto
  with assms have "map_of (ds_genesis sample_dag) r = Some b"
    by (simp add: dag_lookup_def GENESIS_ROUND_def)
  moreover have "map_of (fold (\<lambda>b. bmap_insert (reference b) b) gs m) r = Some b \<Longrightarrow>
      b \<in> set gs \<or> map_of m r = Some b" for gs m
  proof (induction gs arbitrary: m)
    case (Cons g gs)
    from Cons.IH [of "bmap_insert (reference g) g m"] Cons.prems show ?case by (auto split: if_splits)
  qed simp
  ultimately have "b \<in> set sample_genesis" by (fastforce simp: sample_dag_def)
  then show ?thesis using round dag_lookup_reference [OF sample_dag_wf assms] by simp
qed

lemma sample_genesis_ancestors: "dag_lookup sample_dag r = Some b \<Longrightarrow> vb_ancestors b = []"
  by (drule sample_genesis_lookup)
     (auto simp: sample_genesis_def new_verified_def SignedBlock_new_genesis_def genesis_block_v2_def vb_inner_def)

lemma sample_genesis_unique:
  assumes "dag_lookup sample_dag r \<noteq> None" and "dag_lookup sample_dag r' \<noteq> None" and "br_author r = br_author r'"
  shows "r = r'"
proof -
  from assms(1,2) obtain b b' where b: "dag_lookup sample_dag r = Some b" "dag_lookup sample_dag r' = Some b'" by auto
  note g = sample_genesis_lookup [OF b(1)] sample_genesis_lookup [OF b(2)]
  moreover have "vb_author b = vb_author b'" using g assms(3) by auto
  ultimately have "b = b'"
    by (auto simp: sample_genesis_def new_verified_def SignedBlock_new_genesis_def genesis_block_v2_def vb_inner_def)
  then show ?thesis using g by simp
qed

theorem ancestors_at_round_is_causal_history_witness:
  "\<exists>d bs. accept_blocks 0 [sample_vblock 1 1 [], sample_vblock 1 3 [], sample_vblock 2 2 [sample_ref 1 1]]
       sample_dag = Some d
     \<and> ancestors_at_round d (sample_vblock 2 2 [sample_ref 1 1]) 1 = Some bs
     \<and> sample_ref 1 1 \<in> reference ` set bs"
proof -
  let ?bs = "[sample_vblock 1 1 [], sample_vblock 1 3 [], sample_vblock 2 2 [sample_ref 1 1]]"
  have "\<exists>d. accept_blocks 0 ?bs sample_dag = Some d \<and> dag_wf d \<and> ds_context d = ds_context sample_dag
     \<and> ds_last_commit d = ds_last_commit sample_dag
     \<and> dag_lookup d = dag_lookup sample_dag ++ map_of (map (\<lambda>b. (reference b, b)) ?bs)
     \<and> cache_view d = cache_view sample_dag ++ map_of (map (\<lambda>b. (reference b, b)) ?bs)
     \<and> ds_highest_accepted_round d = fold max (map vb_round ?bs) (ds_highest_accepted_round sample_dag)"
    by (rule accept_blocks_fresh [OF sample_dag_wf])
       (auto simp: sample_config_def u32_max_def sample_dag_lookup)
  then obtain d where d: "accept_blocks 0 ?bs sample_dag = Some d" "dag_wf d"
    and look: "dag_lookup d = dag_lookup sample_dag ++ map_of (map (\<lambda>b. (reference b, b)) ?bs)" by blast
  have caus: "causal d = {(sample_ref 2 2, sample_ref 1 1)}"
    by (auto simp: causal_def look map_add_Some_iff sample_dag_lookup split: if_splits
        dest!: sample_genesis_ancestors)
  have "dag_closed d 0" by (auto simp: dag_closed_def caus look)
  from ancestors_at_round_is_causal_history [OF d(2) this, of 1 "sample_vblock 2 2 [sample_ref 1 1]"]
  show ?thesis using d(1) by (auto simp: look caus)
qed

subsection \<open>Marking what an own block includes\<close>

definition included :: "recent_blocks \<Rightarrow> block_ref set" where
  "included m = {r. \<exists>info. map_of m r = Some info \<and> bi_included info}"

definition links :: "recent_blocks \<Rightarrow> (block_ref \<times> block_ref) set" where
  "links m = {(r, a). \<exists>info. map_of m r = Some info \<and> a \<in> set (vb_ancestors (bi_block info))}"

text \<open>The cache is complete above the garbage collection round.\<close>

definition links_closed :: "round \<Rightarrow> recent_blocks \<Rightarrow> bool" where
  "links_closed gc m \<longleftrightarrow> (\<forall>r a. (r, a) \<in> links m \<longrightarrow>
     br_round a < br_round r \<and> (gc < br_round a \<longrightarrow> map_of m a \<noteq> None))"

text \<open>Inclusion is inherited by ancestors.\<close>

definition included_closed :: "round \<Rightarrow> recent_blocks \<Rightarrow> bool" where
  "included_closed gc m \<longleftrightarrow>
     (\<forall>r a. r \<in> included m \<longrightarrow> (r, a) \<in> links m \<longrightarrow> gc < br_round a \<longrightarrow> a \<in> included m)"

lemma mark_included:
  assumes "map_of m r = Some info"
  shows "included (bmap_insert r (info\<lparr>bi_included := True\<rparr>) m) = insert r (included m)"
    and "links (bmap_insert r (info\<lparr>bi_included := True\<rparr>) m) = links m"
    and "links_closed gc (bmap_insert r (info\<lparr>bi_included := True\<rparr>) m) = links_closed gc m"
    and "map_of (bmap_insert r (info\<lparr>bi_included := True\<rparr>) m) a = None \<longleftrightarrow> map_of m a = None"
proof -
  show "included (bmap_insert r (info\<lparr>bi_included := True\<rparr>) m) = insert r (included m)"
    by (auto simp: included_def)
  show l: "links (bmap_insert r (info\<lparr>bi_included := True\<rparr>) m) = links m"
    using assms by (auto simp: links_def split: if_splits)
  show n: "map_of (bmap_insert r (info\<lparr>bi_included := True\<rparr>) m) a = None \<longleftrightarrow> map_of m a = None" for a
    using assms by auto
  show "links_closed gc (bmap_insert r (info\<lparr>bi_included := True\<rparr>) m) = links_closed gc m"
    unfolding links_closed_def l n ..
qed

lemma link_targets_correct:
  assumes "links_closed gc m" and "\<forall>r\<in>set ts. gc < br_round r \<longrightarrow> map_of m r \<noteq> None"
  shows "\<exists>m' new. link_targets gc m ts linked = Some (m', linked @ new)
     \<and> distinct new \<and> set new \<inter> included m = {} \<and> included m' = included m \<union> set new
     \<and> links m' = links m \<and> (\<forall>r\<in>set new. gc < br_round r)
     \<and> (\<forall>r\<in>set ts. gc < br_round r \<longrightarrow> r \<in> included m')
     \<and> (\<forall>r\<in>set new. \<forall>a. (r, a) \<in> links m \<longrightarrow> gc < br_round a \<longrightarrow> a \<in> included m')
     \<and> (\<forall>r\<in>set new. \<exists>t\<in>set ts. (t, r) \<in> (links m)\<^sup>*)"
  using assms
proof (induction gc m ts linked rule: link_targets.induct)
  case (1 gc m linked)
  then show ?case by simp
next
  case (2 gc m r ts linked)
  show ?case
  proof (cases "br_round r \<le> gc")
    case True
    then show ?thesis using 2(1) [OF True 2(4)] 2(5) by auto
  next
    case False
    with 2(5) obtain info where info: "map_of m r = Some info" by fastforce
    show ?thesis
    proof (cases "bi_included info")
      case True
      then have "r \<in> included m" using info by (auto simp: included_def)
      with 2(2) [OF False info True 2(4)] 2(5) False info True show ?thesis by auto
    next
      case fresh: False
      let ?m = "bmap_insert r (info\<lparr>bi_included := True\<rparr>) m"
      let ?ts = "ts @ vb_ancestors (bi_block info)"
      note mark = mark_included [OF info]
      have not: "r \<notin> included m" using info fresh by (auto simp: included_def)
      have anc: "(r, a) \<in> links m \<longleftrightarrow> a \<in> set (vb_ancestors (bi_block info))" for a
        using info by (auto simp: links_def)
      have known: "\<forall>x\<in>set ?ts. gc < br_round x \<longrightarrow> map_of ?m x \<noteq> None"
        unfolding mark(4) using 2(4,5) anc unfolding links_closed_def by (auto simp del: not_None_eq)
      have "links_closed gc ?m" using 2(4) by (simp only: mark(3))
      from 2(3) [OF False info fresh this known] obtain m' new where
        IH: "link_targets gc ?m ?ts (linked @ [r]) = Some (m', (linked @ [r]) @ new)"
          "distinct new" "set new \<inter> insert r (included m) = {}" "included m' = insert r (included m) \<union> set new"
          "links m' = links m" "\<forall>r\<in>set new. gc < br_round r"
          "\<forall>r\<in>set ?ts. gc < br_round r \<longrightarrow> r \<in> included m'"
          "\<forall>r\<in>set new. \<forall>a. (r, a) \<in> links m \<longrightarrow> gc < br_round a \<longrightarrow> a \<in> included m'"
          "\<forall>r\<in>set new. \<exists>t\<in>set ?ts. (t, r) \<in> (links m)\<^sup>*"
        unfolding mark(1,2) by blast
      have reach: "\<exists>t\<in>set (r # ts). (t, x) \<in> (links m)\<^sup>*" if "x \<in> set (r # new)" for x
      proof (cases "x = r")
        case False
        with that IH(9) obtain t where t: "t \<in> set ?ts" "(t, x) \<in> (links m)\<^sup>*" by auto
        show ?thesis
        proof (cases "t \<in> set ts")
          case False
          then have "(r, t) \<in> links m" using t(1) anc by simp
          with t(2) show ?thesis by (auto intro: converse_rtrancl_into_rtrancl)
        qed (use t in auto)
      qed simp
      show ?thesis
        using IH not False info fresh anc reach
        by (intro exI [of _ m'] exI [of _ "r # new"]) auto
    qed
  qed
qed

text \<open>Inclusion reaches everything above the garbage collection round below an included block.\<close>

lemma included_reaches:
  assumes "links_closed gc m" and "links m' = links m" and "included_closed gc m'"
    and "r \<in> included m'" and "(r, x) \<in> (links m)\<^sup>*" and "gc < br_round x"
  shows "x \<in> included m'"
  using assms(5,6)
proof (induction rule: rtrancl_induct)
  case (step y z)
  then have "br_round z < br_round y" using assms(1) unfolding links_closed_def by blast
  with step have "y \<in> included m'" by simp
  with step assms(2,3) show ?case unfolding included_closed_def by blast
qed (use assms(4) in simp)

text \<open>
  C33. \<open>link_causal_history\<close> terminates on a cache that is complete above the garbage collection
  round. The returned references are distinct, above that round, in the causal history of the
  root and not included before; afterwards exactly they are included in addition, inclusion is
  still inherited by ancestors, and the whole causal history of the root above the garbage
  collection round is included, so each block is voted on by one own block.
\<close>

theorem link_causal_history_includes_history_once:
  assumes "links_closed (gc_round d) (ds_recent_blocks d)"
    and "included_closed (gc_round d) (ds_recent_blocks d)"
    and "map_of (ds_recent_blocks d) root \<noteq> None" and "gc_round d < br_round root"
  shows "\<exists>d' new. link_causal_history root d = Some (d', new) \<and> distinct new
     \<and> (\<forall>r\<in>set new. gc_round d < br_round r \<and> has_been_included d r \<noteq> Some True
          \<and> (root, r) \<in> (links (ds_recent_blocks d))\<^sup>*)
     \<and> (\<forall>r. has_been_included d' r = Some True \<longleftrightarrow> has_been_included d r = Some True \<or> r \<in> set new)
     \<and> included_closed (gc_round d) (ds_recent_blocks d')
     \<and> (\<forall>r. (root, r) \<in> (links (ds_recent_blocks d))\<^sup>* \<longrightarrow> gc_round d < br_round r
          \<longrightarrow> has_been_included d' r = Some True)"
proof -
  let ?gc = "gc_round d" and ?m = "ds_recent_blocks d"
  have inc: "has_been_included d r = Some True \<longleftrightarrow> r \<in> included (ds_recent_blocks d)" for d r
    by (auto simp: has_been_included_def included_def)
  have "\<forall>r\<in>set [root]. ?gc < br_round r \<longrightarrow> map_of ?m r \<noteq> None" using assms(3) by simp
  from link_targets_correct [OF assms(1) this, of "[]"] obtain m' new where
    run: "link_targets ?gc ?m [root] [] = Some (m', [] @ new)"
    and new: "distinct new" "set new \<inter> included ?m = {}" "included m' = included ?m \<union> set new"
      "links m' = links ?m" "\<forall>r\<in>set new. ?gc < br_round r"
      "\<forall>r\<in>set [root]. ?gc < br_round r \<longrightarrow> r \<in> included m'"
      "\<forall>r\<in>set new. \<forall>a. (r, a) \<in> links ?m \<longrightarrow> ?gc < br_round a \<longrightarrow> a \<in> included m'"
      "\<forall>r\<in>set new. \<exists>t\<in>set [root]. (t, r) \<in> (links ?m)\<^sup>*" by blast
  have closed: "included_closed ?gc m'"
    using assms(2) new(3,4,7) unfolding included_closed_def by blast
  have all: "r \<in> included m'" if "(root, r) \<in> (links ?m)\<^sup>*" "?gc < br_round r" for r
    using included_reaches [OF assms(1) new(4) closed _ that] new(6) assms(4) by simp
  have "link_causal_history root d = Some (d\<lparr>ds_recent_blocks := m'\<rparr>, new)"
    unfolding link_causal_history_def run by simp
  moreover have "\<forall>r\<in>set new. ?gc < br_round r \<and> r \<notin> included ?m \<and> (root, r) \<in> (links ?m)\<^sup>*"
    using new(2,5,8) by auto
  ultimately show ?thesis
    unfolding inc using new(1,3) closed all
    by (intro exI [of _ "d\<lparr>ds_recent_blocks := m'\<rparr>"] exI [of _ new]) simp
qed

definition sample_linked_dag :: dag_state where
  "sample_linked_dag = sample_dag\<lparr>ds_recent_blocks :=
     [(sample_ref 1 1, BlockInfo_new (sample_vblock 1 1 [])),
      (sample_ref 2 2, BlockInfo_new (sample_vblock 2 2 [sample_ref 1 1]))]\<rparr>"

theorem link_causal_history_includes_history_once_witness:
  "\<exists>d' new. link_causal_history (sample_ref 2 2) sample_linked_dag = Some (d', new) \<and> distinct new
     \<and> has_been_included d' (sample_ref 1 1) = Some True"
proof -
  have gc: "gc_round sample_linked_dag = 0"
    by (simp add: sample_linked_dag_def sample_dag_def initial_dag_def Let_def gc_round_def
        last_commit_round_def calculate_gc_round_def)
  have links: "links (ds_recent_blocks sample_linked_dag) = {(sample_ref 2 2, sample_ref 1 1)}"
    by (auto simp: links_def sample_linked_dag_def BlockInfo_new_def split: if_splits)
  have inc: "included (ds_recent_blocks sample_linked_dag) = {}"
    by (auto simp: included_def sample_linked_dag_def BlockInfo_new_def split: if_splits)
  have known: "map_of (ds_recent_blocks sample_linked_dag) (sample_ref 1 1) \<noteq> None"
    "map_of (ds_recent_blocks sample_linked_dag) (sample_ref 2 2) \<noteq> None"
    by (simp_all add: sample_linked_dag_def)
  have "links_closed (gc_round sample_linked_dag) (ds_recent_blocks sample_linked_dag)"
    unfolding links_closed_def links using known by auto
  moreover have "included_closed (gc_round sample_linked_dag) (ds_recent_blocks sample_linked_dag)"
    unfolding included_closed_def inc by simp
  ultimately have "\<exists>d' new. link_causal_history (sample_ref 2 2) sample_linked_dag = Some (d', new) \<and> distinct new
     \<and> (\<forall>r. (sample_ref 2 2, r) \<in> (links (ds_recent_blocks sample_linked_dag))\<^sup>* \<longrightarrow> 0 < br_round r
          \<longrightarrow> has_been_included d' r = Some True)"
    using link_causal_history_includes_history_once [of sample_linked_dag "sample_ref 2 2"] known(2)
    unfolding gc by (metis sample_ref_fields(1) zero_less_numeral)
  then show ?thesis unfolding links by (metis insertI1 r_into_rtrancl sample_ref_fields(1) zero_less_one)
qed

end
