(* ===== verification/Base_Committer.thy ===== *)
theory Base_Committer
  imports Leader_Schedule Dag_Traversal
begin

section \<open>The base committer\<close>

text \<open>
  Model of \<open>consensus/src/base_committer.rs\<close>: the direct and the indirect decision rule for one
  leader per wave. A block of the voting round supports the leader block it links to, a block of
  the decision round is a certificate when a quorum of its parents are votes, and a leader is
  decided directly by a quorum of certificates or of blames, or indirectly through the first
  committed leader after its decision round. The shared \<open>DagState\<close> is an argument.
\<close>

record committer_options =
  wave_length :: nat
  leader_offset :: nat
  round_offset :: round

definition CommitterOptions_default :: committer_options where
  "CommitterOptions_default = \<lparr>wave_length = DEFAULT_WAVE_LENGTH, leader_offset = 0, round_offset = 0\<rparr>"

record base_committer =
  bc_context :: consensus_context
  bc_schedule :: leader_schedule
  bc_options :: committer_options

definition BaseCommitter_new ::
    "consensus_context \<Rightarrow> leader_schedule \<Rightarrow> committer_options \<Rightarrow> base_committer" where
  "BaseCommitter_new ctx ls opts = \<lparr>bc_context = ctx, bc_schedule = ls, bc_options = opts\<rparr>"

abbreviation bc_committee :: "base_committer \<Rightarrow> committee" where
  "bc_committee bc \<equiv> ctx_committee (bc_context bc)"

subsection \<open>Waves\<close>

definition leader_round :: "base_committer \<Rightarrow> nat \<Rightarrow> round option" where
  "leader_round bc wave = do {
     start \<leftarrow> u32_mul wave (wave_length (bc_options bc));
     u32_add start (round_offset (bc_options bc))
   }"

definition decision_round :: "base_committer \<Rightarrow> nat \<Rightarrow> round option" where
  "decision_round bc wave = do {
     start \<leftarrow> u32_mul wave (wave_length (bc_options bc));
     next \<leftarrow> u32_add start (wave_length (bc_options bc));
     end_round \<leftarrow> checked_sub next 1;
     u32_add end_round (round_offset (bc_options bc))
   }"

definition wave_number :: "base_committer \<Rightarrow> round \<Rightarrow> nat option" where
  "wave_number bc r =
     (if wave_length (bc_options bc) = 0 then None
      else Some (saturating_sub r (round_offset (bc_options bc)) div wave_length (bc_options bc)))"

definition bc_elect_leader :: "rng_lib \<Rightarrow> base_committer \<Rightarrow> round \<Rightarrow> slot option option" where
  "bc_elect_leader rng bc r = do {
     wave \<leftarrow> wave_number bc r;
     l \<leftarrow> leader_round bc wave;
     (if l \<noteq> r then Some None
      else do {
        a \<leftarrow> elect_leader rng (bc_schedule bc) r (leader_offset (bc_options bc));
        Some (Some (Slot r a))
      })
   }"

subsection \<open>Votes and certificates\<close>

text \<open>The recursion of \<open>find_supported_block\<close>, as the loop over the remaining ancestors of a
  block. Whether it ends depends on the DAG, hence the partial function.\<close>

partial_function (option) find_supported_in :: "dag_state \<Rightarrow> slot \<Rightarrow> block_ref list \<Rightarrow> block_ref option option" where
  "find_supported_in d leader_slot refs =
     (case refs of
        [] \<Rightarrow> Some None
      | a # rest \<Rightarrow>
          if slot_of_ref a = leader_slot then Some (Some a)
          else if br_round a \<le> slot_round leader_slot then find_supported_in d leader_slot rest
          else Option.bind (get_block d a) (\<lambda>found. Option.bind found (\<lambda>block.
               Option.bind (if vb_round block < slot_round leader_slot then Some None
                            else find_supported_in d leader_slot (vb_ancestors block))
                 (\<lambda>support. case support of
                    Some s \<Rightarrow> Some (Some s)
                  | None \<Rightarrow> find_supported_in d leader_slot rest))))"

definition find_supported_block :: "dag_state \<Rightarrow> slot \<Rightarrow> verified_block \<Rightarrow> block_ref option option" where
  "find_supported_block d leader_slot from_block =
     (if vb_round from_block < slot_round leader_slot then Some None
      else find_supported_in d leader_slot (vb_ancestors from_block))"

definition is_vote :: "dag_state \<Rightarrow> verified_block \<Rightarrow> verified_block \<Rightarrow> bool option" where
  "is_vote d potential_vote leader_block = do {
     let r = reference leader_block;
     support \<leftarrow> find_supported_block d (slot_of_ref r) potential_vote;
     Some (support = Some r)
   }"

text \<open>The cached vote check of \<open>is_certificate\<close>.\<close>

definition vote_of ::
    "dag_state \<Rightarrow> verified_block \<Rightarrow> block_ref \<Rightarrow> (block_ref \<rightharpoonup> bool) \<Rightarrow> (bool \<times> (block_ref \<rightharpoonup> bool)) option" where
  "vote_of d leader_block r all_votes = (case all_votes r of
     Some v \<Rightarrow> Some (v, all_votes)
   | None \<Rightarrow> do {
       potential_vote \<leftarrow> get_block d r;
       v \<leftarrow> (case potential_vote of
          Some b \<Rightarrow> is_vote d b leader_block
        | None \<Rightarrow> do { rassert (br_round r \<le> gc_round d); Some False });
       Some (v, all_votes(r \<mapsto> v))
     })"

fun count_certificate ::
    "dag_state \<Rightarrow> committee \<Rightarrow> verified_block \<Rightarrow> block_ref list \<Rightarrow> stake_aggregator \<Rightarrow> (block_ref \<rightharpoonup> bool)
       \<Rightarrow> (bool \<times> (block_ref \<rightharpoonup> bool)) option" where
  "count_certificate d c leader_block [] agg all_votes = Some (False, all_votes)"
| "count_certificate d c leader_block (r # rest) agg all_votes = do {
     (v, all_votes') \<leftarrow> vote_of d leader_block r all_votes;
     (if v then do {
        (agg', reached) \<leftarrow> agg_add (br_author r) c agg;
        (if reached then Some (True, all_votes')
         else count_certificate d c leader_block rest agg' all_votes')
      } else count_certificate d c leader_block rest agg all_votes')
   }"

definition is_certificate ::
    "dag_state \<Rightarrow> committee \<Rightarrow> verified_block \<Rightarrow> verified_block \<Rightarrow> (block_ref \<rightharpoonup> bool)
       \<Rightarrow> (bool \<times> (block_ref \<rightharpoonup> bool)) option" where
  "is_certificate d c potential_certificate leader_block all_votes =
     count_certificate d c leader_block (vb_ancestors potential_certificate)
       (StakeAggregator_new QuorumThreshold) all_votes"

subsection \<open>Blame and support\<close>

fun count_blames ::
    "committee \<Rightarrow> authority_index \<Rightarrow> verified_block list \<Rightarrow> stake_aggregator \<Rightarrow> bool option" where
  "count_blames c leader [] agg = Some False"
| "count_blames c leader (b # rest) agg =
     (if \<forall>a\<in>set (vb_ancestors b). br_author a \<noteq> leader then do {
        (agg', reached) \<leftarrow> agg_add (br_author (reference b)) c agg;
        (if reached then Some True else count_blames c leader rest agg')
      } else count_blames c leader rest agg)"

definition enough_leader_blame ::
    "dag_state \<Rightarrow> base_committer \<Rightarrow> round \<Rightarrow> authority_index \<Rightarrow> bool option" where
  "enough_leader_blame d bc voting_round leader = do {
     voting_blocks \<leftarrow> get_uncommitted_blocks_at_round d voting_round;
     count_blames (bc_committee bc) leader voting_blocks (StakeAggregator_new QuorumThreshold)
   }"

fun count_support ::
    "dag_state \<Rightarrow> committee \<Rightarrow> verified_block \<Rightarrow> verified_block list \<Rightarrow> stake_aggregator
       \<Rightarrow> (block_ref \<rightharpoonup> bool) \<Rightarrow> bool option" where
  "count_support d c leader_block [] agg all_votes = Some False"
| "count_support d c leader_block (b # rest) agg all_votes = do {
     (cert, all_votes') \<leftarrow> is_certificate d c b leader_block all_votes;
     (if cert then do {
        (agg', reached) \<leftarrow> agg_add (br_author (reference b)) c agg;
        (if reached then Some True else count_support d c leader_block rest agg' all_votes')
      } else count_support d c leader_block rest agg all_votes')
   }"

definition enough_leader_support :: "dag_state \<Rightarrow> base_committer \<Rightarrow> round \<Rightarrow> verified_block \<Rightarrow> bool option" where
  "enough_leader_support d bc decision_r leader_block = do {
     decision_blocks \<leftarrow> get_uncommitted_blocks_at_round d decision_r;
     stakes \<leftarrow> map_opt (\<lambda>b. committee_stake (bc_committee bc) (vb_author b)) decision_blocks;
     total \<leftarrow> u64_sum stakes;
     (if \<not> reached_quorum (bc_committee bc) total then Some False
      else count_support d (bc_committee bc) leader_block decision_blocks
             (StakeAggregator_new QuorumThreshold) (\<lambda>_. None))
   }"

subsection \<open>Decision rules\<close>

definition try_direct_decide :: "dag_state \<Rightarrow> base_committer \<Rightarrow> slot \<Rightarrow> leader_status option" where
  "try_direct_decide d bc leader = do {
     voting_round \<leftarrow> u32_add (slot_round leader) 1;
     blamed \<leftarrow> enough_leader_blame d bc voting_round (slot_authority leader);
     (if blamed then Some (Skip leader)
      else do {
        wave \<leftarrow> wave_number bc (slot_round leader);
        decision_r \<leftarrow> decision_round bc wave;
        supported \<leftarrow> filter_opt (enough_leader_support d bc decision_r) (get_uncommitted_blocks_at_slot d leader);
        rassert (length supported \<le> 1);
        Some (case bset_last supported of Some b \<Rightarrow> Commit b | None \<Rightarrow> Undecided leader)
      })
   }"

fun any_certificate ::
    "dag_state \<Rightarrow> committee \<Rightarrow> verified_block \<Rightarrow> verified_block list \<Rightarrow> (block_ref \<rightharpoonup> bool) \<Rightarrow> bool option" where
  "any_certificate d c leader_block [] all_votes = Some False"
| "any_certificate d c leader_block (p # rest) all_votes = do {
     (cert, all_votes') \<leftarrow> is_certificate d c p leader_block all_votes;
     (if cert then Some True else any_certificate d c leader_block rest all_votes')
   }"

definition decide_leader_from_anchor ::
    "dag_state \<Rightarrow> base_committer \<Rightarrow> verified_block \<Rightarrow> slot \<Rightarrow> leader_status option" where
  "decide_leader_from_anchor d bc anchor leader_slot = do {
     let leader_blocks = get_uncommitted_blocks_at_slot d leader_slot;
     wave \<leftarrow> wave_number bc (slot_round leader_slot);
     decision_r \<leftarrow> decision_round bc wave;
     potential_certificates \<leftarrow> ancestors_at_round d anchor decision_r;
     certified \<leftarrow> filter_opt (\<lambda>l. any_certificate d (bc_committee bc) l potential_certificates (\<lambda>_. None)) leader_blocks;
     rassert (length certified \<le> 1);
     Some (case bset_last certified of Some b \<Rightarrow> Commit b | None \<Rightarrow> Skip leader_slot)
   }"

text \<open>The loop over the anchors: skipped leaders are passed over, an undecided one stops it.\<close>

fun decide_from_anchors ::
    "dag_state \<Rightarrow> base_committer \<Rightarrow> slot \<Rightarrow> leader_status list \<Rightarrow> leader_status option" where
  "decide_from_anchors d bc leader_slot [] = Some (Undecided leader_slot)"
| "decide_from_anchors d bc leader_slot (x # rest) = (case x of
     Commit anchor \<Rightarrow> decide_leader_from_anchor d bc anchor leader_slot
   | Skip _ \<Rightarrow> decide_from_anchors d bc leader_slot rest
   | Undecided _ \<Rightarrow> Some (Undecided leader_slot))"

definition try_indirect_decide ::
    "dag_state \<Rightarrow> base_committer \<Rightarrow> slot \<Rightarrow> leader_status list \<Rightarrow> leader_status option" where
  "try_indirect_decide d bc leader_slot leaders =
     (if leaders = [] then Some (Undecided leader_slot)
      else do {
        earliest \<leftarrow> u32_add (slot_round leader_slot) (wave_length (bc_options bc));
        decide_from_anchors d bc leader_slot (filter (\<lambda>x. earliest \<le> ls_round x) leaders)
      })"

end
