(* ===== verification/Block_Verifier.thy ===== *)
theory Block_Verifier
  imports Stake_Aggregator
begin

section \<open>Verification of signed blocks\<close>

text \<open>
  Model of \<open>consensus/src/block_verifier.rs\<close>: the checks a received block passes before it can
  enter the DAG, in the order of the code, and the declarative validity they decide. The
  application's \<open>TransactionVerifier\<close> is the record \<open>transaction_verifier\<close>.
\<close>

record transaction_verifier =
  verify_batch :: "bytes list \<Rightarrow> string + unit"
  verify_and_vote_batch :: "block_ref \<Rightarrow> bytes list \<Rightarrow> string + transaction_index list"

record signed_block_verifier =
  sbv_context :: consensus_context
  sbv_genesis :: "block_ref list"
  sbv_transaction_verifier :: transaction_verifier

definition SignedBlockVerifier_new ::
    "crypto \<Rightarrow> consensus_context \<Rightarrow> transaction_verifier \<Rightarrow> signed_block_verifier option" where
  "SignedBlockVerifier_new cr ctx tv = do {
     blocks \<leftarrow> genesis_blocks cr ctx;
     Some \<lparr>sbv_context = ctx, sbv_genesis = bset_extend [] (map reference blocks),
           sbv_transaction_verifier = tv\<rparr>
   }"

definition check_transactions :: "signed_block_verifier \<Rightarrow> bytes list \<Rightarrow> unit consensus_result" where
  "check_transactions v batch = (
     let config = protocol_config (sbv_context v);
         max_size = max_transaction_size_bytes config;
         max_num = max_num_transactions_in_block config;
         max_total = max_transactions_in_block_bytes config
     in case find (\<lambda>t. length t > max_size \<and> max_size > 0) batch of
       Some t \<Rightarrow> Inl (TransactionTooLarge (length t) max_size)
     | None \<Rightarrow>
         if length batch > max_num \<and> max_num > 0
         then Inl (TooManyTransactions (length batch) max_num)
         else if sum_list (map length batch) > max_total \<and> max_total > 0
         then Inl (TooManyTransactionBytes (length batch) max_total)
         else Inr ())"

fun verify_ancestors ::
    "signed_block_verifier \<Rightarrow> block \<Rightarrow> nat \<Rightarrow> block_ref list \<Rightarrow> bool list \<Rightarrow> stake
       \<Rightarrow> stake consensus_result option" where
  "verify_ancestors v block i [] seen parent_stakes = Some (Inr parent_stakes)"
| "verify_ancestors v block i (ancestor # rest) seen parent_stakes = (
     let committee = ctx_committee (sbv_context v) in
     if \<not> is_valid_index committee (br_author ancestor) then do {
       mx \<leftarrow> checked_sub (committee_size committee) 1;
       Some (Inl (InvalidAuthorityIndex (br_author ancestor) mx))
     } else if (i = 0 \<and> br_author ancestor \<noteq> b_author block)
             \<or> (i > 0 \<and> br_author ancestor = b_author block)
     then Some (Inl (InvalidAncestorPosition (b_author block) (br_author ancestor) i))
     else if br_round ancestor \<ge> b_round block
     then Some (Inl (InvalidAncestorRound (br_round ancestor) (b_round block)))
     else if br_round ancestor = GENESIS_ROUND \<and> ancestor \<notin> set (sbv_genesis v)
     then Some (Inl (InvalidGenesisAncestor ancestor))
     else do {
       dup \<leftarrow> vec_get seen (br_author ancestor);
       if dup then Some (Inl (DuplicatedAncestorsAuthority (br_author ancestor)))
       else do {
         seen' \<leftarrow> vec_set seen (br_author ancestor) True;
         parent_round \<leftarrow> checked_sub (b_round block) 1;
         stakes \<leftarrow> (if br_round ancestor = parent_round then do {
                      s \<leftarrow> committee_stake committee (br_author ancestor);
                      u64_add parent_stakes s
                    } else Some parent_stakes);
         verify_ancestors v block (Suc i) rest seen' stakes
       }
     })"

definition verify_block ::
    "crypto \<Rightarrow> signed_block_verifier \<Rightarrow> signed_block \<Rightarrow> unit consensus_result option" where
  "verify_block cr v sb = (
     let committee = ctx_committee (sbv_context v); block = sb_inner sb in
     if b_epoch block \<noteq> committee_epoch committee
     then Some (Inl (WrongEpoch (committee_epoch committee) (b_epoch block)))
     else if b_round block = 0 then Some (Inl UnexpectedGenesisBlock)
     else if \<not> is_valid_index committee (b_author block) then do {
       mx \<leftarrow> checked_sub (committee_size committee) 1;
       Some (Inl (InvalidAuthorityIndex (b_author block) mx))
     } else try_panic (verify_signature cr (sbv_context v) sb) (\<lambda>_.
     if length (b_ancestors block) > committee_size committee
     then Some (Inl (TooManyAncestors (length (b_ancestors block)) (committee_size committee)))
     else if b_ancestors block = []
     then Some (Inl (InsufficientParentStakes 0 (quorum_threshold committee)))
     else try_panic (verify_ancestors v block 0 (b_ancestors block)
                       (replicate (committee_size committee) False) 0) (\<lambda>parent_stakes.
     if \<not> reached_quorum committee parent_stakes
     then Some (Inl (InsufficientParentStakes parent_stakes (quorum_threshold committee)))
     else Some (check_transactions v (map (\<lambda>t. t) (b_transactions block))))))"

definition vote :: "signed_block_verifier \<Rightarrow> verified_block \<Rightarrow> transaction_index list consensus_result" where
  "vote v b = map_err InvalidTransaction
     (verify_and_vote_batch (sbv_transaction_verifier v) (reference b)
        (b_transactions_data (vb_inner b)))"

definition verify_and_vote ::
    "crypto \<Rightarrow> signed_block_verifier \<Rightarrow> signed_block \<Rightarrow> bytes
       \<Rightarrow> (verified_block \<times> transaction_index list) consensus_result option" where
  "verify_and_vote cr v block serialized_block =
     try_panic (verify_block cr v block) (\<lambda>_.
       let verified_block = new_verified cr block serialized_block in
       Some (result_bind
         (if transaction_voting_enabled (protocol_config (sbv_context v))
          then vote v verified_block
          else result_bind (map_err InvalidTransaction
                 (verify_batch (sbv_transaction_verifier v)
                    (b_transactions_data (vb_inner verified_block)))) (\<lambda>_. Inr []))
         (\<lambda>rejected_transactions. Inr (verified_block, rejected_transactions))))"

subsection \<open>Transaction limits\<close>

text \<open>A limit of zero means no limit.\<close>

definition within_limit :: "nat \<Rightarrow> nat \<Rightarrow> bool" where
  "within_limit limit n \<longleftrightarrow> limit = 0 \<or> n \<le> limit"

definition transactions_ok :: "consensus_protocol_config \<Rightarrow> bytes list \<Rightarrow> bool" where
  "transactions_ok config batch \<longleftrightarrow>
     (\<forall>t\<in>set batch. within_limit (max_transaction_size_bytes config) (length t))
   \<and> within_limit (max_num_transactions_in_block config) (length batch)
   \<and> within_limit (max_transactions_in_block_bytes config) (sum_list (map length batch))"

lemma check_transactions_iff:
  "check_transactions v batch = Inr () \<longleftrightarrow> transactions_ok (protocol_config (sbv_context v)) batch"
proof -
  let ?m = "max_transaction_size_bytes (protocol_config (sbv_context v))"
  let ?P = "\<lambda>t :: bytes. length t > ?m \<and> ?m > 0"
  have "find ?P batch = None \<longleftrightarrow> (\<forall>t\<in>set batch. within_limit ?m (length t))"
    by (auto simp: find_None_iff within_limit_def not_less)
  then show ?thesis
    by (cases "find ?P batch")
       (auto simp: check_transactions_def transactions_ok_def within_limit_def Let_def)
qed

subsection \<open>The ancestor loop\<close>

definition parent_stake :: "committee \<Rightarrow> round \<Rightarrow> block_ref list \<Rightarrow> stake" where
  "parent_stake c r refs = stake_of c (br_author ` {a \<in> set refs. br_round a + 1 = r})"

definition ancestor_ok :: "signed_block_verifier \<Rightarrow> block \<Rightarrow> block_ref \<Rightarrow> bool" where
  "ancestor_ok v block a \<longleftrightarrow> is_valid_index (ctx_committee (sbv_context v)) (br_author a)
     \<and> br_round a < b_round block \<and> (br_round a = GENESIS_ROUND \<longrightarrow> a \<in> set (sbv_genesis v))"

definition seen_authors :: "bool list \<Rightarrow> authority_index set" where
  "seen_authors seen = {i. i < length seen \<and> seen ! i}"

lemma seen_authors_replicate [simp]: "seen_authors (replicate n False) = {}"
  by (auto simp: seen_authors_def)

lemma seen_authors_update:
  "i < length seen \<Longrightarrow> seen_authors (seen[i := True]) = insert i (seen_authors seen)"
  by (auto simp: seen_authors_def nth_list_update)

text \<open>One iteration on an acceptable ancestor.\<close>

lemma verify_ancestors_Cons:
  assumes "committee_wf (ctx_committee (sbv_context v))"
    and "length seen = committee_size (ctx_committee (sbv_context v))"
    and "ancestor_ok v block a"
    and "(i = 0) = (br_author a = b_author block)"
    and "br_author a \<notin> seen_authors seen"
    and "P \<subseteq> seen_authors seen" and "ps = stake_of (ctx_committee (sbv_context v)) P"
  defines "P' \<equiv> (if br_round a + 1 = b_round block then insert (br_author a) P else P)"
  shows "verify_ancestors v block i (a # rest) seen ps
       = verify_ancestors v block (Suc i) rest (seen[br_author a := True])
           (stake_of (ctx_committee (sbv_context v)) P')"
proof -
  let ?c = "ctx_committee (sbv_context v)"
  have a: "br_author a < committee_size ?c" "br_author a < length seen" "\<not> seen ! br_author a"
    using assms(2,3,5) by (auto simp: ancestor_ok_def is_valid_index_def seen_authors_def)
  have sub: "insert (br_author a) P \<subseteq> members ?c"
    using assms(2,6) a(1) by (auto simp: seen_authors_def)
  then have "finite P" using finite_subset [OF _ finite_members] by blast
  moreover have "br_author a \<notin> P" using assms(5,6) by blast
  ultimately have sum: "stake_of ?c (insert (br_author a) P) = ps + stake_at ?c (br_author a)"
    using assms(7) by (simp add: stake_of_insert)
  have "ps + stake_at ?c (br_author a) \<le> u64_max"
    using committee_wf_stake_le_total [OF assms(1) sub] sum assms(1) by (simp add: committee_wf_def)
  moreover have "br_round a = b_round block - 1 \<longleftrightarrow> br_round a + 1 = b_round block"
    using assms(3) by (auto simp: ancestor_ok_def)
  ultimately show ?thesis
    using assms(3,4) a sum unfolding P'_def
    by (auto simp: ancestor_ok_def vec_get_def vec_set_def checked_sub_def u64_add_def
        committee_stake_valid assms(7) Let_def)
qed

text \<open>One iteration on an ancestor that is not acceptable ends the loop with an error.\<close>

lemma verify_ancestors_reject:
  assumes "committee_wf (ctx_committee (sbv_context v))"
    and "length seen = committee_size (ctx_committee (sbv_context v))"
    and "\<not> (ancestor_ok v block a \<and> br_author a \<notin> seen_authors seen
              \<and> (i = 0) = (br_author a = b_author block))"
  shows "\<exists>e. verify_ancestors v block i (a # rest) seen ps = Some (Inl e)"
proof -
  let ?c = "ctx_committee (sbv_context v)"
  let ?valid = "is_valid_index ?c (br_author a)"
  let ?misplaced = "i = 0 \<and> br_author a \<noteq> b_author block \<or> i > 0 \<and> br_author a = b_author block"
  let ?late = "b_round block \<le> br_round a"
  let ?fake = "br_round a = GENESIS_ROUND \<and> a \<notin> set (sbv_genesis v)"
  have size: "0 < committee_size ?c" using assms(1) by (auto simp: committee_wf_def committee_size_def)
  consider "\<not> ?valid" | "?valid" "?misplaced" | "?valid" "\<not> ?misplaced" "?late"
    | "?valid" "\<not> ?misplaced" "\<not> ?late" "?fake"
    | "?valid" "\<not> ?misplaced" "\<not> ?late" "\<not> ?fake" "br_author a \<in> seen_authors seen"
    using assms(3) unfolding ancestor_ok_def by force
  then show ?thesis
  proof cases
    case 1
    then show ?thesis using size by (simp add: Let_def checked_sub_def)
  next
    case 2
    then show ?thesis unfolding verify_ancestors.simps Let_def by simp
  next
    case 3
    then show ?thesis unfolding verify_ancestors.simps Let_def by simp
  next
    case 4
    then show ?thesis unfolding verify_ancestors.simps Let_def by simp
  next
    case 5
    then have "vec_get seen (br_author a) = Some True"
      by (simp add: seen_authors_def vec_get_def)
    with 5(1-4) show ?thesis
      unfolding verify_ancestors.simps Let_def by (simp only: if_False if_True not_True_eq_False bind.bind_lunit) simp
  qed
qed

definition ancestors_ok :: "signed_block_verifier \<Rightarrow> block \<Rightarrow> nat \<Rightarrow> block_ref list \<Rightarrow> authority_index set \<Rightarrow> bool" where
  "ancestors_ok v block i refs S \<longleftrightarrow>
     (\<forall>a\<in>set refs. ancestor_ok v block a \<and> br_author a \<notin> S)
   \<and> distinct (map br_author refs)
   \<and> (\<forall>k<length refs. (i + k = 0) = (br_author (refs ! k) = b_author block))"

lemma ancestors_ok_Cons:
  "ancestors_ok v block i (a # rest) S \<longleftrightarrow>
     ancestor_ok v block a \<and> br_author a \<notin> S \<and> (i = 0) = (br_author a = b_author block)
     \<and> ancestors_ok v block (Suc i) rest (insert (br_author a) S)"
  by (auto simp: ancestors_ok_def All_less_Suc2 image_iff)

text \<open>The loop never panics; it accepts exactly the acceptable lists and returns the stake of the
  parents.\<close>

lemma verify_ancestors_correct:
  assumes "committee_wf (ctx_committee (sbv_context v))"
    and "length seen = committee_size (ctx_committee (sbv_context v))"
    and "P \<subseteq> seen_authors seen" and "ps = stake_of (ctx_committee (sbv_context v)) P"
  shows "if ancestors_ok v block i refs (seen_authors seen)
    then verify_ancestors v block i refs seen ps
           = Some (Inr (stake_of (ctx_committee (sbv_context v))
                          (P \<union> br_author ` {a \<in> set refs. br_round a + 1 = b_round block})))
    else \<exists>e. verify_ancestors v block i refs seen ps = Some (Inl e)"
  using assms(2-4)
proof (induction refs arbitrary: i seen P ps)
  case Nil
  then show ?case by (simp add: ancestors_ok_def)
next
  case (Cons a rest)
  let ?c = "ctx_committee (sbv_context v)"
  show ?case
  proof (cases "ancestor_ok v block a \<and> br_author a \<notin> seen_authors seen
      \<and> (i = 0) = (br_author a = b_author block)")
    case True
    let ?P = "if br_round a + 1 = b_round block then insert (br_author a) P else P"
    have step: "verify_ancestors v block i (a # rest) seen ps
        = verify_ancestors v block (Suc i) rest (seen[br_author a := True]) (stake_of ?c ?P)"
      using True Cons.prems by (intro verify_ancestors_Cons assms(1)) auto
    have len: "br_author a < length seen"
      using True Cons.prems(1) by (simp add: ancestor_ok_def is_valid_index_def)
    note upd = seen_authors_update [OF len]
    have set_eq: "?P \<union> br_author ` {a \<in> set rest. br_round a + 1 = b_round block}
        = P \<union> br_author ` {x \<in> set (a # rest). br_round x + 1 = b_round block}"
      by (auto simp: image_iff)
    have ok: "ancestors_ok v block i (a # rest) (seen_authors seen)
        = ancestors_ok v block (Suc i) rest (seen_authors (seen[br_author a := True]))"
      using True by (simp add: ancestors_ok_Cons upd)
    have sub: "?P \<subseteq> seen_authors (seen[br_author a := True])"
      using Cons.prems(2) by (auto simp: upd)
    have len': "length (seen[br_author a := True]) = committee_size ?c"
      using Cons.prems(1) by simp
    show ?thesis
      using Cons.IH [OF len' sub refl, of "Suc i"] unfolding ok step set_eq .
  next
    case False
    have "\<exists>e. verify_ancestors v block i (a # rest) seen ps = Some (Inl e)"
      by (rule verify_ancestors_reject [OF assms(1) Cons.prems(1) False])
    moreover have "\<not> ancestors_ok v block i (a # rest) (seen_authors seen)"
      using False unfolding ancestors_ok_Cons by blast
    ultimately show ?thesis by (simp only: if_False)
  qed
qed

subsection \<open>Validity\<close>

text \<open>What a valid block is, stated without the order of the checks.\<close>

definition block_valid :: "crypto \<Rightarrow> signed_block_verifier \<Rightarrow> signed_block \<Rightarrow> bool" where
  "block_valid cr v sb \<longleftrightarrow> (let c = ctx_committee (sbv_context v); b = sb_inner sb in
     b_epoch b = committee_epoch c \<and> 0 < b_round b \<and> is_valid_index c (b_author b)
   \<and> verify_signature cr (sbv_context v) sb = Some (Inr ())
   \<and> b_ancestors b \<noteq> [] \<and> br_author (hd (b_ancestors b)) = b_author b
   \<and> distinct (map br_author (b_ancestors b))
   \<and> (\<forall>a\<in>set (b_ancestors b). is_valid_index c (br_author a) \<and> br_round a < b_round b
        \<and> (br_round a = GENESIS_ROUND \<longrightarrow> a \<in> set (sbv_genesis v)))
   \<and> reached_quorum c (parent_stake c (b_round b) (b_ancestors b))
   \<and> transactions_ok (protocol_config (sbv_context v)) (b_transactions b))"

lemma ancestors_ok_iff:
  assumes "refs \<noteq> []"
  shows "ancestors_ok v block 0 refs {} \<longleftrightarrow>
     (\<forall>a\<in>set refs. ancestor_ok v block a) \<and> distinct (map br_author refs)
     \<and> br_author (hd refs) = b_author block"
proof -
  obtain a rest where refs: "refs = a # rest" using assms by (cases refs) auto
  have pos: "(\<forall>k<length refs. (k = 0) = (br_author (refs ! k) = b_author block)) \<longleftrightarrow>
      br_author a = b_author block \<and> (\<forall>x\<in>set rest. br_author x \<noteq> b_author block)"
    unfolding refs by (simp add: All_less_Suc2 all_set_conv_all_nth)
  show ?thesis
    unfolding ancestors_ok_def add_0 pos by (auto simp: refs image_iff)
qed

lemma distinct_valid_length:
  assumes "distinct (map br_author refs)" and "\<forall>a\<in>set refs. br_author a < n"
  shows "length refs \<le> n"
proof -
  have "length refs = card (set (map br_author refs))"
    using distinct_card [OF assms(1)] by simp
  also have "\<dots> \<le> card {..<n}" using assms(2) by (intro card_mono) auto
  finally show ?thesis by simp
qed

lemma verify_signature_returns:
  assumes "committee_wf (ctx_committee ctx)"
  shows "\<exists>r. verify_signature cr ctx sb = Some r"
proof -
  have "0 < committee_size (ctx_committee ctx)"
    using assms by (auto simp: committee_wf_def committee_size_def)
  then show ?thesis
    by (auto simp: verify_signature_def Let_def checked_sub_def is_valid_index_def
        committee_authority_def vec_get_def committee_size_def Suc_le_eq)
qed

text \<open>The ancestor loop as \<open>verify_block\<close> runs it.\<close>

lemma verify_ancestors_run:
  assumes "committee_wf (ctx_committee (sbv_context v))" and "refs \<noteq> []"
  shows "if (\<forall>a\<in>set refs. ancestor_ok v block a) \<and> distinct (map br_author refs)
          \<and> br_author (hd refs) = b_author block
    then verify_ancestors v block 0 refs
           (replicate (committee_size (ctx_committee (sbv_context v))) False) 0
         = Some (Inr (parent_stake (ctx_committee (sbv_context v)) (b_round block) refs))
    else \<exists>e. verify_ancestors v block 0 refs
           (replicate (committee_size (ctx_committee (sbv_context v))) False) 0 = Some (Inl e)"
  using verify_ancestors_correct [OF assms(1), of
      "replicate (committee_size (ctx_committee (sbv_context v))) False" "{}" 0 block 0 refs]
    ancestors_ok_iff [OF assms(2), of v block]
  by (simp add: stake_of_def parent_stake_def)

lemma verify_block_iff_valid:
  assumes "committee_wf (ctx_committee (sbv_context v))"
  shows "(\<exists>r. verify_block cr v sb = Some r)
       \<and> (verify_block cr v sb = Some (Inr ()) \<longleftrightarrow> block_valid cr v sb)"
proof -
  let ?c = "ctx_committee (sbv_context v)" and ?b = "sb_inner sb"
  let ?anc = "b_ancestors ?b"
  let ?loop = "verify_ancestors v ?b 0 ?anc (replicate (committee_size ?c) False) 0"
  let ?ok = "(\<forall>a\<in>set ?anc. ancestor_ok v ?b a) \<and> distinct (map br_author ?anc)
      \<and> br_author (hd ?anc) = b_author ?b"
  obtain r where sig: "verify_signature cr (sbv_context v) sb = Some r"
    using verify_signature_returns [OF assms] by blast
  have size: "0 < committee_size ?c" using assms by (auto simp: committee_wf_def committee_size_def)
  have len: "?ok \<Longrightarrow> length ?anc \<le> committee_size ?c"
    by (rule distinct_valid_length) (auto simp: ancestor_ok_def is_valid_index_def)
  have valid: "block_valid cr v sb \<longleftrightarrow> b_epoch ?b = committee_epoch ?c \<and> 0 < b_round ?b
      \<and> is_valid_index ?c (b_author ?b) \<and> r = Inr () \<and> ?anc \<noteq> [] \<and> ?ok
      \<and> reached_quorum ?c (parent_stake ?c (b_round ?b) ?anc)
      \<and> transactions_ok (protocol_config (sbv_context v)) (b_transactions ?b)"
    by (auto simp: block_valid_def sig ancestor_ok_def Let_def)
  have loop: "?anc \<noteq> [] \<Longrightarrow> if ?ok then ?loop = Some (Inr (parent_stake ?c (b_round ?b) ?anc))
      else \<exists>e. ?loop = Some (Inl e)"
    by (rule verify_ancestors_run [OF assms])
  show ?thesis
  proof (cases "?anc \<noteq> [] \<and> ?ok")
    case True
    with loop have "?loop = Some (Inr (parent_stake ?c (b_round ?b) ?anc))" by simp
    with True len show ?thesis unfolding valid
      by (cases r) (auto simp: verify_block_def Let_def sig try_panic_def size checked_sub_def
          Suc_le_eq check_transactions_iff not_less)
  next
    case False
    then have "?anc = [] \<or> (\<exists>e. ?loop = Some (Inl e))" using loop by (cases ?ok; cases "?anc = []") simp_all
    with False show ?thesis unfolding valid
      by (cases r) (auto simp: verify_block_def Let_def sig try_panic_def size checked_sub_def
          Suc_le_eq)
  qed
qed

text \<open>
  C23. \<open>verify_block\<close> never panics for a well-formed committee, and it accepts a block exactly
  when the block is valid: it belongs to the epoch, is no genesis block, has a committee member
  as author and that author's signature, starts its ancestors with a block of the author, has
  at most one ancestor per authority, all of earlier rounds and the genesis ones genuine, has a
  quorum of parents in the previous round, and its transactions respect the limits.
\<close>

theorem verify_block_decides_validity:
  assumes "committee_wf (ctx_committee (sbv_context v))"
  shows "(\<exists>r. verify_block cr v sb = Some r)
       \<and> (verify_block cr v sb = Some (Inr ()) \<longleftrightarrow> block_valid cr v sb)"
  by (rule verify_block_iff_valid [OF assms])

text \<open>Verifying with the sample committee: a first-round block of authority 1 on the four
  genesis blocks.\<close>

definition sample_transaction_verifier :: transaction_verifier where
  "sample_transaction_verifier =
     \<lparr>verify_batch = (\<lambda>_. Inr ()), verify_and_vote_batch = (\<lambda>_ _. Inr [])\<rparr>"

definition sample_verifier :: signed_block_verifier where
  "sample_verifier = \<lparr>sbv_context = sample_context,
     sbv_genesis = map (\<lambda>a. BlockRef 0 a (of_nat a * 256)) [0, 1, 2, 3],
     sbv_transaction_verifier = sample_transaction_verifier\<rparr>"

definition sample_signed_block :: signed_block where
  "sample_signed_block = \<lparr>sb_inner = sample_block 1 1
     (map (\<lambda>a. BlockRef 0 a (of_nat a * 256)) [1, 0, 2]),
     sb_signature = [ucast (hash_bytes sample_crypto [1, 1, 0])]\<rparr>"

lemma sample_signed_block_verifies:
  "verify_block sample_crypto sample_verifier sample_signed_block = Some (Inr ())"
proof -
  have com: "ctx_committee (sbv_context sample_verifier) = sample_committee"
    by (simp add: sample_verifier_def)
  have sig: "verify_signature sample_crypto sample_context sample_signed_block = Some (Inr ())"
    by (simp add: verify_signature_def sample_signed_block_def sample_block_def is_valid_index_def
        committee_authority_def vec_get_def verify_block_signature_def
        compute_inner_block_digest_def to_consensus_block_intent_def)
       (simp add: sample_crypto_def sample_committee_def sample_authority_def)
  have seen: "replicate (committee_size sample_committee) False = [False, False, False, False]"
    by (simp add: numeral_eq_Suc)
  have loop: "verify_ancestors sample_verifier (sample_block 1 1 refs) 0
      (map (\<lambda>a. BlockRef 0 a (of_nat a * 256)) [1, 0, 2]) [False, False, False, False] 0 = Some (Inr 3)" for refs
    by (simp add: Let_def sample_verifier_def sample_block_def is_valid_index_def GENESIS_ROUND_def
        vec_get_def vec_set_def checked_sub_def committee_stake_valid sample_stake_at u64_add_def
        u64_max_def)
  show ?thesis
    unfolding verify_block_def com seen Let_def using sig loop
    by (simp add: sample_signed_block_def sample_block_def sample_verifier_def is_valid_index_def
        try_panic_def reached_quorum_def check_transactions_def del: verify_ancestors.simps)
qed

theorem verify_block_decides_validity_witness:
  "verify_block sample_crypto sample_verifier sample_signed_block = Some (Inr ())
   \<and> block_valid sample_crypto sample_verifier sample_signed_block"
  using verify_block_decides_validity [of sample_verifier sample_crypto sample_signed_block]
    sample_committee_wf sample_signed_block_verifies by (simp add: sample_verifier_def)

end
