(* ===== verification/Committer_Votes.thy ===== *)
theory Committer_Votes
  imports Base_Committer Block_Verifier
begin

section \<open>What the committer counts\<close>

text \<open>
  The loops of the base committer, reduced to the sets they count: on a view of the DAG that is
  complete above the garbage collection round, the slot and round queries return exactly the
  known blocks, \<open>is_certificate\<close> (with its cache of votes) answers whether a quorum of parents
  vote for the leader, and blame and support answer whether a quorum of authors blames or
  certifies it.
\<close>

subsection \<open>Views\<close>

text \<open>What the block verifier guarantees of the links of a block.\<close>

definition well_linked :: "committee \<Rightarrow> verified_block \<Rightarrow> bool" where
  "well_linked c b \<longleftrightarrow>
     (\<forall>a\<in>set (vb_ancestors b). br_author a < committee_size c \<and> br_round a < vb_round b)
   \<and> distinct (map br_author (vb_ancestors b))
   \<and> reached_quorum c (parent_stake c (vb_round b) (vb_ancestors b))"

text \<open>A view: a well-formed DAG state that above the garbage collection round is causally
  complete, keeps its blocks in the cache, and holds well-linked blocks only.\<close>

definition view_ok :: "dag_state \<Rightarrow> bool" where
  "view_ok d \<longleftrightarrow> dag_wf d \<and> dag_closed d (gc_round d)
   \<and> (\<forall>r b. dag_lookup d r = Some b \<longrightarrow> gc_round d < br_round r \<longrightarrow>
        map_of (ds_recent_blocks d) r \<noteq> None \<and> well_linked (ds_committee d) b)"

lemma view_okD:
  assumes "view_ok d"
  shows "dag_wf d" and "dag_closed d (gc_round d)" and "committee_wf (ds_committee d)"
  using assms by (auto simp: view_ok_def dag_wf_def)

lemma view_ok_block:
  assumes "view_ok d" and "dag_lookup d r = Some b" and "gc_round d < br_round r"
  shows "map_of (ds_recent_blocks d) r \<noteq> None" and "well_linked (ds_committee d) b" and "reference b = r"
    and "br_author r < committee_size (ds_committee d)"
proof -
  show cached: "map_of (ds_recent_blocks d) r \<noteq> None" and "well_linked (ds_committee d) b"
    using assms by (auto simp: view_ok_def)
  show "reference b = r" using dag_lookup_reference [OF view_okD(1) [OF assms(1)] assms(2)] .
  show "br_author r < committee_size (ds_committee d)"
    using cached view_okD(1) [OF assms(1)] by (auto simp: dag_wf_def recent_wf_def)
qed

lemma gc_round_le: "gc_round d \<le> last_commit_round d"
  by (simp add: gc_round_def calculate_gc_round_def)

subsection \<open>The cache queries\<close>

lemma slot_range: "BlockRef r a Digest_MIN \<le> x \<and> x \<le> BlockRef r a Digest_MAX \<longleftrightarrow> slot_of_ref x = Slot r a"
proof -
  have low: "x < BlockRef r a Digest_MIN \<longleftrightarrow> br_round x < r \<or> br_round x = r \<and> br_author x < a"
    by (auto simp: block_ref_less_iff Digest_MIN_def word_not_simps)
  have high: "BlockRef r a Digest_MAX < x \<longleftrightarrow> r < br_round x \<or> r = br_round x \<and> a < br_author x"
    by (auto simp: block_ref_less_iff Digest_MAX_def)
  show ?thesis unfolding not_less [symmetric] low high slot_of_ref_def by auto
qed

lemma round_range:
  "BlockRef r 0 Digest_MIN \<le> x \<and> x < BlockRef (r + 1) 0 Digest_MIN \<longleftrightarrow> br_round x = r"
  using round_start_le [of r x] round_start_le [of "r + 1" x] by (auto simp: not_le [symmetric])

text \<open>Cached blocks selected by their reference, in ascending order.\<close>

lemma cached_selection:
  assumes "view_ok d" and "\<And>x. P x \<Longrightarrow> gc_round d < br_round x"
  defines "bs \<equiv> map (bi_block \<circ> snd) (filter (\<lambda>(k, _). P k) (ds_recent_blocks d))"
  shows "set bs = {b. dag_lookup d (reference b) = Some b \<and> P (reference b)}"
    and "distinct bs"
proof -
  let ?m = "ds_recent_blocks d"
  have wf: "recent_wf d" "bmap_wf ?m" using view_okD(1) [OF assms(1)] by (auto simp: dag_wf_def recent_wf_def)
  have ref: "reference (bi_block i) = k" "0 < br_round k" if "(k, i) \<in> set ?m" for k i
    using that wf by (auto simp: recent_wf_def bmap_wf_map_of)
  have look: "dag_lookup d k = Some (bi_block i)" if "(k, i) \<in> set ?m" for k i
    using that ref(2) [OF that] bmap_wf_map_of [OF wf(2), of k i] by (simp add: dag_lookup_def GENESIS_ROUND_def)
  show "set bs = {b. dag_lookup d (reference b) = Some b \<and> P (reference b)}"
  proof (intro equalityI subsetI)
    fix b assume "b \<in> set bs"
    then show "b \<in> {b. dag_lookup d (reference b) = Some b \<and> P (reference b)}"
      using look ref by (force simp: bs_def)
  next
    fix b assume "b \<in> {b. dag_lookup d (reference b) = Some b \<and> P (reference b)}"
    then have b: "dag_lookup d (reference b) = Some b" "P (reference b)" by auto
    from view_ok_block(1) [OF assms(1) b(1) assms(2) [OF b(2)]] obtain i where
      "map_of ?m (reference b) = Some i" by blast
    then have i: "(reference b, i) \<in> set ?m" by (rule map_of_SomeD)
    then have "b = bi_block i" using look [OF i] b(1) by simp
    then show "b \<in> set bs" using i b(2) by (force simp: bs_def)
  qed
  have "map reference bs = map fst (filter (\<lambda>(k, _). P k) ?m)"
    using ref(1) by (force simp: bs_def)
  moreover have "distinct (map fst (filter (\<lambda>(k, _). P k) ?m))"
    using bmap_wf_filter [OF wf(2)] by (rule bmap_wf_distinct)
  ultimately have "distinct (map reference bs)" by simp
  then show "distinct bs" by (simp add: distinct_map)
qed

lemma uncommitted_at_slot:
  assumes "view_ok d" and "gc_round d < slot_round s"
  shows "set (get_uncommitted_blocks_at_slot d s)
           = {b. dag_lookup d (reference b) = Some b \<and> slot_of_ref (reference b) = s}"
    and "distinct (get_uncommitted_blocks_at_slot d s)"
proof -
  have eq: "get_uncommitted_blocks_at_slot d s
      = map (bi_block \<circ> snd) (filter (\<lambda>(k, _). slot_of_ref k = s) (ds_recent_blocks d))"
    by (simp add: get_uncommitted_blocks_at_slot_def infos_between_def slot_range)
  have "gc_round d < br_round x" if "slot_of_ref x = s" for x using that assms(2) by (auto simp: slot_of_ref_def)
  from cached_selection [OF assms(1), of "\<lambda>k. slot_of_ref k = s", OF this]
  show "set (get_uncommitted_blocks_at_slot d s)
           = {b. dag_lookup d (reference b) = Some b \<and> slot_of_ref (reference b) = s}"
    and "distinct (get_uncommitted_blocks_at_slot d s)" unfolding eq by simp_all
qed

lemma uncommitted_at_round:
  assumes "view_ok d" and "get_uncommitted_blocks_at_round d r = Some bs"
  shows "set bs = {b. dag_lookup d (reference b) = Some b \<and> vb_round b = r}"
    and "distinct bs" and "gc_round d < r"
proof -
  have r: "last_commit_round d < r"
    and bs: "bs = map (bi_block \<circ> snd) (filter (\<lambda>(k, _). br_round k = r) (ds_recent_blocks d))"
    using assms(2) round_range [of r] by (auto simp: get_uncommitted_blocks_at_round_def panic_simps)
  then show "gc_round d < r" using gc_round_le [of d] by simp
  then have "gc_round d < br_round x" if "br_round x = r" for x using that by simp
  from cached_selection [OF assms(1), of "\<lambda>k. br_round k = r", OF this]
  show "set bs = {b. dag_lookup d (reference b) = Some b \<and> vb_round b = r}" and "distinct bs"
    unfolding bs by simp_all
qed

lemma uncommitted_at_round_total:
  "last_commit_round d < r \<Longrightarrow> r < u32_max \<Longrightarrow> \<exists>bs. get_uncommitted_blocks_at_round d r = Some bs"
  by (simp add: get_uncommitted_blocks_at_round_def u32_add_def)

subsection \<open>Votes\<close>

text \<open>A block votes for the leader reference that is its first link into the leader slot.\<close>

definition links_to :: "block_ref \<Rightarrow> verified_block \<Rightarrow> bool" where
  "links_to l b \<longleftrightarrow> find (\<lambda>a. slot_of_ref a = slot_of_ref l) (vb_ancestors b) = Some l"

lemma links_to_ancestor: "links_to l b \<Longrightarrow> l \<in> set (vb_ancestors b)"
  by (auto simp: links_to_def find_Some_iff)

lemma links_to_unique: "links_to l b \<Longrightarrow> links_to l' b \<Longrightarrow> slot_of_ref l = slot_of_ref l' \<Longrightarrow> l = l'"
  by (simp add: links_to_def)

text \<open>Up to the voting round, the search for the supported block does not recurse.\<close>

lemma find_supported_in_near:
  assumes "\<forall>a\<in>set refs. br_round a \<le> slot_round s"
  shows "find_supported_in d s refs = Some (find (\<lambda>a. slot_of_ref a = s) refs)"
  using assms by (induction refs) (simp_all add: find_supported_in.simps)

lemma is_vote_near:
  assumes "\<forall>a\<in>set (vb_ancestors b). br_round a < vb_round b" and "vb_round b \<le> vb_round l + 1"
  shows "is_vote d b l = Some (links_to (reference l) b)"
proof (cases "vb_round b < vb_round l")
  case True
  have "find (\<lambda>a. slot_of_ref a = slot_of_ref (reference l)) (vb_ancestors b) = None"
    using assms(1) True by (fastforce simp: find_None_iff slot_of_ref_def)
  then show ?thesis
    using True by (simp add: is_vote_def find_supported_block_def links_to_def slot_of_ref_def)
next
  case False
  have "\<forall>a\<in>set (vb_ancestors b). br_round a \<le> slot_round (slot_of_ref (reference l))"
    using assms by (fastforce simp: slot_of_ref_def)
  from find_supported_in_near [OF this, of d] False show ?thesis
    by (simp add: is_vote_def find_supported_block_def links_to_def slot_of_ref_def)
qed

definition votes_for :: "dag_state \<Rightarrow> block_ref \<Rightarrow> block_ref \<Rightarrow> bool" where
  "votes_for d l a \<longleftrightarrow> (\<exists>b. dag_lookup d a = Some b \<and> links_to l b)"

text \<open>The cache of a run for one leader holds correct votes.\<close>

definition votes_ok :: "dag_state \<Rightarrow> block_ref \<Rightarrow> (block_ref \<rightharpoonup> bool) \<Rightarrow> bool" where
  "votes_ok d l all_votes \<longleftrightarrow> (\<forall>a v. all_votes a = Some v \<longrightarrow> v = votes_for d l a)"

lemma votes_ok_empty [simp]: "votes_ok d l (\<lambda>_. None)"
  by (simp add: votes_ok_def)

lemma vote_of_eq:
  assumes "view_ok d" and "votes_ok d (reference l) all_votes" and "br_round a \<le> vb_round l + 1"
    and "gc_round d < br_round a \<Longrightarrow> dag_lookup d a \<noteq> None"
  shows "\<exists>all_votes'. vote_of d l a all_votes = Some (votes_for d (reference l) a, all_votes')
           \<and> votes_ok d (reference l) all_votes'"
proof (cases "all_votes a")
  case (Some v)
  then show ?thesis using assms(2) by (simp add: vote_of_def votes_ok_def)
next
  case None
  show ?thesis
  proof (cases "dag_lookup d a")
    case unknown: None
    then have "br_round a \<le> gc_round d" using assms(4) by force
    then show ?thesis
      using None unknown assms(2) by (auto simp: vote_of_def get_block_eq votes_for_def votes_ok_def)
  next
    case (Some b)
    have ref: "reference b = a" using dag_lookup_reference [OF view_okD(1) [OF assms(1)] Some] .
    have "(a, x) \<in> causal d" if "x \<in> set (vb_ancestors b)" for x using that Some by (auto simp: causal_def)
    then have "\<forall>x\<in>set (vb_ancestors b). br_round x < br_round a"
      using view_okD(2) [OF assms(1)] unfolding dag_closed_def by blast
    moreover have "vb_round b = br_round a" using ref by auto
    ultimately have "is_vote d b l = Some (links_to (reference l) b)" using assms(3) by (intro is_vote_near) auto
    then show ?thesis
      using None Some assms(2) by (auto simp: vote_of_def get_block_eq votes_for_def votes_ok_def)
  qed
qed

subsection \<open>Certificates\<close>

definition voters :: "dag_state \<Rightarrow> block_ref \<Rightarrow> block_ref list \<Rightarrow> authority_index set" where
  "voters d l refs = br_author ` {a \<in> set refs. votes_for d l a}"

definition certified :: "dag_state \<Rightarrow> block_ref \<Rightarrow> verified_block \<Rightarrow> bool" where
  "certified d l b \<longleftrightarrow> reached_quorum (ds_committee d) (stake_of (ds_committee d) (voters d l (vb_ancestors b)))"

lemma voters_simps [simp]:
  "voters d l [] = {}"
  "voters d l (a # refs) = (if votes_for d l a then insert (br_author a) (voters d l refs) else voters d l refs)"
  by (auto simp: voters_def)

lemma voters_members:
  "\<forall>a\<in>set refs. br_author a < committee_size c \<Longrightarrow> voters d l refs \<subseteq> members c"
  by (auto simp: voters_def)

lemma finite_voters [simp]: "finite (voters d l refs)"
  by (simp add: voters_def)

text \<open>The counting loops all stop early; the answer is the same as without the early stop.\<close>

lemma reached_quorum_mono:
  "finite B \<Longrightarrow> A \<subseteq> B \<Longrightarrow> reached_quorum c (stake_of c A) \<Longrightarrow> reached_quorum c (stake_of c B)"
  using stake_of_mono [of B A c] by (simp add: reached_quorum_def)

lemma count_certificate_eq:
  assumes "view_ok d" and "agg_wf (ds_committee d) agg" and "agg_kind agg = QuorumThreshold"
    and "\<not> reached_quorum (ds_committee d) (stake_of (ds_committee d) (set (agg_votes agg)))"
    and "\<forall>a\<in>set refs. br_author a < committee_size (ds_committee d) \<and> br_round a \<le> vb_round l + 1
           \<and> (gc_round d < br_round a \<longrightarrow> dag_lookup d a \<noteq> None)"
    and "votes_ok d (reference l) all_votes"
  shows "\<exists>all_votes'. count_certificate d (ds_committee d) l refs agg all_votes
      = Some (reached_quorum (ds_committee d)
          (stake_of (ds_committee d) (set (agg_votes agg) \<union> voters d (reference l) refs)), all_votes')
    \<and> votes_ok d (reference l) all_votes'"
  using assms(2-6)
proof (induction refs arbitrary: agg all_votes)
  case (Cons a refs)
  let ?c = "ds_committee d"
  have a: "br_author a < committee_size ?c" "br_round a \<le> vb_round l + 1"
    "gc_round d < br_round a \<Longrightarrow> dag_lookup d a \<noteq> None"
    and rest: "\<forall>a\<in>set refs. br_author a < committee_size ?c \<and> br_round a \<le> vb_round l + 1
           \<and> (gc_round d < br_round a \<longrightarrow> dag_lookup d a \<noteq> None)"
    using Cons.prems(4) by auto
  from vote_of_eq [OF assms(1) Cons.prems(5) a(2,3)] obtain votes where
    v: "vote_of d l a all_votes = Some (votes_for d (reference l) a, votes)" "votes_ok d (reference l) votes" by blast
  show ?case
  proof (cases "votes_for d (reference l) a")
    case False
    with v Cons.IH [OF Cons.prems(1-3) rest v(2)] show ?thesis by simp
  next
    case True
    let ?agg = "agg_insert ?c (br_author a) agg"
    have add: "agg_add (br_author a) ?c agg = Some (?agg,
        reached_quorum ?c (stake_of ?c (insert (br_author a) (set (agg_votes agg)))))"
      using agg_add_eq [OF view_okD(3) [OF assms(1)] Cons.prems(1) a(1)] Cons.prems(2)
      by (simp add: reached_quorum_def)
    have wf: "agg_wf ?c ?agg" by (rule agg_wf_insert [OF Cons.prems(1) a(1)])
    show ?thesis
    proof (cases "reached_quorum ?c (stake_of ?c (insert (br_author a) (set (agg_votes agg))))")
      case reached: True
      have "reached_quorum ?c (stake_of ?c (set (agg_votes agg) \<union> voters d (reference l) (a # refs)))"
        by (rule reached_quorum_mono [OF _ _ reached]) (auto simp: True)
      then show ?thesis using v add True reached by simp
    next
      case not_reached: False
      from Cons.IH [OF wf _ _ rest v(2)] Cons.prems(2) not_reached show ?thesis
        using v add True by simp
    qed
  qed
qed (auto simp: votes_ok_def)

lemma is_certificate_eq:
  assumes "view_ok d" and "votes_ok d (reference l) all_votes"
    and "dag_lookup d (reference b) = Some b" and "vb_round b = vb_round l + 2" and "gc_round d < vb_round l"
  shows "\<exists>all_votes'. is_certificate d (ds_committee d) b l all_votes
           = Some (certified d (reference l) b, all_votes') \<and> votes_ok d (reference l) all_votes'"
proof -
  let ?c = "ds_committee d"
  have linked: "well_linked ?c b"
    using view_ok_block(2) [OF assms(1,3)] assms(4,5) by simp
  have "(reference b, a) \<in> causal d" if "a \<in> set (vb_ancestors b)" for a
    using that assms(3) by (auto simp: causal_def)
  then have "\<forall>a\<in>set (vb_ancestors b). br_author a < committee_size ?c \<and> br_round a \<le> vb_round l + 1
           \<and> (gc_round d < br_round a \<longrightarrow> dag_lookup d a \<noteq> None)"
    using linked view_okD(2) [OF assms(1)] assms(4) by (fastforce simp: well_linked_def dag_closed_def)
  moreover have "\<not> reached_quorum ?c (stake_of ?c {})"
    using view_okD(3) [OF assms(1)] by (simp add: committee_wf_def reached_quorum_def stake_of_def)
  ultimately show ?thesis
    using count_certificate_eq [OF assms(1), of "StakeAggregator_new QuorumThreshold" "vb_ancestors b" l all_votes]
      assms(2) by (simp add: is_certificate_def certified_def)
qed

subsection \<open>Blame and support\<close>

text \<open>Authors of the voting round whose block links to no block of the leader.\<close>

definition blamers :: "dag_state \<Rightarrow> slot \<Rightarrow> authority_index set" where
  "blamers d s = {vb_author b | b. dag_lookup d (reference b) = Some b \<and> vb_round b = slot_round s + 1
     \<and> (\<forall>a\<in>set (vb_ancestors b). br_author a \<noteq> slot_authority s)}"

text \<open>Authors of certificates in the decision round.\<close>

definition certifiers :: "dag_state \<Rightarrow> block_ref \<Rightarrow> authority_index set" where
  "certifiers d l = {vb_author b | b. dag_lookup d (reference b) = Some b \<and> vb_round b = br_round l + 2
     \<and> certified d l b}"

lemma count_blames_eq:
  assumes "committee_wf c" and "agg_wf c agg" and "agg_kind agg = QuorumThreshold"
    and "\<not> reached_quorum c (stake_of c (set (agg_votes agg)))"
    and "\<forall>b\<in>set bs. vb_author b < committee_size c"
  shows "count_blames c leader bs agg = Some (reached_quorum c (stake_of c (set (agg_votes agg)
     \<union> vb_author ` {b \<in> set bs. \<forall>a\<in>set (vb_ancestors b). br_author a \<noteq> leader})))"
  using assms(2-5)
proof (induction bs arbitrary: agg)
  case (Cons b bs)
  let ?blame = "\<lambda>b. \<forall>a\<in>set (vb_ancestors b). br_author a \<noteq> leader"
  have b: "vb_author b < committee_size c" and rest: "\<forall>b\<in>set bs. vb_author b < committee_size c"
    using Cons.prems(4) by auto
  show ?case
  proof (cases "?blame b")
    case False
    then have "{x \<in> set (b # bs). ?blame x} = {x \<in> set bs. ?blame x}" by auto
    with False Cons.IH [OF Cons.prems(1-3) rest] show ?thesis by (auto simp del: list.set)
  next
    case True
    let ?agg = "agg_insert c (vb_author b) agg"
    have set: "vb_author ` {x \<in> set (b # bs). ?blame x} = insert (vb_author b) (vb_author ` {x \<in> set bs. ?blame x})"
      using True by auto
    have add: "agg_add (vb_author b) c agg = Some (?agg,
        reached_quorum c (stake_of c (insert (vb_author b) (set (agg_votes agg)))))"
      using agg_add_eq [OF assms(1) Cons.prems(1) b] Cons.prems(2) by (simp add: reached_quorum_def)
    show ?thesis
    proof (cases "reached_quorum c (stake_of c (insert (vb_author b) (set (agg_votes agg))))")
      case reached: True
      have "reached_quorum c (stake_of c (set (agg_votes agg) \<union> vb_author ` {x \<in> set (b # bs). ?blame x}))"
        unfolding set by (rule reached_quorum_mono [OF _ _ reached]) auto
      then show ?thesis using add True reached by (simp del: list.set)
    next
      case not_reached: False
      have "count_blames c leader bs ?agg = Some (reached_quorum c (stake_of c (set (agg_votes ?agg)
         \<union> vb_author ` {x \<in> set bs. ?blame x})))"
        by (rule Cons.IH [OF agg_wf_insert [OF Cons.prems(1) b] _ _ rest]) (simp_all add: Cons.prems(2) not_reached)
      then show ?thesis unfolding set using add True not_reached by simp
    qed
  qed
qed simp

lemma quorum_empty: "committee_wf c \<Longrightarrow> \<not> reached_quorum c (stake_of c {})"
  by (simp add: committee_wf_def reached_quorum_def stake_of_def)

lemma view_ok_author:
  assumes "view_ok d" and "dag_lookup d (reference b) = Some b" and "gc_round d < vb_round b"
  shows "vb_author b < committee_size (ds_committee d)"
  using view_ok_block(4) [OF assms(1,2)] assms(3) by simp

lemma enough_leader_blame_eq:
  assumes "view_ok d" and "bc_context bc = ds_context d"
    and "enough_leader_blame d bc (slot_round s + 1) (slot_authority s) = Some x"
  shows "x = reached_quorum (ds_committee d) (stake_of (ds_committee d) (blamers d s))"
proof -
  from assms(3) obtain bs where bs: "get_uncommitted_blocks_at_round d (slot_round s + 1) = Some bs"
    and x: "count_blames (ds_committee d) (slot_authority s) bs (StakeAggregator_new QuorumThreshold) = Some x"
    using assms(2) by (auto simp: enough_leader_blame_def panic_simps)
  note all = uncommitted_at_round [OF assms(1) bs]
  have "\<forall>b\<in>set bs. vb_author b < committee_size (ds_committee d)"
    using view_ok_author [OF assms(1)] all(1,3) by auto
  moreover have "vb_author ` {b \<in> set bs. \<forall>a\<in>set (vb_ancestors b). br_author a \<noteq> slot_authority s} = blamers d s"
    unfolding all(1) by (auto simp: blamers_def)
  ultimately show ?thesis
    using count_blames_eq [OF view_okD(3) [OF assms(1)], of "StakeAggregator_new QuorumThreshold" bs "slot_authority s"]
      x quorum_empty [OF view_okD(3) [OF assms(1)]] by simp
qed

lemma count_support_eq:
  assumes "view_ok d" and "agg_wf (ds_committee d) agg" and "agg_kind agg = QuorumThreshold"
    and "\<not> reached_quorum (ds_committee d) (stake_of (ds_committee d) (set (agg_votes agg)))"
    and "\<forall>b\<in>set bs. dag_lookup d (reference b) = Some b \<and> vb_round b = vb_round l + 2"
    and "gc_round d < vb_round l" and "votes_ok d (reference l) all_votes"
  shows "count_support d (ds_committee d) l bs agg all_votes
     = Some (reached_quorum (ds_committee d) (stake_of (ds_committee d) (set (agg_votes agg)
         \<union> vb_author ` {b \<in> set bs. certified d (reference l) b})))"
  using assms(2-5,7)
proof (induction bs arbitrary: agg all_votes)
  case (Cons b bs)
  let ?c = "ds_committee d" and ?cert = "certified d (reference l)"
  have b: "dag_lookup d (reference b) = Some b" "vb_round b = vb_round l + 2"
    and rest: "\<forall>b\<in>set bs. dag_lookup d (reference b) = Some b \<and> vb_round b = vb_round l + 2"
    using Cons.prems(4) by auto
  have author: "vb_author b < committee_size ?c" using view_ok_author [OF assms(1) b(1)] b(2) assms(6) by simp
  from is_certificate_eq [OF assms(1) Cons.prems(5) b assms(6)] obtain votes where
    v: "is_certificate d ?c b l all_votes = Some (?cert b, votes)" "votes_ok d (reference l) votes" by blast
  show ?case
  proof (cases "?cert b")
    case False
    then have "{x \<in> set (b # bs). ?cert x} = {x \<in> set bs. ?cert x}" by auto
    with False v Cons.IH [OF Cons.prems(1-3) rest v(2)] show ?thesis by (simp del: list.set)
  next
    case True
    let ?agg = "agg_insert ?c (vb_author b) agg"
    have set: "vb_author ` {x \<in> set (b # bs). ?cert x} = insert (vb_author b) (vb_author ` {x \<in> set bs. ?cert x})"
      using True by auto
    have add: "agg_add (vb_author b) ?c agg = Some (?agg,
        reached_quorum ?c (stake_of ?c (insert (vb_author b) (set (agg_votes agg)))))"
      using agg_add_eq [OF view_okD(3) [OF assms(1)] Cons.prems(1) author] Cons.prems(2) by (simp add: reached_quorum_def)
    show ?thesis
    proof (cases "reached_quorum ?c (stake_of ?c (insert (vb_author b) (set (agg_votes agg))))")
      case reached: True
      have "reached_quorum ?c (stake_of ?c (set (agg_votes agg) \<union> vb_author ` {x \<in> set (b # bs). ?cert x}))"
        unfolding set by (rule reached_quorum_mono [OF _ _ reached]) auto
      then show ?thesis using add v True reached by (simp del: list.set)
    next
      case not_reached: False
      have "count_support d ?c l bs ?agg votes = Some (reached_quorum ?c (stake_of ?c (set (agg_votes ?agg)
         \<union> vb_author ` {x \<in> set bs. ?cert x})))"
        by (rule Cons.IH [OF agg_wf_insert [OF Cons.prems(1) author] _ _ rest v(2)])
           (simp_all add: Cons.prems(2) not_reached)
      then show ?thesis unfolding set using add v True not_reached by simp
    qed
  qed
qed simp

lemma stake_of_image_le: "stake_of c (f ` set xs) \<le> sum_list (map (\<lambda>x. stake_at c (f x)) xs)"
proof (induction xs)
  case (Cons x xs)
  have "stake_of c (f ` set (x # xs)) \<le> stake_at c (f x) + stake_of c (f ` set xs)"
    by (cases "f x \<in> f ` set xs") (simp_all add: stake_of_insert insert_absorb)
  with Cons.IH show ?case by simp
qed (simp add: stake_of_def)

lemma enough_leader_support_eq:
  assumes "view_ok d" and "bc_context bc = ds_context d" and "gc_round d < vb_round l"
    and "enough_leader_support d bc (vb_round l + 2) l = Some x"
  shows "x = reached_quorum (ds_committee d) (stake_of (ds_committee d) (certifiers d (reference l)))"
proof -
  let ?c = "ds_committee d"
  from assms(4) obtain bs stakes where bs: "get_uncommitted_blocks_at_round d (vb_round l + 2) = Some bs"
    and stakes: "map_opt (\<lambda>b. committee_stake ?c (vb_author b)) bs = Some stakes"
    and x: "x = (reached_quorum ?c (sum_list stakes) \<and>
      count_support d ?c l bs (StakeAggregator_new QuorumThreshold) (\<lambda>_. None) = Some True)"
    and run: "reached_quorum ?c (sum_list stakes) \<Longrightarrow>
      count_support d ?c l bs (StakeAggregator_new QuorumThreshold) (\<lambda>_. None) = Some x"
    using assms(2) by (auto simp: enough_leader_support_def panic_simps simp del: map_opt_Some split: if_splits)
  note all = uncommitted_at_round [OF assms(1) bs]
  have certs: "vb_author ` {b \<in> set bs. certified d (reference l) b} = certifiers d (reference l)"
    unfolding all(1) by (auto simp: certifiers_def)
  have count: "count_support d ?c l bs (StakeAggregator_new QuorumThreshold) (\<lambda>_. None)
      = Some (reached_quorum ?c (stake_of ?c (certifiers d (reference l))))"
    using count_support_eq [OF assms(1), of "StakeAggregator_new QuorumThreshold" bs l "\<lambda>_. None"]
      quorum_empty [OF view_okD(3) [OF assms(1)]] assms(3) all(1) certs by simp
  have "stakes = map (\<lambda>b. stake_at ?c (vb_author b)) bs"
    using stakes by (auto simp: panic_simps list_all2_conv_all_nth intro: nth_equalityI)
  then have "stake_of ?c (vb_author ` set bs) \<le> sum_list stakes"
    using stake_of_image_le [of ?c vb_author bs] by simp
  moreover have "stake_of ?c (certifiers d (reference l)) \<le> stake_of ?c (vb_author ` set bs)"
    unfolding certs [symmetric] by (intro stake_of_mono) auto
  ultimately show ?thesis using x count by (auto simp: reached_quorum_def)
qed

lemma any_certificate_eq:
  assumes "view_ok d" and "gc_round d < vb_round l" and "votes_ok d (reference l) all_votes"
    and "\<forall>b\<in>set ps. dag_lookup d (reference b) = Some b \<and> vb_round b = vb_round l + 2"
  shows "any_certificate d (ds_committee d) l ps all_votes = Some (\<exists>p\<in>set ps. certified d (reference l) p)"
  using assms(3,4)
proof (induction ps arbitrary: all_votes)
  case (Cons p ps)
  have p: "dag_lookup d (reference p) = Some p" "vb_round p = vb_round l + 2" using Cons.prems(2) by auto
  from is_certificate_eq [OF assms(1) Cons.prems(1) p assms(2)] obtain votes where
    "is_certificate d (ds_committee d) p l all_votes = Some (certified d (reference l) p, votes)"
    "votes_ok d (reference l) votes" by blast
  then show ?case using Cons.IH Cons.prems(2) by simp
qed simp

subsection \<open>Waves of three rounds\<close>

text \<open>The committers of the code use the default wave length. In the wave of a leader round the
  decision round comes two rounds later.\<close>

definition leads :: "base_committer \<Rightarrow> round \<Rightarrow> bool" where
  "leads bc r \<longleftrightarrow> wave_length (bc_options bc) = DEFAULT_WAVE_LENGTH
     \<and> round_offset (bc_options bc) \<le> r \<and> (r - round_offset (bc_options bc)) mod 3 = 0"

lemma wave_of_leader:
  assumes "leads bc r" and "wave_number bc r = Some w" and "decision_round bc w = Some x"
  shows "x = r + 2"
proof -
  let ?o = "round_offset (bc_options bc)"
  have w: "w = (r - ?o) div 3"
    using assms(1,2) by (auto simp: leads_def wave_number_def DEFAULT_WAVE_LENGTH_def MINIMUM_WAVE_LENGTH_def)
  have "3 * ((r - ?o) div 3) = r - ?o" using assms(1) by (simp add: leads_def mod_0_imp_dvd)
  moreover have "?o \<le> r" using assms(1) by (simp add: leads_def)
  ultimately show ?thesis
    using assms(1,3) w
    by (auto simp: leads_def decision_round_def DEFAULT_WAVE_LENGTH_def MINIMUM_WAVE_LENGTH_def panic_simps)
qed

lemma bc_elect_leader_leads:
  assumes "wave_length (bc_options bc) = DEFAULT_WAVE_LENGTH" and "bc_elect_leader rng bc r = Some (Some s)"
  shows "leads bc r \<and> slot_round s = r
     \<and> elect_leader rng (bc_schedule bc) r (leader_offset (bc_options bc)) = Some (slot_authority s)"
proof -
  let ?o = "round_offset (bc_options bc)"
  from assms obtain a where a: "elect_leader rng (bc_schedule bc) r (leader_offset (bc_options bc)) = Some a"
    "s = Slot r a" and r: "r = (r - ?o) div 3 * 3 + ?o"
    by (auto simp: bc_elect_leader_def leader_round_def wave_number_def DEFAULT_WAVE_LENGTH_def
        MINIMUM_WAVE_LENGTH_def panic_simps split: if_splits)
  then have "?o \<le> r" "(r - ?o) mod 3 = 0"
    by (metis le_add2, metis add_diff_cancel_right' mod_mult_self2_is_0)
  then show ?thesis using a assms(1) by (simp add: leads_def)
qed

end
