(* ===== verification/Linearizer.thy ===== *)
theory Linearizer
  imports Committer_Votes
begin

section \<open>The linearizer\<close>

text \<open>
  Model of \<open>consensus/src/linearizer.rs\<close>: expanding a committed leader into the sub-dag of its
  uncommitted causal history, the stake-weighted median timestamp, and the chain of commits. The
  trait \<open>BlockStoreAPI\<close> is a record of operations with a locale for its contract, interpreted on
  the DAG state.
\<close>

subsection \<open>The block store interface\<close>

record 's block_store_api =
  bs_get_blocks :: "'s \<Rightarrow> block_ref list \<Rightarrow> verified_block option list"
  bs_gc_round :: "'s \<Rightarrow> round"
  bs_set_committed :: "block_ref \<Rightarrow> 's \<Rightarrow> ('s \<times> bool) option"
  bs_is_committed :: "'s \<Rightarrow> block_ref \<Rightarrow> bool option"

definition dag_store_api :: "dag_state block_store_api" where
  "dag_store_api = \<lparr>bs_get_blocks = get_blocks, bs_gc_round = gc_round,
     bs_set_committed = set_committed, bs_is_committed = is_committed\<rparr>"

subsection \<open>Linearizing a sub-dag\<close>

text \<open>The \<open>while\<close> loop pops the last element of the buffer, here the head of the list.\<close>

fun push_committed ::
    "'s block_store_api \<Rightarrow> verified_block list \<Rightarrow> 's \<Rightarrow> verified_block list \<Rightarrow> ('s \<times> verified_block list) option" where
  "push_committed api [] s buffer = Some (s, buffer)"
| "push_committed api (a # ancestors) s buffer = do {
     (s', first) \<leftarrow> bs_set_committed api (reference a) s;
     rassert first;
     push_committed api ancestors s' (a # buffer)
   }"

definition uncommitted_ancestors ::
    "'s block_store_api \<Rightarrow> round \<Rightarrow> 's \<Rightarrow> verified_block \<Rightarrow> verified_block list option" where
  "uncommitted_ancestors api gc s x = do {
     refs \<leftarrow> filter_opt (\<lambda>a. if br_round a > gc
               then do { c \<leftarrow> bs_is_committed api s a; Some (\<not> c) } else Some False) (vb_ancestors x);
     map_opt id (bs_get_blocks api s refs)
   }"

partial_function (option) linearize_loop ::
    "'s block_store_api \<Rightarrow> round \<Rightarrow> 's \<Rightarrow> verified_block list \<Rightarrow> verified_block list
       \<Rightarrow> ('s \<times> verified_block list) option" where
  "linearize_loop api gc s buffer to_commit = (case buffer of
     [] \<Rightarrow> Some (s, to_commit)
   | x # rest \<Rightarrow> Option.bind (uncommitted_ancestors api gc s x) (\<lambda>ancestors.
       Option.bind (push_committed api ancestors s rest) (\<lambda>(s', buffer').
         linearize_loop api gc s' buffer' (to_commit @ [x]))))"

definition linearize_sub_dag ::
    "'s block_store_api \<Rightarrow> verified_block \<Rightarrow> 's \<Rightarrow> ('s \<times> verified_block list) option" where
  "linearize_sub_dag api leader_block s = do {
     let gc = bs_gc_round api s;
     (s1, first) \<leftarrow> bs_set_committed api (reference leader_block) s;
     rassert first;
     (s2, to_commit) \<leftarrow> linearize_loop api gc s1 [leader_block] [];
     rassert (\<forall>b\<in>set to_commit. vb_round b > gc);
     Some (s2, sort_sub_dag_blocks to_commit)
   }"

subsection \<open>Median timestamps\<close>

datatype median_error = NoBlocks | StakeBelowQuorum stake stake

fun median_loop :: "stake \<Rightarrow> (timestamp_ms \<times> stake) list \<Rightarrow> stake \<Rightarrow> timestamp_ms option option" where
  "median_loop half [] cumulative = Some None"
| "median_loop half ((ts, stake) # rest) cumulative = do {
     cumulative' \<leftarrow> u64_add cumulative stake;
     (if cumulative' > half then Some (Some ts) else median_loop half rest cumulative')
   }"

definition median_timestamps_by_stake_inner :: "(timestamp_ms \<times> stake) list \<Rightarrow> stake \<Rightarrow> timestamp_ms option" where
  "median_timestamps_by_stake_inner timestamps stake_sum = do {
     let ordered = sort_key fst timestamps;
     found \<leftarrow> median_loop (stake_sum div 2) ordered 0;
     (case found of Some ts \<Rightarrow> Some ts | None \<Rightarrow> map_option fst (bset_last ordered))
   }"

definition median_timestamp_by_stake ::
    "consensus_context \<Rightarrow> verified_block list \<Rightarrow> (median_error + timestamp_ms) option" where
  "median_timestamp_by_stake ctx blocks = do {
     (timestamps, stake_sum) \<leftarrow> for_each (\<lambda>b (timestamps, stake_sum). do {
         authority \<leftarrow> committee_authority (ctx_committee ctx) (vb_author b);
         stake_sum' \<leftarrow> u64_add stake_sum (auth_stake authority);
         Some (timestamps @ [(vb_timestamp_ms b, auth_stake authority)], stake_sum')
       }) blocks ([], 0);
     (if timestamps = [] then Some (Inl NoBlocks)
      else if stake_sum < quorum_threshold (ctx_committee ctx)
      then Some (Inl (StakeBelowQuorum stake_sum (quorum_threshold (ctx_committee ctx))))
      else do {
        ts \<leftarrow> median_timestamps_by_stake_inner timestamps stake_sum;
        Some (Inr ts)
      })
   }"

definition calculate_commit_timestamp ::
    "consensus_context \<Rightarrow> 's block_store_api \<Rightarrow> 's \<Rightarrow> verified_block \<Rightarrow> timestamp_ms \<Rightarrow> timestamp_ms option" where
  "calculate_commit_timestamp ctx api s leader_block last_ts = do {
     block_refs \<leftarrow> filter_opt (\<lambda>a. do {
         parent_round \<leftarrow> checked_sub (vb_round leader_block) 1;
         Some (br_round a = parent_round)
       }) (vb_ancestors leader_block);
     blocks \<leftarrow> map_opt id (bs_get_blocks api s block_refs);
     median \<leftarrow> median_timestamp_by_stake ctx blocks;
     timestamp_ms \<leftarrow> expect_ok median;
     Some (max timestamp_ms last_ts)
   }"

subsection \<open>Commits\<close>

record linearizer =
  lin_context :: consensus_context

definition Linearizer_new :: "consensus_context \<Rightarrow> linearizer" where
  "Linearizer_new ctx = \<lparr>lin_context = ctx\<rparr>"

definition collect_sub_dag_and_commit ::
    "crypto \<Rightarrow> linearizer \<Rightarrow> verified_block \<Rightarrow> dag_state
       \<Rightarrow> (dag_state \<times> committed_sub_dag \<times> trusted_commit) option" where
  "collect_sub_dag_and_commit cr lin leader_block d = do {
     let last_index = last_commit_index d;
     let last_digest = last_commit_digest d;
     let last_timestamp_ms = last_commit_timestamp_ms d;
     (d', to_commit) \<leftarrow> linearize_sub_dag dag_store_api leader_block d;
     timestamp_ms \<leftarrow> calculate_commit_timestamp (lin_context lin) dag_store_api d' leader_block last_timestamp_ms;
     index \<leftarrow> u32_add last_index 1;
     let commit = Commit_new index last_digest timestamp_ms (reference leader_block) (map reference to_commit);
     serialized \<leftarrow> expect_ok (bcs_commit cr commit);
     let trusted = new_trusted cr commit serialized;
     Some (d', CommittedSubDag_new (reference leader_block) to_commit timestamp_ms (tc_reference trusted), trusted)
   }"

text \<open>Of the metric only the lookups, which can panic, are kept.\<close>

definition update_blocks_pruned_metric :: "linearizer \<Rightarrow> committed_sub_dag \<Rightarrow> dag_state \<Rightarrow> unit option" where
  "update_blocks_pruned_metric lin sub_dag d = do {
     pruned \<leftarrow> filter_opt (\<lambda>a.
         if br_round a \<le> gc_round d
         then do { last_round \<leftarrow> vec_get (ds_last_committed_rounds d) (br_author a); Some (last_round \<noteq> br_round a) }
         else Some False) (concat (map vb_ancestors (csd_blocks sub_dag)));
     for_each (\<lambda>a _. do {
         _ \<leftarrow> committee_authority (ctx_committee (lin_context lin)) (br_author a);
         _ \<leftarrow> vec_get (ds_last_committed_rounds d) (br_author a);
         Some ()
       }) (remdups pruned) ()
   }"

definition commit_leader ::
    "crypto \<Rightarrow> linearizer \<Rightarrow> nat \<Rightarrow> verified_block \<Rightarrow> dag_state \<times> committed_sub_dag list
       \<Rightarrow> (dag_state \<times> committed_sub_dag list) option" where
  "commit_leader cr lin now leader_block = (\<lambda>(d, committed_sub_dags). do {
     (d1, sub_dag, commit) \<leftarrow> collect_sub_dag_and_commit cr lin leader_block d;
     update_blocks_pruned_metric lin sub_dag d1;
     d2 \<leftarrow> add_commit now commit d1;
     Some (d2, committed_sub_dags @ [sub_dag])
   })"

definition handle_commit ::
    "crypto \<Rightarrow> linearizer \<Rightarrow> nat \<Rightarrow> verified_block list \<Rightarrow> dag_state
       \<Rightarrow> (dag_state \<times> committed_sub_dag list) option" where
  "handle_commit cr lin now committed_leaders d =
     (if committed_leaders = [] then Some (d, [])
      else for_each (commit_leader cr lin now) committed_leaders (d, []))"

subsection \<open>The contract of a block store\<close>

definition history_of :: "(block_ref \<rightharpoonup> verified_block) \<Rightarrow> (block_ref \<times> block_ref) set" where
  "history_of blk = {(r, a). \<exists>b. blk r = Some b \<and> a \<in> set (vb_ancestors b)}"

text \<open>Above the garbage collection round the store holds the ancestors of its blocks and tracks
  their commit status.\<close>

definition complete_above :: "round \<Rightarrow> (block_ref \<rightharpoonup> verified_block) \<Rightarrow> block_ref set \<Rightarrow> bool" where
  "complete_above gc blk tracked \<longleftrightarrow> (\<forall>r b. blk r = Some b \<longrightarrow>
     (\<forall>a\<in>set (vb_ancestors b). br_round a < br_round r)
   \<and> (gc < br_round r \<longrightarrow> reference b = r \<and> r \<in> tracked \<and> distinct (vb_ancestors b)
        \<and> (\<forall>a\<in>set (vb_ancestors b). gc < br_round a \<longrightarrow> blk a \<noteq> None)))"

definition commit_closed :: "round \<Rightarrow> (block_ref \<rightharpoonup> verified_block) \<Rightarrow> block_ref set \<Rightarrow> bool" where
  "commit_closed gc blk C \<longleftrightarrow> (\<forall>r a. r \<in> C \<longrightarrow> (r, a) \<in> history_of blk \<longrightarrow> gc < br_round a \<longrightarrow> a \<in> C)"

definition buffer_ok :: "round \<Rightarrow> (block_ref \<rightharpoonup> verified_block) \<Rightarrow> block_ref set \<Rightarrow> verified_block list \<Rightarrow> bool" where
  "buffer_ok gc blk C buffer \<longleftrightarrow> distinct (map reference buffer)
     \<and> (\<forall>x\<in>set buffer. blk (reference x) = Some x \<and> gc < vb_round x \<and> reference x \<in> C)"

lemma complete_aboveD:
  assumes "complete_above gc blk T" and "blk r = Some b" and "gc < br_round r"
  shows "reference b = r" and "r \<in> T" and "distinct (vb_ancestors b)"
    and "a \<in> set (vb_ancestors b) \<Longrightarrow> gc < br_round a \<Longrightarrow> \<exists>b'. blk a = Some b' \<and> reference b' = a \<and> a \<in> T"
proof -
  have all: "reference b = r \<and> r \<in> T \<and> distinct (vb_ancestors b)
     \<and> (\<forall>a\<in>set (vb_ancestors b). gc < br_round a \<longrightarrow> blk a \<noteq> None)"
    if "blk r = Some b" "gc < br_round r" for r b using assms(1) that unfolding complete_above_def by blast
  from all [OF assms(2,3)] show "reference b = r" "r \<in> T" "distinct (vb_ancestors b)" by auto
  assume a: "a \<in> set (vb_ancestors b)" "gc < br_round a"
  with all [OF assms(2,3)] obtain b' where b': "blk a = Some b'" by auto
  then show "\<exists>b'. blk a = Some b' \<and> reference b' = a \<and> a \<in> T" using all [OF b' a(2)] by simp
qed

lemma history_round_less: "complete_above gc blk T \<Longrightarrow> (r, a) \<in> history_of blk \<Longrightarrow> br_round a < br_round r"
  unfolding complete_above_def history_of_def by blast

lemma committed_reaches:
  assumes "complete_above gc blk T" and "commit_closed gc blk C" and "r \<in> C"
    and "(r, x) \<in> (history_of blk)\<^sup>*" and "gc < br_round x"
  shows "x \<in> C"
  using assms(4,5)
proof (induction rule: rtrancl_induct)
  case (step y z)
  then have "y \<in> C" using history_round_less [OF assms(1) step(2)] by simp
  with step assms(2) show ?case unfolding commit_closed_def by blast
qed (use assms(3) in simp)

lemma map_opt_id: "(\<And>x. x \<in> set xs \<Longrightarrow> f x = Some (g x)) \<Longrightarrow> map_opt id (map f xs) = Some (map g xs)"
  by (induction xs) auto

locale block_store =
  fixes api :: "'s block_store_api"
    and blocks :: "'s \<Rightarrow> block_ref \<rightharpoonup> verified_block"
    and tracked :: "'s \<Rightarrow> block_ref set"
    and committed :: "'s \<Rightarrow> block_ref set"
    and frame :: "'s \<Rightarrow> 's \<Rightarrow> bool"
  assumes get_blocks_law: "bs_get_blocks api s refs = map (blocks s) refs"
    and is_committed_law: "r \<in> tracked s \<Longrightarrow> bs_is_committed api s r = Some (r \<in> committed s)"
    and set_committed_law: "r \<in> tracked s \<Longrightarrow> \<exists>s'. bs_set_committed api r s = Some (s', r \<notin> committed s)
          \<and> frame s s' \<and> committed s' = insert r (committed s)"
    and frame_law: "frame s s' \<Longrightarrow> blocks s' = blocks s \<and> tracked s' = tracked s
          \<and> bs_gc_round api s' = bs_gc_round api s"
    and frame_refl: "frame s s"
    and frame_trans: "frame s s' \<Longrightarrow> frame s' s'' \<Longrightarrow> frame s s''"
    and finite_tracked: "finite (tracked s)"
begin

lemma push_committed_correct:
  assumes "reference ` set as \<subseteq> tracked s" and "distinct (map reference as)"
    and "reference ` set as \<inter> committed s = {}"
  shows "\<exists>s'. push_committed api as s buffer = Some (s', rev as @ buffer) \<and> frame s s'
           \<and> committed s' = committed s \<union> reference ` set as"
  using assms
proof (induction as arbitrary: s buffer)
  case Nil
  then show ?case by (simp add: frame_refl)
next
  case (Cons a as)
  from set_committed_law [of "reference a" s] Cons.prems obtain s1 where
    s1: "bs_set_committed api (reference a) s = Some (s1, True)" "frame s s1"
      "committed s1 = insert (reference a) (committed s)" by auto
  have "\<exists>s'. push_committed api as s1 (a # buffer) = Some (s', rev as @ a # buffer) \<and> frame s1 s'
           \<and> committed s' = committed s1 \<union> reference ` set as"
    using Cons.prems frame_law [OF s1(2)] s1(3) by (intro Cons.IH) (auto simp: image_iff)
  then show ?case using s1 frame_trans [OF s1(2)] by auto
qed

lemma uncommitted_ancestors_correct:
  assumes "complete_above gc (blocks s) (tracked s)" and "blocks s (reference x) = Some x" and "gc < vb_round x"
  shows "\<exists>as. uncommitted_ancestors api gc s x = Some as
     \<and> map reference as = filter (\<lambda>a. gc < br_round a \<and> a \<notin> committed s) (vb_ancestors x)
     \<and> (\<forall>a\<in>set as. blocks s (reference a) = Some a)"
proof -
  let ?P = "\<lambda>a. gc < br_round a \<and> a \<notin> committed s"
  have known: "\<exists>b. blocks s a = Some b \<and> reference b = a \<and> a \<in> tracked s"
    if "a \<in> set (vb_ancestors x)" "gc < br_round a" for a
    using complete_aboveD(4) [OF assms(1,2) _ that(1)] assms(3) that(2) by simp
  have "(if br_round a > gc then do { c \<leftarrow> bs_is_committed api s a; Some (\<not> c) } else Some False) = Some (?P a)"
    if "a \<in> set (vb_ancestors x)" for a
    using that known [OF that] is_committed_law [of a s] by (cases "gc < br_round a") auto
  note refs = filter_opt_total [of "vb_ancestors x" _ ?P, OF this]
  let ?refs = "filter ?P (vb_ancestors x)" and ?blk = "\<lambda>a. the (blocks s a)"
  have blk: "blocks s a = Some (?blk a)" "reference (?blk a) = a" if "a \<in> set ?refs" for a using known that by force+
  have "map_opt id (map (blocks s) ?refs) = Some (map ?blk ?refs)"
    using blk(1) by (intro map_opt_id) auto
  moreover have "map reference (map ?blk ?refs) = ?refs" using blk(2) by (simp only: map_map) (rule map_idI, simp)
  ultimately show ?thesis
    using refs blk by (intro exI [of _ "map ?blk ?refs"]) (auto simp: uncommitted_ancestors_def get_blocks_law)
qed

text \<open>One pass of the loop.\<close>

lemma linearize_step_correct:
  assumes "complete_above gc (blocks s) (tracked s)" and "buffer_ok gc (blocks s) (committed s) (x # rest)"
  shows "\<exists>as s1. uncommitted_ancestors api gc s x = Some as \<and> push_committed api as s rest = Some (s1, rev as @ rest)
     \<and> frame s s1 \<and> committed s1 = committed s \<union> reference ` set as
     \<and> reference ` set as = {a \<in> set (vb_ancestors x). gc < br_round a \<and> a \<notin> committed s}
     \<and> buffer_ok gc (blocks s) (committed s1) (rev as @ rest)
     \<and> card (tracked s - committed s1) + length as = card (tracked s - committed s)"
proof -
  have x: "blocks s (reference x) = Some x" "gc < vb_round x" using assms(2) by (auto simp: buffer_ok_def)
  from uncommitted_ancestors_correct [OF assms(1) x] obtain as where
    as: "uncommitted_ancestors api gc s x = Some as"
      "map reference as = filter (\<lambda>a. gc < br_round a \<and> a \<notin> committed s) (vb_ancestors x)"
      "\<forall>a\<in>set as. blocks s (reference a) = Some a" by blast
  have refs: "reference ` set as = {a \<in> set (vb_ancestors x). gc < br_round a \<and> a \<notin> committed s}"
    using arg_cong [OF as(2), of set] by auto
  note cx = complete_aboveD [OF assms(1) x(1)]
  have sub: "reference ` set as \<subseteq> tracked s" using cx(4) x(2) unfolding refs by force
  have dist: "distinct (map reference as)" using cx(3) x(2) as(2) by simp
  from push_committed_correct [OF sub dist, of rest] refs obtain s1 where
    s1: "push_committed api as s rest = Some (s1, rev as @ rest)" "frame s s1"
      "committed s1 = committed s \<union> reference ` set as" by auto
  have "gc < vb_round a" if "a \<in> set as" for a
  proof -
    have "reference a \<in> reference ` set as" using that by simp
    then show ?thesis unfolding refs by simp
  qed
  moreover have "reference ` set rest \<subseteq> committed s" using assms(2) by (auto simp: buffer_ok_def)
  ultimately have buf: "buffer_ok gc (blocks s) (committed s1) (rev as @ rest)"
    using assms(2) dist as(3) s1(3) refs by (auto simp: buffer_ok_def rev_map [symmetric])
  have "tracked s - committed s1 = (tracked s - committed s) - reference ` set as" using s1(3) by auto
  moreover have "card (reference ` set as) = length as" using dist distinct_card by fastforce
  moreover have "reference ` set as \<subseteq> tracked s - committed s" using sub refs by auto
  ultimately have "card (tracked s - committed s1) + length as = card (tracked s - committed s)"
    using finite_tracked [of s] card_mono [of "tracked s - committed s" "reference ` set as"]
    by (simp add: card_Diff_subset)
  then show ?thesis using as(1) s1 refs buf by blast
qed

text \<open>The loop commits what it pushes and leaves no uncommitted ancestor behind.\<close>

lemma linearize_loop_correct:
  assumes "complete_above gc (blocks s) (tracked s)" and "buffer_ok gc (blocks s) (committed s) buffer"
  shows "\<exists>s' new. linearize_loop api gc s buffer to_commit = Some (s', to_commit @ new) \<and> frame s s'
     \<and> committed s \<subseteq> committed s' \<and> buffer_ok gc (blocks s) (committed s') new
     \<and> reference ` set new = reference ` set buffer \<union> (committed s' - committed s)
     \<and> (\<forall>x\<in>set new. \<forall>a\<in>set (vb_ancestors x). gc < br_round a \<longrightarrow> a \<in> committed s')
     \<and> (\<forall>x\<in>set new. \<exists>y\<in>set buffer. (reference y, reference x) \<in> (history_of (blocks s))\<^sup>*)"
  using assms
proof (induction "card (tracked s - committed s) + length buffer" arbitrary: s buffer to_commit rule: less_induct)
  case less
  show ?case
  proof (cases buffer)
    case Nil
    then show ?thesis
      by (subst linearize_loop.simps) (auto intro!: exI [of _ s] exI [of _ "[]"] simp: frame_refl buffer_ok_def)
  next
    case (Cons x rest)
    from linearize_step_correct [OF less.prems(1)] less.prems(2) Cons obtain as s1 where
      step: "uncommitted_ancestors api gc s x = Some as" "push_committed api as s rest = Some (s1, rev as @ rest)"
        "frame s s1" "committed s1 = committed s \<union> reference ` set as"
        "reference ` set as = {a \<in> set (vb_ancestors x). gc < br_round a \<and> a \<notin> committed s}"
        "buffer_ok gc (blocks s) (committed s1) (rev as @ rest)"
        "card (tracked s - committed s1) + length as = card (tracked s - committed s)" by blast
    note fr = frame_law [OF step(3)]
    let ?buf = "rev as @ rest"
    have "card (tracked s1 - committed s1) + length ?buf < card (tracked s - committed s) + length buffer"
      using step(7) fr Cons by simp
    from less.hyps [OF this, of "to_commit @ [x]"] less.prems(1) step(6) fr obtain s' new where
      IH: "linearize_loop api gc s1 ?buf (to_commit @ [x]) = Some (s', (to_commit @ [x]) @ new)" "frame s1 s'"
        "committed s1 \<subseteq> committed s'" "buffer_ok gc (blocks s) (committed s') new"
        "reference ` set new = reference ` set ?buf \<union> (committed s' - committed s1)"
        "\<forall>y\<in>set new. \<forall>a\<in>set (vb_ancestors y). gc < br_round a \<longrightarrow> a \<in> committed s'"
        "\<forall>y\<in>set new. \<exists>z\<in>set ?buf. (reference z, reference y) \<in> (history_of (blocks s))\<^sup>*" by auto
    have x: "blocks s (reference x) = Some x" "gc < vb_round x" "reference x \<in> committed s"
      "reference x \<notin> reference ` set rest" using less.prems(2) Cons by (auto simp: buffer_ok_def)
    have run: "linearize_loop api gc s buffer to_commit = Some (s', to_commit @ x # new)"
      using IH(1) step(1,2) Cons by (subst linearize_loop.simps) simp
    have "reference x \<notin> reference ` set new" using IH(5) x(3,4) step(4,5) by auto
    then have "buffer_ok gc (blocks s) (committed s') (x # new)"
      using IH(3,4) x step(4) by (auto simp: buffer_ok_def)
    moreover have "reference ` set (x # new) = reference ` set buffer \<union> (committed s' - committed s)"
      using IH(3,5) step(4,5) Cons by auto
    moreover have "\<forall>a\<in>set (vb_ancestors x). gc < br_round a \<longrightarrow> a \<in> committed s'" using IH(3) step(4,5) by auto
    moreover have "\<exists>y\<in>set buffer. (reference y, reference z) \<in> (history_of (blocks s))\<^sup>*" if "z \<in> set new" for z
    proof -
      from IH(7) that obtain y where y: "y \<in> set ?buf" "(reference y, reference z) \<in> (history_of (blocks s))\<^sup>*" by blast
      show ?thesis
      proof (cases "y \<in> set rest")
        case False
        then have "reference y \<in> reference ` set as" using y(1) by simp
        then have "(reference x, reference y) \<in> history_of (blocks s)" using x(1) unfolding step(5) by (auto simp: history_of_def)
        then show ?thesis using y(2) Cons by (auto intro: converse_rtrancl_into_rtrancl)
      qed (use y Cons in auto)
    qed
    ultimately show ?thesis
      using run IH(3,6) frame_trans [OF step(3) IH(2)] step(4) Cons
      by (intro exI [of _ s'] exI [of _ "x # new"]) auto
  qed
qed

lemma linearize_sub_dag_correct:
  assumes "complete_above (bs_gc_round api s) (blocks s) (tracked s)"
    and "commit_closed (bs_gc_round api s) (blocks s) (committed s)"
    and "blocks s (reference leader) = Some leader" and "bs_gc_round api s < vb_round leader"
    and "reference leader \<notin> committed s"
  shows "\<exists>s' bs. linearize_sub_dag api leader s = Some (s', bs) \<and> frame s s'
     \<and> sorted (map (\<lambda>b. (vb_round b, vb_author b)) bs) \<and> distinct (map reference bs)
     \<and> (\<forall>b\<in>set bs. blocks s (reference b) = Some b)
     \<and> reference ` set bs = {r. (reference leader, r) \<in> (history_of (blocks s))\<^sup>*
          \<and> bs_gc_round api s < br_round r \<and> r \<notin> committed s}
     \<and> committed s' = committed s \<union> reference ` set bs
     \<and> commit_closed (bs_gc_round api s) (blocks s) (committed s')"
proof -
  let ?gc = "bs_gc_round api s" and ?l = "reference leader" and ?H = "history_of (blocks s)"
  have "?l \<in> tracked s" using complete_aboveD(2) [OF assms(1,3)] assms(4) by simp
  from set_committed_law [OF this] assms(5) obtain s1 where
    s1: "bs_set_committed api ?l s = Some (s1, True)" "frame s s1" "committed s1 = insert ?l (committed s)" by auto
  note fr = frame_law [OF s1(2)]
  have "buffer_ok ?gc (blocks s1) (committed s1) [leader]" using assms(3,4) s1(3) fr by (simp add: buffer_ok_def)
  from linearize_loop_correct [OF _ this, of "[]"] assms(1) fr obtain s' new where
    run: "linearize_loop api ?gc s1 [leader] [] = Some (s', new)" "frame s1 s'"
    and new: "committed s1 \<subseteq> committed s'" "buffer_ok ?gc (blocks s) (committed s') new"
      "reference ` set new = {?l} \<union> (committed s' - committed s1)"
      "\<forall>x\<in>set new. \<forall>a\<in>set (vb_ancestors x). ?gc < br_round a \<longrightarrow> a \<in> committed s'"
      "\<forall>x\<in>set new. (?l, reference x) \<in> ?H\<^sup>*" by auto
  have com: "committed s' = committed s \<union> reference ` set new" using new(1,3) s1(3) by auto
  have fresh: "reference ` set new \<inter> committed s = {}" using new(3) s1(3) assms(5) by auto
  have look: "blocks s (reference x) = Some x" "?gc < vb_round x" if "x \<in> set new" for x
    using new(2) that by (auto simp: buffer_ok_def)
  have closed: "commit_closed ?gc (blocks s) (committed s')"
    unfolding commit_closed_def
  proof (intro allI impI)
    fix r a assume r: "r \<in> committed s'" "(r, a) \<in> ?H" "?gc < br_round a"
    show "a \<in> committed s'"
    proof (cases "r \<in> committed s")
      case True
      then show ?thesis using assms(2) r com unfolding commit_closed_def by blast
    next
      case False
      then obtain x where x: "x \<in> set new" "r = reference x" using r(1) com by auto
      then show ?thesis using new(4) r(2,3) look(1) [OF x(1)] by (auto simp: history_of_def)
    qed
  qed
  have "?l \<in> committed s'" using new(1) s1(3) by blast
  note reach = committed_reaches [OF assms(1) closed this]
  have "reference ` set new = {r. (?l, r) \<in> ?H\<^sup>* \<and> ?gc < br_round r \<and> r \<notin> committed s}"
  proof (intro equalityI subsetI)
    fix r assume r: "r \<in> reference ` set new"
    then obtain x where x: "x \<in> set new" "r = reference x" by blast
    then show "r \<in> {r. (?l, r) \<in> ?H\<^sup>* \<and> ?gc < br_round r \<and> r \<notin> committed s}"
      using new(5) look(2) [OF x(1)] fresh r by auto
  next
    fix r assume "r \<in> {r. (?l, r) \<in> ?H\<^sup>* \<and> ?gc < br_round r \<and> r \<notin> committed s}"
    then show "r \<in> reference ` set new" using reach [of r] com by blast
  qed
  moreover have "linearize_sub_dag api leader s = Some (s', sort_sub_dag_blocks new)"
    using s1(1) run(1) look(2) by (simp add: linearize_sub_dag_def Let_def)
  moreover have "distinct (map reference (sort_sub_dag_blocks new))"
    using new(2) by (simp add: buffer_ok_def distinct_map)
  ultimately show ?thesis
    using frame_trans [OF s1(2) run(2)] com closed look(1) sorted_sort_sub_dag_blocks [of new] by simp
qed

end

subsection \<open>The DAG state is a block store\<close>

definition committed_refs :: "dag_state \<Rightarrow> block_ref set" where
  "committed_refs d = {r. is_committed d r = Some True}"

definition cached_refs :: "dag_state \<Rightarrow> block_ref set" where
  "cached_refs d = dom (map_of (ds_recent_blocks d))"

text \<open>Only commit marks differ.\<close>

definition same_dag :: "dag_state \<Rightarrow> dag_state \<Rightarrow> bool" where
  "same_dag d d' \<longleftrightarrow> annotates d d' \<and> cached_refs d' = cached_refs d
     \<and> (\<exists>m. d' = d\<lparr>ds_recent_blocks := m\<rparr>)"

lemma set_committed_same_dag:
  assumes "set_committed r d = Some (d', f)"
  shows "same_dag d d'"
proof -
  have "annotates d d'" using assms by (rule set_committed_annotates)
  moreover have "cached_refs d' = cached_refs d" "\<exists>m. d' = d\<lparr>ds_recent_blocks := m\<rparr>"
    using assms by (auto simp: set_committed_def cached_refs_def panic_simps dom_def split: if_splits
        intro: exI [of _ "ds_recent_blocks d"])
  ultimately show ?thesis by (simp add: same_dag_def)
qed

interpretation dag_store: block_store dag_store_api dag_lookup cached_refs committed_refs same_dag
proof
  fix d d' d'' :: dag_state and r refs
  show "bs_get_blocks dag_store_api d refs = map (dag_lookup d) refs" by (simp add: dag_store_api_def get_blocks_eq)
  show "r \<in> cached_refs d \<Longrightarrow> bs_is_committed dag_store_api d r = Some (r \<in> committed_refs d)"
    by (auto simp: dag_store_api_def cached_refs_def committed_refs_def is_committed_def)
  show "\<exists>d'. bs_set_committed dag_store_api r d = Some (d', r \<notin> committed_refs d) \<and> same_dag d d'
      \<and> committed_refs d' = insert r (committed_refs d)" if r: "r \<in> cached_refs d"
  proof -
    from r obtain info where info: "map_of (ds_recent_blocks d) r = Some info" by (auto simp: cached_refs_def)
    then obtain d' where d': "set_committed r d = Some (d', \<not> bi_committed info)"
      by (cases "bi_committed info") (simp_all add: set_committed_def)
    have "committed_refs d' = insert r (committed_refs d)"
      using d' info by (auto simp: set_committed_def committed_refs_def is_committed_def split: if_splits)
    moreover have "r \<in> committed_refs d \<longleftrightarrow> bi_committed info" using info by (simp add: committed_refs_def is_committed_def)
    ultimately show ?thesis using d' set_committed_same_dag [OF d'] by (simp add: dag_store_api_def)
  qed
  show "same_dag d d' \<Longrightarrow> dag_lookup d' = dag_lookup d \<and> cached_refs d' = cached_refs d
      \<and> bs_gc_round dag_store_api d' = bs_gc_round dag_store_api d"
    by (simp add: same_dag_def annotates_lookup annotates_gc dag_store_api_def)
  show "same_dag d d" by (auto simp: same_dag_def intro: exI [of _ "ds_recent_blocks d"])
  show "same_dag d d' \<Longrightarrow> same_dag d' d'' \<Longrightarrow> same_dag d d''"
    by (auto simp: same_dag_def intro: annotates_trans)
  show "finite (cached_refs d)" by (simp add: cached_refs_def finite_dom_map_of)
qed

lemma history_of_dag_lookup: "history_of (dag_lookup d) = causal d"
  by (auto simp: history_of_def causal_def)

lemma view_ok_complete: "view_ok d \<Longrightarrow> complete_above (gc_round d) (dag_lookup d) (cached_refs d)"
proof -
  assume v: "view_ok d"
  have "br_round a < br_round r \<and> (gc_round d < br_round a \<longrightarrow> dag_lookup d a \<noteq> None)"
    if "dag_lookup d r = Some b" "a \<in> set (vb_ancestors b)" for r b a
    using view_okD(2) [OF v] that unfolding dag_closed_def causal_def by blast
  moreover have "r \<in> cached_refs d" "reference b = r" "distinct (vb_ancestors b)"
    if "dag_lookup d r = Some b" "gc_round d < br_round r" for r b
    using view_ok_block [OF v that] by (auto simp: cached_refs_def well_linked_def distinct_map)
  ultimately show ?thesis unfolding complete_above_def by blast
qed

end
