(* ===== verification/Committer_Safety.thy ===== *)
theory Committer_Safety
  imports Committer_Votes
begin

section \<open>Agreement of decisions\<close>

text \<open>
  Two validators decide the same leader slot from two views of the DAG. Authorities outside the
  faulty set \<open>F\<close>, whose stake the committee tolerates, do not equivocate, and a reference
  identifies one block. Then no two decisions conflict, whether they are direct or made
  through the same committed anchor.
\<close>

subsection \<open>Consistent views\<close>

definition faulty_ok :: "committee \<Rightarrow> authority_index set \<Rightarrow> bool" where
  "faulty_ok c F \<longleftrightarrow> finite F \<and> stake_of c F \<le> fault_tolerance c"

definition views_consistent :: "authority_index set \<Rightarrow> dag_state \<Rightarrow> dag_state \<Rightarrow> bool" where
  "views_consistent F d d' \<longleftrightarrow> ds_committee d = ds_committee d'
   \<and> (\<forall>r b b'. dag_lookup d r = Some b \<longrightarrow> dag_lookup d' r = Some b' \<longrightarrow> b = b')
   \<and> (\<forall>r r'. dag_lookup d r \<noteq> None \<longrightarrow> dag_lookup d' r' \<noteq> None \<longrightarrow> slot_of_ref r = slot_of_ref r'
        \<longrightarrow> br_author r \<notin> F \<longrightarrow> r = r')"

lemma views_consistent_sym: "views_consistent F d d' \<Longrightarrow> views_consistent F d' d"
  by (auto simp: views_consistent_def slot_of_ref_def) metis+

lemma views_consistent_block:
  "views_consistent F d d' \<Longrightarrow> dag_lookup d r = Some b \<Longrightarrow> dag_lookup d' r = Some b' \<Longrightarrow> b = b'"
  by (auto simp: views_consistent_def)

lemma views_consistent_slot:
  assumes "views_consistent F d d'" and "dag_lookup d r = Some b" and "dag_lookup d' r' = Some b'"
    and "br_round r = br_round r'" and "br_author r = a" and "br_author r' = a" and "a \<notin> F"
  shows "r = r'"
proof -
  have "slot_of_ref r = slot_of_ref r'" using assms(4-6) by (simp add: slot_of_ref_def)
  then show ?thesis using assms(1-3,5,7) unfolding views_consistent_def by blast
qed

text \<open>The interface lemma of the committee, on sets of members of one committee.\<close>

lemma quorums_meet:
  assumes "committee_wf c" and "faulty_ok c F" and "A \<subseteq> members c" and "B \<subseteq> members c"
    and "reached_quorum c (stake_of c A)" and "reached_quorum c (stake_of c B)"
  shows "\<exists>a. a \<in> A \<and> a \<in> B \<and> a \<notin> F"
  using committee_quorums.quorums_share_honest [OF assms(1,3,4), of F] assms(2,5,6)
  by (simp add: faulty_ok_def reached_quorum_def stake_of_def)

lemma quorum_nonempty: "committee_wf c \<Longrightarrow> reached_quorum c (stake_of c A) \<Longrightarrow> \<exists>a. a \<in> A"
  using quorum_empty [of c] by (cases "A = {}") auto

subsection \<open>Votes of a certificate\<close>

lemma causal_round_less: "view_ok d \<Longrightarrow> (r, a) \<in> causal d \<Longrightarrow> br_round a < br_round r"
  using view_okD(2) by (auto simp: dag_closed_def)

lemma causal_known:
  "view_ok d \<Longrightarrow> (r, a) \<in> causal d \<Longrightarrow> gc_round d < br_round a \<Longrightarrow> \<exists>b. dag_lookup d a = Some b"
  using view_okD(2) by (fastforce simp: dag_closed_def)

lemma causalI: "dag_lookup d r = Some b \<Longrightarrow> a \<in> set (vb_ancestors b) \<Longrightarrow> (r, a) \<in> causal d"
  by (auto simp: causal_def)

text \<open>Every counted vote is a block of the voting round that links to the leader.\<close>

lemma certificate_voter:
  assumes "view_ok d" and "dag_lookup d (reference p) = Some p" and "vb_round p = br_round l + 2"
    and "x \<in> voters d l (vb_ancestors p)"
  shows "\<exists>a b. a \<in> set (vb_ancestors p) \<and> dag_lookup d a = Some b \<and> links_to l b \<and> br_author a = x
           \<and> br_round a = br_round l + 1"
proof -
  from assms(4) obtain a b where a: "a \<in> set (vb_ancestors p)" "dag_lookup d a = Some b" "links_to l b"
    "br_author a = x" by (auto simp: voters_def votes_for_def)
  have "br_round l < br_round a"
    using causal_round_less [OF assms(1) causalI [OF a(2) links_to_ancestor [OF a(3)]]] .
  moreover have "br_round a < br_round (reference p)"
    using causal_round_less [OF assms(1) causalI [OF assms(2) a(1)]] .
  ultimately have "br_round a = br_round l + 1" using assms(3) by simp
  with a show ?thesis by blast
qed

lemma voters_in_committee:
  assumes "view_ok d" and "dag_lookup d (reference p) = Some p" and "gc_round d < vb_round p"
  shows "voters d l (vb_ancestors p) \<subseteq> members (ds_committee d)"
  using view_ok_block(2) [OF assms(1,2)] assms(3) by (intro voters_members) (simp add: well_linked_def)

text \<open>Certificates for two blocks of one slot certify the same block.\<close>

lemma certified_unique:
  assumes "view_ok d" and "view_ok d'" and "views_consistent F d d'" and "faulty_ok (ds_committee d) F"
    and "dag_lookup d (reference p) = Some p" and "vb_round p = br_round l + 2" and "certified d l p"
    and "dag_lookup d' (reference p') = Some p'" and "vb_round p' = br_round l' + 2" and "certified d' l' p'"
    and "slot_of_ref l = slot_of_ref l'" and "gc_round d < br_round l" and "gc_round d' < br_round l'"
  shows "l = l'"
proof -
  have c: "ds_committee d' = ds_committee d" using assms(3) by (simp add: views_consistent_def)
  have mem: "voters d l (vb_ancestors p) \<subseteq> members (ds_committee d)"
    using voters_in_committee [OF assms(1,5)] assms(6,12) by simp
  have mem': "voters d' l' (vb_ancestors p') \<subseteq> members (ds_committee d)"
    using voters_in_committee [OF assms(2,8)] assms(9,13) c by simp
  have quorum': "reached_quorum (ds_committee d) (stake_of (ds_committee d) (voters d' l' (vb_ancestors p')))"
    using assms(10) c by (simp add: certified_def)
  from quorums_meet [OF view_okD(3) [OF assms(1)] assms(4) mem mem' assms(7) [unfolded certified_def] quorum']
  obtain x where x: "x \<in> voters d l (vb_ancestors p)" "x \<in> voters d' l' (vb_ancestors p')" "x \<notin> F" by blast
  from certificate_voter [OF assms(1,5,6) x(1)] obtain a b where
    a: "dag_lookup d a = Some b" "links_to l b" "br_author a = x" "br_round a = br_round l + 1" by blast
  from certificate_voter [OF assms(2,8,9) x(2)] obtain a' b' where
    a': "dag_lookup d' a' = Some b'" "links_to l' b'" "br_author a' = x" "br_round a' = br_round l' + 1" by blast
  have "br_round l = br_round l'" using assms(11) by (simp add: slot_of_ref_def)
  then have "a = a'" using views_consistent_slot [OF assms(3) a(1) a'(1)] a a' x(3) by simp
  then have "b = b'" using views_consistent_block [OF assms(3) a(1)] a'(1) by simp
  then show ?thesis using links_to_unique [OF a(2)] a'(2) assms(11) by simp
qed

text \<open>A quorum of blames excludes a certificate.\<close>

lemma blamed_not_certified:
  assumes "view_ok d" and "view_ok d'" and "views_consistent F d d'" and "faulty_ok (ds_committee d) F"
    and "reached_quorum (ds_committee d) (stake_of (ds_committee d) (blamers d s))"
    and "dag_lookup d' (reference p) = Some p" and "vb_round p = br_round l + 2" and "certified d' l p"
    and "slot_of_ref l = s" and "gc_round d < slot_round s" and "gc_round d' < slot_round s"
  shows False
proof -
  have c: "ds_committee d' = ds_committee d" using assms(3) by (simp add: views_consistent_def)
  have s: "slot_round s = br_round l" "slot_authority s = br_author l" using assms(9) by (auto simp: slot_of_ref_def)
  have mem: "blamers d s \<subseteq> members (ds_committee d)"
    using view_ok_author [OF assms(1)] assms(10) by (auto simp: blamers_def)
  have mem': "voters d' l (vb_ancestors p) \<subseteq> members (ds_committee d)"
    using voters_in_committee [OF assms(2,6)] assms(7,11) c s by simp
  have quorum': "reached_quorum (ds_committee d) (stake_of (ds_committee d) (voters d' l (vb_ancestors p)))"
    using assms(8) c by (simp add: certified_def)
  from quorums_meet [OF view_okD(3) [OF assms(1)] assms(4) mem mem' assms(5) quorum']
  obtain x where x: "x \<in> blamers d s" "x \<in> voters d' l (vb_ancestors p)" "x \<notin> F" by blast
  from x(1) obtain b where b: "dag_lookup d (reference b) = Some b" "vb_round b = slot_round s + 1" "vb_author b = x"
    "\<forall>a\<in>set (vb_ancestors b). br_author a \<noteq> slot_authority s" by (auto simp: blamers_def)
  from certificate_voter [OF assms(2,6,7) x(2)] obtain a b' where
    a: "dag_lookup d' a = Some b'" "links_to l b'" "br_author a = x" "br_round a = br_round l + 1" by blast
  have "reference b = a" using views_consistent_slot [OF assms(3) b(1) a(1)] b a x(3) s by simp
  then have "b = b'" using views_consistent_block [OF assms(3) b(1)] a(1) by simp
  then show False using links_to_ancestor [OF a(2)] b(4) s by auto
qed

subsection \<open>Certificates in two views\<close>

text \<open>A certificate stays one in every view that knows it.\<close>

lemma certified_transfer:
  assumes "view_ok d" and "view_ok d'" and "views_consistent F d d'"
    and "dag_lookup d (reference p) = Some p" and "vb_round p = br_round l + 2" and "certified d l p"
    and "dag_lookup d' (reference p) = Some p" and "gc_round d' < br_round l"
  shows "certified d' l p"
proof -
  have c: "ds_committee d' = ds_committee d" using assms(3) by (simp add: views_consistent_def)
  have "voters d l (vb_ancestors p) \<subseteq> voters d' l (vb_ancestors p)"
  proof
    fix x assume "x \<in> voters d l (vb_ancestors p)"
    from certificate_voter [OF assms(1,4,5) this] obtain a b where
      a: "a \<in> set (vb_ancestors p)" "dag_lookup d a = Some b" "links_to l b" "br_author a = x"
        "br_round a = br_round l + 1" by blast
    from causal_known [OF assms(2) causalI [OF assms(7) a(1)]] a(5) assms(8) obtain b' where
      b': "dag_lookup d' a = Some b'" by auto
    then have "b' = b" using views_consistent_block [OF assms(3) a(2)] by simp
    then show "x \<in> voters d' l (vb_ancestors p)" using a b' by (auto simp: voters_def votes_for_def)
  qed
  from reached_quorum_mono [OF finite_voters this] assms(6) show ?thesis by (simp add: certified_def c)
qed

text \<open>A certified leader block is known.\<close>

lemma certified_known:
  assumes "view_ok d" and "dag_lookup d (reference p) = Some p" and "vb_round p = br_round l + 2"
    and "certified d l p" and "gc_round d < br_round l"
  shows "\<exists>b. dag_lookup d l = Some b"
proof -
  from quorum_nonempty [OF view_okD(3) [OF assms(1)] assms(4) [unfolded certified_def]] obtain x where
    x: "x \<in> voters d l (vb_ancestors p)" by blast
  from certificate_voter [OF assms(1-3) x] obtain a b where a: "dag_lookup d a = Some b" "links_to l b" by blast
  from causal_known [OF assms(1) causalI [OF a(1) links_to_ancestor [OF a(2)]]] assms(5) show ?thesis by blast
qed

text \<open>Blocks of a round in the causal history of an anchor.\<close>

definition history_at :: "dag_state \<Rightarrow> verified_block \<Rightarrow> round \<Rightarrow> verified_block set" where
  "history_at d anchor r = {p. dag_lookup d (reference p) = Some p \<and> vb_round p = r
     \<and> (reference anchor, reference p) \<in> (causal d)\<^sup>*}"

lemma history_at_parents:
  assumes "view_ok d" and "p \<in> history_at d anchor (Suc r)" and "gc_round d < r"
  shows "reached_quorum (ds_committee d) (stake_of (ds_committee d) (vb_author ` history_at d anchor r))"
    and "vb_author ` history_at d anchor r \<subseteq> members (ds_committee d)"
proof -
  let ?c = "ds_committee d"
  have p: "dag_lookup d (reference p) = Some p" "vb_round p = Suc r"
    "(reference anchor, reference p) \<in> (causal d)\<^sup>*" using assms(2) by (auto simp: history_at_def)
  show mem: "vb_author ` history_at d anchor r \<subseteq> members ?c"
    using view_ok_author [OF assms(1)] assms(3) by (auto simp: history_at_def)
  have "reached_quorum ?c (parent_stake ?c (Suc r) (vb_ancestors p))"
    using view_ok_block(2) [OF assms(1) p(1)] p(2) assms(3) by (simp add: well_linked_def)
  moreover have "br_author ` {a \<in> set (vb_ancestors p). br_round a + 1 = Suc r} \<subseteq> vb_author ` history_at d anchor r"
  proof clarify
    fix a assume a: "a \<in> set (vb_ancestors p)" "br_round a + 1 = Suc r"
    note link = causalI [OF p(1) a(1)]
    from causal_known [OF assms(1) link] a(2) assms(3) obtain b where b: "dag_lookup d a = Some b" by auto
    have ref: "reference b = a" using dag_lookup_reference [OF view_okD(1) [OF assms(1)] b] .
    have "(reference anchor, a) \<in> (causal d)\<^sup>*" using p(3) link by (rule rtrancl_into_rtrancl)
    then have "b \<in> history_at d anchor r" using b ref a(2) by (auto simp: history_at_def)
    then show "br_author a \<in> vb_author ` history_at d anchor r" using ref by (auto intro!: image_eqI [of _ _ b])
  qed
  ultimately show "reached_quorum ?c (stake_of ?c (vb_author ` history_at d anchor r))"
    unfolding parent_stake_def using finite_subset [OF mem finite_members] by (blast intro: reached_quorum_mono)
qed

lemma history_at_quorum:
  assumes "view_ok d" and "dag_lookup d (reference anchor) = Some anchor" and "gc_round d < r"
    and "vb_round anchor = r + Suc k"
  shows "reached_quorum (ds_committee d) (stake_of (ds_committee d) (vb_author ` history_at d anchor r))
     \<and> vb_author ` history_at d anchor r \<subseteq> members (ds_committee d)"
  using assms(3,4)
proof (induction k arbitrary: r)
  case 0
  then have "anchor \<in> history_at d anchor (Suc r)" using assms(2) by (simp add: history_at_def)
  then show ?case using history_at_parents [OF assms(1)] 0 by blast
next
  case (Suc k)
  then have "reached_quorum (ds_committee d) (stake_of (ds_committee d) (vb_author ` history_at d anchor (Suc r)))"
    using Suc.IH [of "Suc r"] by simp
  from quorum_nonempty [OF view_okD(3) [OF assms(1)] this] obtain p where
    "p \<in> history_at d anchor (Suc r)" by blast
  then show ?case using history_at_parents [OF assms(1)] Suc.prems by blast
qed

text \<open>A direct commit leaves a certificate in the history of every later anchor, in every view.\<close>

lemma direct_commit_in_history:
  assumes "view_ok d" and "view_ok d'" and "views_consistent F d d'" and "faulty_ok (ds_committee d) F"
    and "reached_quorum (ds_committee d) (stake_of (ds_committee d) (certifiers d l))"
    and "dag_lookup d' (reference anchor) = Some anchor" and "br_round l + 2 < vb_round anchor"
    and "gc_round d < br_round l" and "gc_round d' < br_round l"
  shows "\<exists>p\<in>history_at d' anchor (br_round l + 2). certified d' l p"
proof -
  have c: "ds_committee d' = ds_committee d" using assms(3) by (simp add: views_consistent_def)
  have k: "vb_round anchor = br_round l + 2 + Suc (vb_round anchor - br_round l - 3)" using assms(7) by simp
  have quorum': "reached_quorum (ds_committee d) (stake_of (ds_committee d) (vb_author ` history_at d' anchor (br_round l + 2)))"
    and mem': "vb_author ` history_at d' anchor (br_round l + 2) \<subseteq> members (ds_committee d)"
    using history_at_quorum [OF assms(2,6) _ k] assms(9) c by simp_all
  have mem: "certifiers d l \<subseteq> members (ds_committee d)"
    using view_ok_author [OF assms(1)] assms(8) by (auto simp: certifiers_def)
  from quorums_meet [OF view_okD(3) [OF assms(1)] assms(4) mem mem' assms(5) quorum'] obtain x where
    x: "x \<in> certifiers d l" "x \<in> vb_author ` history_at d' anchor (br_round l + 2)" "x \<notin> F" by blast
  from x(1) obtain p where p: "dag_lookup d (reference p) = Some p" "vb_round p = br_round l + 2" "certified d l p"
    "vb_author p = x" by (auto simp: certifiers_def)
  from x(2) obtain p' where p': "p' \<in> history_at d' anchor (br_round l + 2)" "vb_author p' = x" by blast
  then have look: "dag_lookup d' (reference p') = Some p'" "vb_round p' = br_round l + 2" by (auto simp: history_at_def)
  have "reference p = reference p'"
    using views_consistent_slot [OF assms(3) p(1) look(1)] p p'(2) look(2) x(3) by simp
  then have "p = p'" using views_consistent_block [OF assms(3) p(1)] look(1) by simp
  then have "certified d' l p'" using certified_transfer [OF assms(1-3) p(1-3) _ assms(9)] look(1) by simp
  then show ?thesis using p'(1) by blast
qed

text \<open>The history of a common anchor is the same in both views.\<close>

lemma history_at_transfer:
  assumes "view_ok d" and "view_ok d'" and "views_consistent F d d'"
    and "dag_lookup d' (reference anchor) = Some anchor" and "dag_lookup d (reference anchor) = Some anchor"
    and "gc_round d < r" and "gc_round d' < r"
  shows "history_at d anchor r \<subseteq> history_at d' anchor r"
proof -
  have step: "(reference anchor, x) \<in> (causal d')\<^sup>* \<and> (\<exists>b. dag_lookup d x = Some b \<and> dag_lookup d' x = Some b)"
    if "(reference anchor, x) \<in> (causal d)\<^sup>*" "r \<le> br_round x" for x
    using that
  proof (induction rule: rtrancl_induct)
    case base
    then show ?case using assms(4,5) by blast
  next
    case (step y z)
    have "br_round z < br_round y" using causal_round_less [OF assms(1) step.hyps(2)] .
    with step obtain b where b: "(reference anchor, y) \<in> (causal d')\<^sup>*" "dag_lookup d y = Some b" "dag_lookup d' y = Some b"
      by auto
    have "z \<in> set (vb_ancestors b)" using step.hyps(2) b(2) by (auto simp: causal_def)
    then have link: "(y, z) \<in> causal d'" using b(3) by (intro causalI)
    moreover obtain bz bz' where "dag_lookup d z = Some bz" "dag_lookup d' z = Some bz'"
      using causal_known [OF assms(1) step.hyps(2)] causal_known [OF assms(2) link] step.prems assms(6,7) by auto
    ultimately show ?case using b(1) views_consistent_block [OF assms(3)] by (auto intro: rtrancl_into_rtrancl)
  qed
  show ?thesis
  proof
    fix p assume "p \<in> history_at d anchor r"
    then have p: "dag_lookup d (reference p) = Some p" "vb_round p = r" "(reference anchor, reference p) \<in> (causal d)\<^sup>*"
      by (auto simp: history_at_def)
    with step [OF p(3)] show "p \<in> history_at d' anchor r" by (simp add: history_at_def)
  qed
qed

subsection \<open>Decisions as sets\<close>

text \<open>What a direct or an indirect decision of a leader slot means.\<close>

definition at_slot :: "dag_state \<Rightarrow> slot \<Rightarrow> verified_block \<Rightarrow> bool" where
  "at_slot d s b \<longleftrightarrow> dag_lookup d (reference b) = Some b \<and> slot_of_ref (reference b) = s"

definition direct_skip :: "dag_state \<Rightarrow> slot \<Rightarrow> bool" where
  "direct_skip d s \<longleftrightarrow> reached_quorum (ds_committee d) (stake_of (ds_committee d) (blamers d s))"

definition direct_commit :: "dag_state \<Rightarrow> slot \<Rightarrow> verified_block \<Rightarrow> bool" where
  "direct_commit d s b \<longleftrightarrow> at_slot d s b
     \<and> reached_quorum (ds_committee d) (stake_of (ds_committee d) (certifiers d (reference b)))"

definition anchored :: "dag_state \<Rightarrow> verified_block \<Rightarrow> slot \<Rightarrow> verified_block \<Rightarrow> bool" where
  "anchored d anchor s b \<longleftrightarrow> at_slot d s b
     \<and> (\<exists>p\<in>history_at d anchor (slot_round s + 2). certified d (reference b) p)"

lemma at_slot_round: "at_slot d s b \<Longrightarrow> vb_round b = slot_round s \<and> br_round (reference b) = slot_round s"
  by (auto simp: at_slot_def slot_of_ref_def)

lemma filter_at_most_one:
  assumes "length (filter P xs) \<le> 1"
  shows "(case bset_last (filter P xs) of Some b \<Rightarrow> b \<in> set xs \<and> P b | None \<Rightarrow> \<forall>b\<in>set xs. \<not> P b)"
proof (cases "filter P xs")
  case Nil
  then show ?thesis by (auto simp: bset_last_def filter_empty_conv)
next
  case (Cons b bs)
  then have one: "filter P xs = [b]" using assms by simp
  have "b \<in> set (filter P xs)" unfolding Cons by simp
  then have "b \<in> set xs \<and> P b" unfolding set_filter by simp
  then show ?thesis unfolding one by (simp add: bset_last_def)
qed

lemma try_direct_decide_spec:
  assumes "view_ok d" and "bc_context bc = ds_context d" and "leads bc (slot_round s)"
    and "last_commit_round d < slot_round s" and "try_direct_decide d bc s = Some st"
  shows "st = Skip s \<and> direct_skip d s
     \<or> (\<exists>b. st = Commit b \<and> direct_commit d s b) \<or> st = Undecided s"
proof -
  have gc: "gc_round d < slot_round s" using gc_round_le [of d] assms(4) by simp
  from assms(5) obtain blamed where
    blamed: "enough_leader_blame d bc (slot_round s + 1) (slot_authority s) = Some blamed"
    and st: "(if blamed then Some (Skip s) else do {
        wave \<leftarrow> wave_number bc (slot_round s);
        decision_r \<leftarrow> decision_round bc wave;
        supported \<leftarrow> filter_opt (enough_leader_support d bc decision_r) (get_uncommitted_blocks_at_slot d s);
        rassert (length supported \<le> 1);
        Some (case bset_last supported of Some b \<Rightarrow> Commit b | None \<Rightarrow> Undecided s)
      }) = Some st"
    unfolding try_direct_decide_def by (auto simp: panic_simps)
  show ?thesis
  proof (cases blamed)
    case True
    then show ?thesis using st enough_leader_blame_eq [OF assms(1,2) blamed] by (simp add: direct_skip_def)
  next
    case False
    with st obtain wave decision_r supported where
      wave: "wave_number bc (slot_round s) = Some wave" "decision_round bc wave = Some decision_r"
      and sup: "filter_opt (enough_leader_support d bc decision_r) (get_uncommitted_blocks_at_slot d s) = Some supported"
      and one: "length supported \<le> 1"
      and st': "st = (case bset_last supported of Some b \<Rightarrow> Commit b | None \<Rightarrow> Undecided s)"
      by (auto simp: panic_simps)
    have r: "decision_r = slot_round s + 2" using wave_of_leader [OF assms(3) wave] .
    note all = filter_opt_SomeD [OF sup]
    have "supported = filter (\<lambda>b. enough_leader_support d bc decision_r b = Some True) (get_uncommitted_blocks_at_slot d s)"
      using all by blast
    with one filter_at_most_one [of "\<lambda>b. enough_leader_support d bc decision_r b = Some True"
        "get_uncommitted_blocks_at_slot d s"]
    have pick: "case bset_last supported of
        Some b \<Rightarrow> b \<in> set (get_uncommitted_blocks_at_slot d s) \<and> enough_leader_support d bc decision_r b = Some True
      | None \<Rightarrow> True" by (auto split: option.splits)
    show ?thesis
    proof (cases "bset_last supported")
      case (Some b)
      then have b: "at_slot d s b" "enough_leader_support d bc (slot_round s + 2) b = Some True"
        using pick uncommitted_at_slot(1) [OF assms(1) gc] r by (auto simp: at_slot_def)
      then have "direct_commit d s b"
        using enough_leader_support_eq [OF assms(1,2), of b True] at_slot_round [OF b(1)] gc
        by (simp add: direct_commit_def)
      then show ?thesis using st' Some by simp
    qed (use st' in simp)
  qed
qed

lemma decide_leader_from_anchor_spec:
  assumes "view_ok d" and "bc_context bc = ds_context d" and "leads bc (slot_round s)"
    and "gc_round d < slot_round s" and "dag_lookup d (reference anchor) = Some anchor"
    and "slot_round s + 2 < vb_round anchor" and "decide_leader_from_anchor d bc anchor s = Some st"
  shows "(\<exists>b. st = Commit b \<and> anchored d anchor s b) \<or> st = Skip s \<and> (\<forall>b. \<not> anchored d anchor s b)"
proof -
  from assms(7) obtain wave decision_r ps cs where
    wave: "wave_number bc (slot_round s) = Some wave" "decision_round bc wave = Some decision_r"
    and ps: "ancestors_at_round d anchor decision_r = Some ps"
    and cs: "filter_opt (\<lambda>l. any_certificate d (ds_committee d) l ps (\<lambda>_. None)) (get_uncommitted_blocks_at_slot d s) = Some cs"
    and one: "length cs \<le> 1" and st: "st = (case bset_last cs of Some b \<Rightarrow> Commit b | None \<Rightarrow> Skip s)"
    unfolding decide_leader_from_anchor_def Let_def assms(2) by (auto simp: panic_simps)
  have r: "decision_r = slot_round s + 2" using wave_of_leader [OF assms(3) wave] .
  from ancestors_at_round_exact [OF view_okD(1,2) [OF assms(1)], of "slot_round s + 2" anchor] assms(4-6) ps r
  have look: "\<forall>p\<in>set ps. dag_lookup d (reference p) = Some p"
    and refs: "reference ` set ps = {x. br_round x = slot_round s + 2 \<and> (reference anchor, x) \<in> (causal d)\<^sup>*}" by auto
  have hist: "set ps = history_at d anchor (slot_round s + 2)"
  proof (intro equalityI subsetI)
    fix p assume p: "p \<in> set ps"
    then have "reference p \<in> reference ` set ps" by (rule imageI)
    then show "p \<in> history_at d anchor (slot_round s + 2)" using look p unfolding refs by (auto simp: history_at_def)
  next
    fix p assume p: "p \<in> history_at d anchor (slot_round s + 2)"
    then have "reference p \<in> reference ` set ps" unfolding refs by (simp add: history_at_def)
    then obtain q where "q \<in> set ps" "reference q = reference p" by auto
    then show "p \<in> set ps" using look p by (auto simp: history_at_def)
  qed
  have any: "any_certificate d (ds_committee d) l ps (\<lambda>_. None) = Some (anchored d anchor s l)"
    if "l \<in> set (get_uncommitted_blocks_at_slot d s)" for l
  proof -
    have l: "at_slot d s l" using that uncommitted_at_slot(1) [OF assms(1,4)] by (auto simp: at_slot_def)
    note lr = at_slot_round [OF l]
    have "\<forall>b\<in>set ps. dag_lookup d (reference b) = Some b \<and> vb_round b = vb_round l + 2"
      using lr unfolding hist by (auto simp: history_at_def)
    then show ?thesis
      using any_certificate_eq [OF assms(1), of l "\<lambda>_. None" ps] lr l assms(4) by (simp add: anchored_def hist)
  qed
  have "cs = filter (anchored d anchor s) (get_uncommitted_blocks_at_slot d s)"
    using cs filter_opt_total [of "get_uncommitted_blocks_at_slot d s" _ "anchored d anchor s", OF any] by simp
  with one filter_at_most_one [of "anchored d anchor s" "get_uncommitted_blocks_at_slot d s"]
  have pick: "case bset_last cs of Some b \<Rightarrow> anchored d anchor s b
      | None \<Rightarrow> \<forall>b\<in>set (get_uncommitted_blocks_at_slot d s). \<not> anchored d anchor s b"
    by (simp split: option.splits)
  have "b \<in> set (get_uncommitted_blocks_at_slot d s)" if "anchored d anchor s b" for b
    using that unfolding uncommitted_at_slot(1) [OF assms(1,4)] by (simp add: anchored_def at_slot_def)
  then show ?thesis using st pick by (cases "bset_last cs") auto
qed

subsection \<open>Sequences of decisions\<close>

text \<open>A run of the committer assigns a status to the leader slot of every round of an interval.
  Each status is justified by a direct decision, or by the first leader after the decision round
  that is not skipped, when that one is committed.\<close>

definition justified :: "dag_state \<Rightarrow> slot \<Rightarrow> (round \<rightharpoonup> leader_status) \<Rightarrow> leader_status \<Rightarrow> bool" where
  "justified d s run st \<longleftrightarrow>
     st = Skip s \<and> direct_skip d s
   \<or> (\<exists>b. st = Commit b \<and> direct_commit d s b)
   \<or> st = Undecided s
   \<or> (\<exists>ra anchor. slot_round s + 3 \<le> ra \<and> run ra = Some (Commit anchor)
        \<and> (\<forall>q. slot_round s + 3 \<le> q \<and> q < ra \<longrightarrow> (\<exists>s'. run q = Some (Skip s')))
        \<and> ((\<exists>b. st = Commit b \<and> anchored d anchor s b) \<or> st = Skip s \<and> (\<forall>b. \<not> anchored d anchor s b)))"

definition run_ok :: "dag_state \<Rightarrow> (round \<Rightarrow> slot) \<Rightarrow> (round \<rightharpoonup> leader_status) \<Rightarrow> bool" where
  "run_ok d leader run \<longleftrightarrow> finite (dom run)
   \<and> (\<forall>r st. run r = Some st \<longrightarrow> slot_round (leader r) = r \<and> gc_round d < r \<and> justified d (leader r) run st)"

lemma run_ok_commit:
  assumes "run_ok d leader run" and "run r = Some (Commit b)"
  shows "at_slot d (leader r) b" and "slot_round (leader r) = r"
  using assms unfolding run_ok_def justified_def direct_commit_def anchored_def by fastforce+

text \<open>Two views of one slot: a certificate in the first, whatever it comes from.\<close>

definition some_certificate :: "dag_state \<Rightarrow> slot \<Rightarrow> verified_block \<Rightarrow> bool" where
  "some_certificate d s b \<longleftrightarrow> at_slot d s b \<and> (\<exists>p. dag_lookup d (reference p) = Some p
     \<and> vb_round p = slot_round s + 2 \<and> certified d (reference b) p)"

lemma anchored_some_certificate: "anchored d anchor s b \<Longrightarrow> some_certificate d s b"
  by (auto simp: anchored_def some_certificate_def history_at_def)

lemma direct_commit_some_certificate:
  assumes "view_ok d" and "direct_commit d s b"
  shows "some_certificate d s b"
proof -
  from quorum_nonempty [OF view_okD(3) [OF assms(1)]] assms(2) obtain x where
    "x \<in> certifiers d (reference b)" unfolding direct_commit_def by blast
  then show ?thesis
    using assms(2) at_slot_round [of d s b] by (auto simp: certifiers_def some_certificate_def direct_commit_def)
qed

lemma some_certificate_unique:
  assumes "view_ok d" and "view_ok d'" and "views_consistent F d d'" and "faulty_ok (ds_committee d) F"
    and "gc_round d < slot_round s" and "gc_round d' < slot_round s"
    and "some_certificate d s b" and "some_certificate d' s b'"
  shows "b = b'"
proof -
  from assms(7) obtain p where p: "dag_lookup d (reference p) = Some p" "vb_round p = slot_round s + 2"
    "certified d (reference b) p" and b: "at_slot d s b" by (auto simp: some_certificate_def)
  from assms(8) obtain p' where p': "dag_lookup d' (reference p') = Some p'" "vb_round p' = slot_round s + 2"
    "certified d' (reference b') p'" and b': "at_slot d' s b'" by (auto simp: some_certificate_def)
  have "reference b = reference b'"
    using certified_unique [OF assms(1-4) p(1) _ p(3) p'(1) _ p'(3)] p(2) p'(2) b b' assms(5,6)
      at_slot_round [OF b] at_slot_round [OF b'] by (simp add: at_slot_def)
  then show ?thesis
    using views_consistent_block [OF assms(3)] b b' by (auto simp: at_slot_def)
qed

lemma skip_excludes_certificate:
  assumes "view_ok d" and "view_ok d'" and "views_consistent F d d'" and "faulty_ok (ds_committee d) F"
    and "gc_round d < slot_round s" and "gc_round d' < slot_round s"
    and "direct_skip d s" and "some_certificate d' s b"
  shows False
proof -
  from assms(8) obtain p where p: "dag_lookup d' (reference p) = Some p" "vb_round p = slot_round s + 2"
    "certified d' (reference b) p" and b: "at_slot d' s b" by (auto simp: some_certificate_def)
  show False
    using blamed_not_certified [OF assms(1-4) assms(7) [unfolded direct_skip_def] p(1) _ p(3) _ assms(5,6)]
      p(2) b at_slot_round [OF b] by (simp add: at_slot_def)
qed

lemma direct_commit_anchored:
  assumes "view_ok d" and "view_ok d'" and "views_consistent F d d'" and "faulty_ok (ds_committee d) F"
    and "gc_round d < slot_round s" and "gc_round d' < slot_round s"
    and "direct_commit d s b" and "dag_lookup d' (reference anchor) = Some anchor"
    and "slot_round s + 2 < vb_round anchor"
  shows "anchored d' anchor s b"
proof -
  have b: "at_slot d s b" using assms(7) by (simp add: direct_commit_def)
  note br = at_slot_round [OF b]
  from direct_commit_in_history [OF assms(1-4) _ assms(8), of "reference b"] assms(5-7,9) br obtain p where
    p: "p \<in> history_at d' anchor (slot_round s + 2)" "certified d' (reference b) p"
    by (auto simp: direct_commit_def)
  then have look: "dag_lookup d' (reference p) = Some p" "vb_round p = br_round (reference b) + 2"
    using br by (auto simp: history_at_def)
  from certified_known [OF assms(2) look p(2)] br assms(6) obtain b' where
    b': "dag_lookup d' (reference b) = Some b'" by auto
  then have "b' = b" using views_consistent_block [OF assms(3)] b by (auto simp: at_slot_def)
  then show ?thesis using b b' p by (auto simp: anchored_def at_slot_def)
qed

lemma anchored_transfer:
  assumes "view_ok d" and "view_ok d'" and "views_consistent F d d'"
    and "gc_round d < slot_round s" and "gc_round d' < slot_round s"
    and "dag_lookup d (reference anchor) = Some anchor" and "dag_lookup d' (reference anchor) = Some anchor"
    and "anchored d anchor s b"
  shows "anchored d' anchor s b"
proof -
  from assms(8) obtain p where b: "at_slot d s b" and p: "p \<in> history_at d anchor (slot_round s + 2)"
    "certified d (reference b) p" by (auto simp: anchored_def)
  note br = at_slot_round [OF b]
  have p': "p \<in> history_at d' anchor (slot_round s + 2)"
    using history_at_transfer [OF assms(1-3) assms(7,6), of "slot_round s + 2"] p(1) assms(4,5) by auto
  have look: "dag_lookup d (reference p) = Some p" "dag_lookup d' (reference p) = Some p"
    "vb_round p = br_round (reference b) + 2" using p(1) p' br by (auto simp: history_at_def)
  have gc': "gc_round d' < br_round (reference b)" using br assms(5) by simp
  have cert: "certified d' (reference b) p"
    using certified_transfer [OF assms(1-3) look(1,3) p(2) look(2) gc'] .
  from certified_known [OF assms(2) look(2,3) cert gc'] obtain b' where
    b': "dag_lookup d' (reference b) = Some b'" by blast
  then have "b' = b" using views_consistent_block [OF assms(3)] b by (auto simp: at_slot_def)
  then show ?thesis using b b' p' cert by (auto simp: anchored_def at_slot_def)
qed

subsection \<open>Agreement\<close>

text \<open>A skip is justified directly or by an anchor without a certificate in its history.\<close>

lemma run_ok_skip:
  assumes "run_ok d leader run" and "run r = Some (Skip s)"
  obtains (direct) "direct_skip d (leader r)"
    | (indirect) ra anchor where "r + 3 \<le> ra" "run ra = Some (Commit anchor)"
        "\<forall>q. r + 3 \<le> q \<and> q < ra \<longrightarrow> (\<exists>s'. run q = Some (Skip s'))" "\<forall>b. \<not> anchored d anchor (leader r) b"
  using assms unfolding run_ok_def justified_def by fastforce

lemma run_ok_commit_cases:
  assumes "run_ok d leader run" and "run r = Some (Commit b)"
  obtains (direct) "direct_commit d (leader r) b"
    | (indirect) ra anchor where "r + 3 \<le> ra" "run ra = Some (Commit anchor)"
        "\<forall>q. r + 3 \<le> q \<and> q < ra \<longrightarrow> (\<exists>s'. run q = Some (Skip s'))" "anchored d anchor (leader r) b"
  using assms unfolding run_ok_def justified_def by fastforce

lemma run_ok_some_certificate:
  assumes "view_ok d" and "run_ok d leader run" and "run r = Some (Commit b)"
  shows "some_certificate d (leader r) b"
  using assms(2,3)
proof (cases rule: run_ok_commit_cases)
  case direct
  then show ?thesis by (rule direct_commit_some_certificate [OF assms(1)])
next
  case (indirect ra anchor)
  then show ?thesis by (intro anchored_some_certificate)
qed

text \<open>The anchors of two runs are the same block when the runs agree on later rounds.\<close>

lemma anchors_agree:
  fixes run run' :: "round \<rightharpoonup> leader_status"
  assumes "\<And>q b s. r < q \<Longrightarrow> run q = Some (Commit b) \<Longrightarrow> run' q \<noteq> Some (Skip s)"
    and "\<And>q b s. r < q \<Longrightarrow> run' q = Some (Commit b) \<Longrightarrow> run q \<noteq> Some (Skip s)"
    and "\<And>q b b'. r < q \<Longrightarrow> run q = Some (Commit b) \<Longrightarrow> run' q = Some (Commit b') \<Longrightarrow> b = b'"
    and "r + 3 \<le> ra" and "run ra = Some (Commit anchor)"
    and "\<forall>q. r + 3 \<le> q \<and> q < ra \<longrightarrow> (\<exists>s. run q = Some (Skip s))"
    and "r + 3 \<le> ra'" and "run' ra' = Some (Commit anchor')"
    and "\<forall>q. r + 3 \<le> q \<and> q < ra' \<longrightarrow> (\<exists>s. run' q = Some (Skip s))"
  shows "anchor = anchor'"
proof (cases ra ra' rule: linorder_cases)
  case less
  with assms(4,9) obtain s where "run' ra = Some (Skip s)" by blast
  then show ?thesis using assms(1) [of ra anchor s] assms(4,5) by simp
next
  case equal
  then show ?thesis using assms(3) [of ra anchor anchor'] assms(4,5,8) by simp
next
  case greater
  with assms(6,7) obtain s where "run ra' = Some (Skip s)" by blast
  then show ?thesis using assms(2) [of ra' anchor' s] assms(7,8) by simp
qed

lemma commits_agree:
  assumes "view_ok d" and "view_ok d'" and "views_consistent F d d'" and "faulty_ok (ds_committee d) F"
    and "run_ok d leader run" and "run_ok d' leader run'"
    and "run r = Some (Commit b)" and "run' r = Some (Commit b')"
  shows "b = b'"
proof -
  have "gc_round d < slot_round (leader r)" "gc_round d' < slot_round (leader r)"
    using assms(5-8) by (auto simp: run_ok_def)
  then show ?thesis
    using some_certificate_unique [OF assms(1-4)] run_ok_some_certificate [OF assms(1,5,7)]
      run_ok_some_certificate [OF assms(2,6,8)] by blast
qed

text \<open>The step of the induction: agreement on later rounds excludes a conflict.\<close>

lemma no_conflict_step:
  assumes "view_ok d" and "view_ok d'" and "views_consistent F d d'" and "faulty_ok (ds_committee d) F"
    and "run_ok d leader run" and "run_ok d' leader run'"
    and "\<And>q b s. r < q \<Longrightarrow> run q = Some (Commit b) \<Longrightarrow> run' q \<noteq> Some (Skip s)"
    and "\<And>q b s. r < q \<Longrightarrow> run' q = Some (Commit b) \<Longrightarrow> run q \<noteq> Some (Skip s)"
    and "run r = Some (Commit b)" and "run' r = Some (Skip s)"
  shows False
proof -
  have r: "slot_round (leader r) = r" and gc: "gc_round d < slot_round (leader r)" "gc_round d' < slot_round (leader r)"
    using assms(5,6,9,10) by (auto simp: run_ok_def)
  have sym: "views_consistent F d' d" "faulty_ok (ds_committee d') F"
    using views_consistent_sym [OF assms(3)] assms(3,4) by (simp_all add: views_consistent_def)
  have cert: "some_certificate d (leader r) b" by (rule run_ok_some_certificate [OF assms(1,5,9)])
  from assms(6,10) show False
  proof (cases rule: run_ok_skip)
    case direct
    then show False using skip_excludes_certificate [OF assms(2,1) sym gc(2,1) _ cert] by blast
  next
    case skip: (indirect ra' anchor')
    have anchor': "dag_lookup d' (reference anchor') = Some anchor'" "slot_round (leader r) + 2 < vb_round anchor'"
      using run_ok_commit [OF assms(6) skip(2)] at_slot_round skip(1) r by (fastforce simp: at_slot_def)+
    from assms(5,9) show False
    proof (cases rule: run_ok_commit_cases)
      case direct
      then show False using direct_commit_anchored [OF assms(1-4) gc direct anchor'] skip(4) by blast
    next
      case (indirect ra anchor)
      have "anchor = anchor'"
        by (rule anchors_agree [OF assms(7,8) commits_agree [OF assms(1-6)] indirect(1-3) skip(1-3)])
      moreover have "dag_lookup d (reference anchor) = Some anchor"
        using run_ok_commit [OF assms(5) indirect(2)] by (simp add: at_slot_def)
      ultimately show False
        using anchored_transfer [OF assms(1-3) gc] anchor'(1) indirect(4) skip(4) by blast
    qed
  qed
qed

lemma no_conflict:
  assumes "view_ok d" and "view_ok d'" and "views_consistent F d d'" and "faulty_ok (ds_committee d) F"
    and "run_ok d leader run" and "run_ok d' leader run'"
  shows "\<not> (run r = Some (Commit b) \<and> run' r = Some (Skip s)) \<and> \<not> (run' r = Some (Commit b) \<and> run r = Some (Skip s))"
proof -
  have fin: "finite (dom run \<union> dom run')" using assms(5,6) by (simp add: run_ok_def)
  obtain N where N: "\<forall>q\<in>dom run \<union> dom run'. q < N" using finite_nat_set_iff_bounded fin by blast
  have sym: "views_consistent F d' d" "faulty_ok (ds_committee d') F"
    using views_consistent_sym [OF assms(3)] assms(3,4) by (simp_all add: views_consistent_def)
  show ?thesis
  proof (induction "N - r" arbitrary: r b s rule: less_induct)
    case less
    have IH: "\<not> (run q = Some (Commit b) \<and> run' q = Some (Skip s))" "\<not> (run' q = Some (Commit b) \<and> run q = Some (Skip s))"
      if "r < q" "q \<in> dom run" for q b s
    proof -
      have "N - q < N - r" using N that by (metis UnI1 diff_less_mono2 less_trans)
      from less [OF this] show "\<not> (run q = Some (Commit b) \<and> run' q = Some (Skip s))"
        "\<not> (run' q = Some (Commit b) \<and> run q = Some (Skip s))" by blast+
    qed
    have later: "run' q \<noteq> Some (Skip s)" if "r < q" "run q = Some (Commit b)" for q b s using IH that by blast
    have later': "run q \<noteq> Some (Skip s)" if "r < q" "run' q = Some (Commit b)" for q b s using IH that by blast
    have "\<not> (run r = Some (Commit b) \<and> run' r = Some (Skip s))"
      using no_conflict_step [where r = r, OF assms] later later' by blast
    moreover have "\<not> (run' r = Some (Commit b) \<and> run r = Some (Skip s))"
      using no_conflict_step [where r = r, OF assms(2,1) sym assms(6,5)] later later' by blast
    ultimately show ?case by blast
  qed
qed

end
