(* ===== verification/Universal_Committer.thy ===== *)
theory Universal_Committer
  imports Committer_Safety "HOL-Library.Sublist"
begin

section \<open>The universal committer\<close>

text \<open>
  Model of \<open>consensus/src/universal_committer.rs\<close>: a list of base committers decides leaders from
  the highest round downwards, and the decided sequence is the longest prefix of decided leaders.
  The pipelined committers are shown to produce runs in the sense of the safety theory, one leader
  per round.
\<close>

record universal_committer =
  uc_context :: consensus_context
  uc_committers :: "base_committer list"

subsection \<open>Operations\<close>

text \<open>The inner loop over the committers of a round; the flag is \<open>break 'outer\<close>.\<close>

fun decide_in_round ::
    "rng_lib \<Rightarrow> dag_state \<Rightarrow> slot \<Rightarrow> round \<Rightarrow> base_committer list \<Rightarrow> (leader_status \<times> decision) list
       \<Rightarrow> ((leader_status \<times> decision) list \<times> bool) option" where
  "decide_in_round rng d last_decided r [] leaders = Some (leaders, False)"
| "decide_in_round rng d last_decided r (bc # rest) leaders = do {
     elected \<leftarrow> bc_elect_leader rng bc r;
     (case elected of
        None \<Rightarrow> decide_in_round rng d last_decided r rest leaders
      | Some s \<Rightarrow>
          if s = last_decided then Some (leaders, True)
          else do {
            status \<leftarrow> try_direct_decide d bc s;
            (if is_decided status
             then decide_in_round rng d last_decided r rest ((status, Direct) # leaders)
             else do {
               status' \<leftarrow> try_indirect_decide d bc s (map fst leaders);
               decide_in_round rng d last_decided r rest ((status', Indirect) # leaders)
             })
          })
   }"

fun decide_rounds ::
    "rng_lib \<Rightarrow> dag_state \<Rightarrow> slot \<Rightarrow> base_committer list \<Rightarrow> round list \<Rightarrow> (leader_status \<times> decision) list
       \<Rightarrow> (leader_status \<times> decision) list option" where
  "decide_rounds rng d last_decided committers [] leaders = Some leaders"
| "decide_rounds rng d last_decided committers (r # rounds) leaders = do {
     (leaders', stop) \<leftarrow> decide_in_round rng d last_decided r (rev committers) leaders;
     (if stop then Some leaders' else decide_rounds rng d last_decided committers rounds leaders')
   }"

definition uc_update_metrics :: "consensus_context \<Rightarrow> decided_leader \<Rightarrow> unit option" where
  "uc_update_metrics ctx l = do {
     _ \<leftarrow> committee_authority (ctx_committee ctx) (slot_authority (dl_slot l));
     Some ()
   }"

fun decided_sequence ::
    "consensus_context \<Rightarrow> (leader_status \<times> decision) list \<Rightarrow> decided_leader list option" where
  "decided_sequence ctx [] = Some []"
| "decided_sequence ctx ((leader, dec) # rest) =
     (if ls_round leader = GENESIS_ROUND then decided_sequence ctx rest
      else case into_decided_leader (dec = Direct) leader of
        None \<Rightarrow> Some []
      | Some l \<Rightarrow> do {
          uc_update_metrics ctx l;
          ls \<leftarrow> decided_sequence ctx rest;
          Some (l # ls)
        })"

definition try_decide ::
    "rng_lib \<Rightarrow> universal_committer \<Rightarrow> dag_state \<Rightarrow> slot \<Rightarrow> decided_leader list option" where
  "try_decide rng uc d last_decided = do {
     let highest = highest_accepted_round d;
     last_round \<leftarrow> (if num_leaders_per_round (protocol_config (uc_context uc)) = Some 1
                   then u32_add (slot_round last_decided) 1 else Some (slot_round last_decided));
     leaders \<leftarrow> decide_rounds rng d last_decided (uc_committers uc)
                 (rev [last_round..<Suc (saturating_sub highest 2)]) [];
     decided_sequence (uc_context uc) leaders
   }"

definition get_leaders :: "rng_lib \<Rightarrow> universal_committer \<Rightarrow> round \<Rightarrow> authority_index list option" where
  "get_leaders rng uc r = do {
     elected \<leftarrow> map_opt (\<lambda>bc. bc_elect_leader rng bc r) (uc_committers uc);
     Some (map slot_authority (concat (map (\<lambda>e. case e of None \<Rightarrow> [] | Some s \<Rightarrow> [s]) elected)))
   }"

subsection \<open>Builder\<close>

record universal_committer_builder =
  ucb_context :: consensus_context
  ucb_schedule :: leader_schedule
  ucb_wave_length :: round
  number_of_leaders :: nat
  pipeline :: bool

definition UniversalCommitterBuilder_new ::
    "consensus_context \<Rightarrow> leader_schedule \<Rightarrow> universal_committer_builder" where
  "UniversalCommitterBuilder_new ctx ls = \<lparr>ucb_context = ctx, ucb_schedule = ls,
     ucb_wave_length = DEFAULT_WAVE_LENGTH, number_of_leaders = 1, pipeline = False\<rparr>"

definition with_number_of_leaders :: "nat \<Rightarrow> universal_committer_builder \<Rightarrow> universal_committer_builder" where
  "with_number_of_leaders n b = b\<lparr>number_of_leaders := n\<rparr>"

definition with_pipeline :: "bool \<Rightarrow> universal_committer_builder \<Rightarrow> universal_committer_builder" where
  "with_pipeline p b = b\<lparr>pipeline := p\<rparr>"

definition build :: "universal_committer_builder \<Rightarrow> universal_committer" where
  "build b = (
     let pipeline_stages = (if pipeline b then ucb_wave_length b else 1)
     in \<lparr>uc_context = ucb_context b,
         uc_committers = concat (map (\<lambda>offset. map (\<lambda>leader.
           BaseCommitter_new (ucb_context b) (ucb_schedule b)
             \<lparr>wave_length = ucb_wave_length b, leader_offset = as_u32 leader, round_offset = offset\<rparr>)
             [0..<number_of_leaders b]) [0..<pipeline_stages])\<rparr>)"

subsection \<open>The pipelined committers\<close>

definition pipelined :: "consensus_context \<Rightarrow> leader_schedule \<Rightarrow> universal_committer" where
  "pipelined ctx ls = build (with_pipeline True (with_number_of_leaders 1 (UniversalCommitterBuilder_new ctx ls)))"

definition stage :: "consensus_context \<Rightarrow> leader_schedule \<Rightarrow> nat \<Rightarrow> base_committer" where
  "stage ctx ls i = BaseCommitter_new ctx ls \<lparr>wave_length = DEFAULT_WAVE_LENGTH, leader_offset = 0, round_offset = i\<rparr>"

lemma pipelined_committers: "uc_committers (pipelined ctx ls) = [stage ctx ls 0, stage ctx ls 1, stage ctx ls 2]"
  by (simp add: pipelined_def build_def with_pipeline_def with_number_of_leaders_def UniversalCommitterBuilder_new_def
      DEFAULT_WAVE_LENGTH_def MINIMUM_WAVE_LENGTH_def stage_def as_u32_def upt_rec numeral_eq_Suc)

lemma stage_fields [simp]:
  "bc_context (stage ctx ls i) = ctx" "bc_schedule (stage ctx ls i) = ls"
  "wave_length (bc_options (stage ctx ls i)) = DEFAULT_WAVE_LENGTH"
  "leader_offset (bc_options (stage ctx ls i)) = 0" "round_offset (bc_options (stage ctx ls i)) = i"
  by (simp_all add: stage_def BaseCommitter_new_def)

text \<open>The committers \<open>Core::new\<close> builds; with one leader per round they are the pipelined ones.\<close>

definition core_committer :: "consensus_context \<Rightarrow> leader_schedule \<Rightarrow> universal_committer" where
  "core_committer ctx ls = (
     let number_of_leaders = (case num_leaders_per_round (protocol_config ctx) of Some n \<Rightarrow> n | None \<Rightarrow> 1)
     in build (with_pipeline True (with_number_of_leaders number_of_leaders (UniversalCommitterBuilder_new ctx ls))))"

lemma core_committer_pipelined:
  "num_leaders_per_round (protocol_config ctx) = Some 1 \<Longrightarrow> core_committer ctx ls = pipelined ctx ls"
  by (simp add: core_committer_def pipelined_def)

text \<open>Exactly one stage has a leader in a round: the one whose offset is the round modulo three.\<close>

lemma stage_elects:
  assumes "bc_elect_leader rng (stage ctx ls i) r = Some e" and "i < 3"
  shows "if r mod 3 = i then (\<exists>a. e = Some (Slot r a) \<and> elect_leader rng ls r 0 = Some a) else e = None"
proof -
  have "(r - i) div 3 * 3 + i = r \<longleftrightarrow> r mod 3 = i"
  proof
    assume *: "(r - i) div 3 * 3 + i = r"
    then have "r mod 3 = i mod 3" by (metis mod_mult_self3)
    then show "r mod 3 = i" using assms(2) by simp
  next
    assume "r mod 3 = i"
    then have "r - i = 3 * (r div 3)" "i \<le> r" by (auto simp: minus_mod_eq_mult_div [symmetric])
    then show "(r - i) div 3 * 3 + i = r" by simp
  qed
  then show ?thesis
    using assms(1)
    by (auto simp: bc_elect_leader_def wave_number_def leader_round_def DEFAULT_WAVE_LENGTH_def
        MINIMUM_WAVE_LENGTH_def panic_simps split: if_splits)
qed

lemma stage_leads: "r mod 3 = i \<Longrightarrow> leads (stage ctx ls i) r"
  by (auto simp: leads_def minus_mod_eq_mult_div)

subsection \<open>A round of the pipelined committers\<close>

text \<open>How the status of a leader slot comes about, given the statuses of later rounds.\<close>

definition decides :: "dag_state \<Rightarrow> base_committer \<Rightarrow> slot \<Rightarrow> leader_status list \<Rightarrow> leader_status \<Rightarrow> bool" where
  "decides d bc s later st \<longleftrightarrow> (\<exists>st0. try_direct_decide d bc s = Some st0
     \<and> (if is_decided st0 then st = st0 else try_indirect_decide d bc s later = Some st))"

lemma decide_in_round_other:
  assumes "bc_elect_leader rng bc r = Some None"
  shows "decide_in_round rng d ld r (bc # rest) leaders = decide_in_round rng d ld r rest leaders"
  using assms by simp

lemma decide_in_round_elected:
  assumes "bc_elect_leader rng bc r = Some (Some s)" and "s \<noteq> ld"
    and "decide_in_round rng d ld r (bc # rest) leaders = Some res"
  shows "\<exists>st dec. decides d bc s (map fst leaders) st
           \<and> decide_in_round rng d ld r rest ((st, dec) # leaders) = Some res"
  using assms by (auto simp: decides_def panic_simps split: if_splits)

lemma decide_in_round_pipelined:
  assumes "decide_in_round rng d ld r (rev (uc_committers (pipelined ctx ls))) leaders = Some (leaders', stop)"
    and "slot_round ld < r"
  shows "\<exists>bc a st dec. bc_context bc = ctx \<and> leads bc r \<and> wave_length (bc_options bc) = DEFAULT_WAVE_LENGTH
     \<and> elect_leader rng ls r 0 = Some a
     \<and> decides d bc (Slot r a) (map fst leaders) st \<and> leaders' = (st, dec) # leaders \<and> \<not> stop"
proof -
  let ?s = "stage ctx ls"
  have "r mod 3 < 3" by simp
  then have cases: "r mod 3 = 2 \<or> r mod 3 = 1 \<or> r mod 3 = 0" by linarith
  have run: "decide_in_round rng d ld r [?s 2, ?s 1, ?s 0] leaders = Some (leaders', stop)"
    using assms(1) by (simp add: pipelined_committers)
  have elect: "\<exists>e. bc_elect_leader rng (?s i) r = Some e"
    if "decide_in_round rng d ld r (?s i # rest) l = Some res" for i rest l res
    using that by (auto simp: panic_simps)
  have skip: "decide_in_round rng d ld r (?s i # rest) l = Some res \<Longrightarrow> r mod 3 \<noteq> i \<Longrightarrow> i < 3 \<Longrightarrow>
      decide_in_round rng d ld r rest l = Some res" for i rest l res
    using elect [of i rest l res] stage_elects [of rng ctx ls i r] decide_in_round_other by metis
  have take: "\<exists>a st dec. elect_leader rng ls r 0 = Some a \<and> decides d (?s i) (Slot r a) (map fst l) st
      \<and> decide_in_round rng d ld r rest ((st, dec) # l) = Some res"
    if run: "decide_in_round rng d ld r (?s i # rest) l = Some res" and i: "r mod 3 = i" "i < 3" for i rest l res
  proof -
    from elect [OF run] stage_elects [of rng ctx ls i r] i obtain a where
      a: "bc_elect_leader rng (?s i) r = Some (Some (Slot r a))" "elect_leader rng ls r 0 = Some a" by auto
    have "Slot r a \<noteq> ld" using assms(2) by auto
    from decide_in_round_elected [OF a(1) this run] a(2) show ?thesis by blast
  qed
  have "\<exists>a st dec. elect_leader rng ls r 0 = Some a \<and> decides d (?s (r mod 3)) (Slot r a) (map fst leaders) st
      \<and> (leaders', stop) = ((st, dec) # leaders, False)"
    using cases
  proof (elim disjE)
    assume m: "r mod 3 = 2"
    from take [OF run m] obtain a st dec where
      t: "elect_leader rng ls r 0 = Some a" "decides d (?s 2) (Slot r a) (map fst leaders) st"
      "decide_in_round rng d ld r [?s 1, ?s 0] ((st, dec) # leaders) = Some (leaders', stop)" by auto
    have "decide_in_round rng d ld r [] ((st, dec) # leaders) = Some (leaders', stop)"
      using skip [OF skip [OF t(3)]] m by simp
    with t m show ?thesis by auto
  next
    assume m: "r mod 3 = 1"
    have "decide_in_round rng d ld r [?s 1, ?s 0] leaders = Some (leaders', stop)" using skip [OF run] m by simp
    from take [OF this m] obtain a st dec where
      t: "elect_leader rng ls r 0 = Some a" "decides d (?s 1) (Slot r a) (map fst leaders) st"
      "decide_in_round rng d ld r [?s 0] ((st, dec) # leaders) = Some (leaders', stop)" by auto
    have "decide_in_round rng d ld r [] ((st, dec) # leaders) = Some (leaders', stop)" using skip [OF t(3)] m by simp
    with t m show ?thesis by auto
  next
    assume m: "r mod 3 = 0"
    have "decide_in_round rng d ld r [?s 0] leaders = Some (leaders', stop)" using skip [OF skip [OF run]] m by simp
    from take [OF this m] m show ?thesis by auto
  qed
  then show ?thesis using stage_leads [of r "r mod 3" ctx ls] by (intro exI [of _ "?s (r mod 3)"]) auto
qed

subsection \<open>Runs\<close>

text \<open>The list of statuses from round \<open>lo\<close> on, as a map from rounds.\<close>

definition run_of :: "round \<Rightarrow> leader_status list \<Rightarrow> round \<rightharpoonup> leader_status" where
  "run_of lo sts r = (if lo \<le> r \<and> r < lo + length sts then Some (sts ! (r - lo)) else None)"

lemma run_of_Cons: "run_of lo (st # sts) = (run_of (Suc lo) sts)(lo \<mapsto> st)"
proof
  fix r
  have "lo < r \<Longrightarrow> r - lo = Suc (r - Suc lo)" by simp
  then show "run_of lo (st # sts) r = ((run_of (Suc lo) sts)(lo \<mapsto> st)) r"
    by (cases r lo rule: linorder_cases) (auto simp: run_of_def)
qed

lemma finite_dom_run_of: "finite (dom (run_of lo sts))"
proof (rule finite_subset)
  show "dom (run_of lo sts) \<subseteq> {..<lo + length sts}" by (auto simp: run_of_def split: if_splits)
qed simp

lemma justified_mono:
  assumes "justified d s run st" and "\<And>q. slot_round s + 3 \<le> q \<Longrightarrow> run' q = run q"
  shows "justified d s run' st"
  using assms(1) unfolding justified_def by (simp add: assms(2) cong: conj_cong)

text \<open>Rounds of the statuses in a run.\<close>

lemma justified_round: "justified d s run st \<Longrightarrow> ls_round st = slot_round s"
  using at_slot_round by (auto simp: justified_def direct_commit_def anchored_def)

lemma filter_rounds:
  assumes "\<forall>i<length sts. ls_round (sts ! i) = lo + i"
  shows "filter (\<lambda>x. t \<le> ls_round x) sts = drop (t - lo) sts"
  using assms
proof (induction sts arbitrary: lo)
  case (Cons st sts)
  have st: "ls_round st = lo" using Cons.prems by force
  have "\<forall>i<length sts. ls_round (sts ! i) = Suc lo + i" using Cons.prems by fastforce
  note IH = Cons.IH [OF this]
  show ?case
  proof (cases "t \<le> lo")
    case True
    then show ?thesis using st IH by simp
  next
    case False
    then have "t - lo = Suc (t - Suc lo)" by simp
    then show ?thesis using st IH False by simp
  qed
qed simp

lemma decide_from_anchors_cases:
  assumes "decide_from_anchors d bc s xs = Some st"
  shows "st = Undecided s \<or> (\<exists>i anchor. i < length xs \<and> xs ! i = Commit anchor
     \<and> (\<forall>j<i. \<exists>s'. xs ! j = Skip s') \<and> decide_leader_from_anchor d bc anchor s = Some st)"
  using assms
proof (induction xs)
  case (Cons x xs)
  show ?case
  proof (cases x)
    case (Commit anchor)
    then show ?thesis using Cons.prems by (intro disjI2 exI [of _ 0]) auto
  next
    case (Skip s')
    then have "decide_from_anchors d bc s xs = Some st" using Cons.prems by simp
    from Cons.IH [OF this] show ?thesis
    proof (elim disjE exE conjE)
      fix i anchor assume "i < length xs" "xs ! i = Commit anchor" "\<forall>j<i. \<exists>s'. xs ! j = Skip s'"
        "decide_leader_from_anchor d bc anchor s = Some st"
      then show ?thesis using Skip by (intro disjI2 exI [of _ "Suc i"]) (auto simp: less_Suc_eq_0_disj)
    qed simp
  next
    case (Undecided s')
    then show ?thesis using Cons.prems by simp
  qed
qed simp

lemma run_ok_rounds:
  assumes "run_ok d leader (run_of lo sts)"
  shows "\<forall>i<length sts. ls_round (sts ! i) = lo + i"
proof (intro allI impI)
  fix i assume i: "i < length sts"
  then have "run_of lo sts (lo + i) = Some (sts ! i)" by (simp add: run_of_def)
  then have "slot_round (leader (lo + i)) = lo + i" "justified d (leader (lo + i)) (run_of lo sts) (sts ! i)"
    using assms by (auto simp: run_ok_def)
  then show "ls_round (sts ! i) = lo + i" using justified_round by metis
qed

lemma decides_justified:
  assumes "view_ok d" and "bc_context bc = ds_context d" and "leads bc (slot_round s)"
    and "wave_length (bc_options bc) = DEFAULT_WAVE_LENGTH" and "last_commit_round d < slot_round s"
    and "run_ok d leader (run_of (Suc (slot_round s)) sts)" and "decides d bc s sts st"
  shows "justified d s (run_of (Suc (slot_round s)) sts) st"
proof -
  let ?run = "run_of (Suc (slot_round s)) sts"
  from assms(7) obtain st0 where direct: "try_direct_decide d bc s = Some st0"
    and st: "if is_decided st0 then st = st0 else try_indirect_decide d bc s sts = Some st"
    by (auto simp: decides_def)
  note spec = try_direct_decide_spec [OF assms(1-3,5) direct]
  show ?thesis
  proof (cases "is_decided st0")
    case True
    then show ?thesis using st spec by (auto simp: justified_def)
  next
    case False
    then have indirect: "try_indirect_decide d bc s sts = Some st" using st by simp
    have drop: "filter (\<lambda>x. slot_round s + 3 \<le> ls_round x) sts = drop 2 sts"
      using filter_rounds [OF run_ok_rounds [OF assms(6)], of "slot_round s + 3"] by simp
    have "st = Undecided s \<or> decide_from_anchors d bc s (drop 2 sts) = Some st"
      using indirect assms(4) drop
      by (auto simp: try_indirect_decide_def DEFAULT_WAVE_LENGTH_def MINIMUM_WAVE_LENGTH_def panic_simps
          split: if_splits)
    with decide_from_anchors_cases [of d bc s "drop 2 sts" st] consider
      "st = Undecided s"
    | i anchor where "i < length (drop 2 sts)" "drop 2 sts ! i = Commit anchor"
        "\<forall>j<i. \<exists>s'. drop 2 sts ! j = Skip s'" "decide_leader_from_anchor d bc anchor s = Some st" by blast
    then show ?thesis
    proof cases
      case 1
      then show ?thesis by (simp add: justified_def)
    next
      case (2 i anchor)
      let ?ra = "slot_round s + 3 + i"
      have nth: "?run (slot_round s + 3 + j) = Some (drop 2 sts ! j)" if "j \<le> i" for j
        using that 2(1) by (simp add: run_of_def)
      then have ra: "?run ?ra = Some (Commit anchor)" using 2(2) by simp
      have skips: "\<exists>s'. ?run q = Some (Skip s')" if "slot_round s + 3 \<le> q" "q < ?ra" for q
        using nth [of "q - (slot_round s + 3)"] 2(3) that by auto
      note anchor = run_ok_commit [OF assms(6) ra]
      have "dag_lookup d (reference anchor) = Some anchor" "slot_round s + 2 < vb_round anchor"
        using anchor at_slot_round [OF anchor(1)] by (auto simp: at_slot_def)
      from decide_leader_from_anchor_spec [OF assms(1-3) _ this 2(4)] gc_round_le [of d] assms(5)
      have "(\<exists>b. st = Commit b \<and> anchored d anchor s b) \<or> st = Skip s \<and> (\<forall>b. \<not> anchored d anchor s b)" by simp
      moreover have "slot_round s + 3 \<le> ?ra" by simp
      ultimately show ?thesis using ra skips unfolding justified_def by blast
    qed
  qed
qed

definition leader_slot :: "rng_lib \<Rightarrow> leader_schedule \<Rightarrow> round \<Rightarrow> slot" where
  "leader_slot rng ls r = Slot r (case elect_leader rng ls r 0 of Some a \<Rightarrow> a | None \<Rightarrow> 0)"

lemma run_ok_extend:
  assumes "run_ok d leader (run_of (Suc r) sts)" and "slot_round (leader r) = r" and "gc_round d < r"
    and "justified d (leader r) (run_of (Suc r) sts) st"
  shows "run_ok d leader (run_of r (st # sts))"
  unfolding run_ok_def
proof (intro conjI allI impI)
  show "finite (dom (run_of r (st # sts)))" by (rule finite_dom_run_of)
next
  fix q st' assume q: "run_of r (st # sts) q = Some st'"
  have same: "run_of r (st # sts) x = run_of (Suc r) sts x" if "r < x" for x
    using that by (simp add: run_of_Cons)
  consider "q = r" "st' = st" | "r < q" "run_of (Suc r) sts q = Some st'"
    using q by (cases "q = r") (auto simp: run_of_Cons run_of_def split: if_splits)
  then have "slot_round (leader q) = q \<and> gc_round d < q \<and> justified d (leader q) (run_of (Suc r) sts) st' \<and> r \<le> q"
    using assms by cases (auto simp: run_ok_def)
  then show "slot_round (leader q) = q" "gc_round d < q" "justified d (leader q) (run_of r (st # sts)) st'"
    using justified_mono [of d "leader q" "run_of (Suc r) sts" st' "run_of r (st # sts)"] same by auto
qed

lemma decide_rounds_run:
  assumes "view_ok d" and "last_commit_round d < lo" and "slot_round ld < lo"
    and "decide_rounds rng d ld (uc_committers (pipelined (ds_context d) ls)) (rev [lo..<lo + k]) leaders = Some res"
    and "run_ok d (leader_slot rng ls) (run_of (lo + k) (map fst leaders))"
  shows "run_ok d (leader_slot rng ls) (run_of lo (map fst res)) \<and> length res = k + length leaders"
  using assms(4,5)
proof (induction k arbitrary: leaders)
  case (Suc k)
  let ?r = "lo + k"
  from Suc.prems(1) obtain leaders' stop where
    step: "decide_in_round rng d ld ?r (rev (uc_committers (pipelined (ds_context d) ls))) leaders = Some (leaders', stop)"
    and rest: "(if stop then Some leaders' else decide_rounds rng d ld (uc_committers (pipelined (ds_context d) ls))
        (rev [lo..<lo + k]) leaders') = Some res"
    by (auto simp: panic_simps)
  from decide_in_round_pipelined [OF step] assms(3) obtain bc a st dec where
    bc: "bc_context bc = ds_context d" "leads bc ?r" "wave_length (bc_options bc) = DEFAULT_WAVE_LENGTH"
    and a: "elect_leader rng ls ?r 0 = Some a" and st: "decides d bc (Slot ?r a) (map fst leaders) st"
    and leaders': "leaders' = (st, dec) # leaders" "\<not> stop" by auto
  have slot: "leader_slot rng ls ?r = Slot ?r a" using a by (simp add: leader_slot_def)
  have later: "run_ok d (leader_slot rng ls) (run_of (Suc ?r) (map fst leaders))" using Suc.prems(2) by simp
  have "justified d (Slot ?r a) (run_of (Suc ?r) (map fst leaders)) st"
    using decides_justified [OF assms(1) bc(1), of "Slot ?r a"] bc(2,3) assms(2) later st by simp
  then have "run_ok d (leader_slot rng ls) (run_of ?r (map fst leaders'))"
    using run_ok_extend [OF later, of st] slot assms(2) gc_round_le [of d] leaders'(1) by simp
  from Suc.IH [OF _ this] rest leaders' show ?case by simp
qed simp

subsection \<open>Agreement\<close>

text \<open>What a validator concludes for a leader slot, however it came to the decision.\<close>

definition outcome :: "decided_leader \<Rightarrow> slot \<times> verified_block option" where
  "outcome l = (dl_slot l, into_committed_block l)"

lemma decided_sequence_nth:
  assumes "decided_sequence ctx leaders = Some ds" and "\<forall>st\<in>set (map fst leaders). 0 < ls_round st"
  shows "length ds \<le> length leaders
     \<and> (\<forall>i<length ds. \<exists>direct. into_decided_leader direct (fst (leaders ! i)) = Some (ds ! i))"
  using assms
proof (induction ctx leaders arbitrary: ds rule: decided_sequence.induct)
  case (2 ctx leader dec rest)
  then have round: "ls_round leader \<noteq> GENESIS_ROUND" by (simp add: GENESIS_ROUND_def)
  show ?case
  proof (cases "into_decided_leader (dec = Direct) leader")
    case (Some l)
    with 2(3) round obtain ls where ls: "decided_sequence ctx rest = Some ls" "ds = l # ls"
      and upd: "uc_update_metrics ctx l = Some ()" by (auto simp: panic_simps)
    from 2(2) [OF round Some upd ls(1)] 2(4) Some ls(2) show ?thesis
      by (auto simp: less_Suc_eq_0_disj)
  qed (use 2(3) round in simp)
qed simp

lemma pointwise_prefix:
  assumes "\<And>i. i < length xs \<Longrightarrow> i < length ys \<Longrightarrow> xs ! i = ys ! i"
  shows "prefix xs ys \<or> prefix ys xs"
proof (cases "length xs \<le> length ys")
  case True
  then have "xs = take (length xs) ys" using assms by (intro nth_equalityI) auto
  then show ?thesis by (metis take_is_prefix)
next
  case False
  then have "ys = take (length ys) xs" using assms by (intro nth_equalityI) auto
  then show ?thesis by (metis take_is_prefix)
qed

lemma try_decide_run:
  assumes "view_ok d" and "num_leaders_per_round (protocol_config (ds_context d)) = Some 1"
    and "last_commit_round d \<le> slot_round ld" and "try_decide rng (pipelined (ds_context d) ls) d ld = Some ds"
  shows "\<exists>run. run_ok d (leader_slot rng ls) run
     \<and> (\<forall>i<length ds. \<exists>st direct. run (Suc (slot_round ld) + i) = Some st \<and> into_decided_leader direct st = Some (ds ! i))"
proof -
  let ?lo = "Suc (slot_round ld)"
  let ?hi = "Suc (saturating_sub (highest_accepted_round d) 2)"
  have ctx: "uc_context (pipelined (ds_context d) ls) = ds_context d"
    by (simp add: pipelined_def build_def with_pipeline_def with_number_of_leaders_def UniversalCommitterBuilder_new_def)
  from assms(2,4) obtain leaders where
    rounds: "decide_rounds rng d ld (uc_committers (pipelined (ds_context d) ls)) (rev [?lo..<?hi]) [] = Some leaders"
    and ds: "decided_sequence (ds_context d) leaders = Some ds"
    by (auto simp: try_decide_def ctx panic_simps Let_def)
  have k: "[?lo..<?hi] = [?lo..<?lo + (?hi - ?lo)]" by (cases "?lo \<le> ?hi") auto
  have "run_ok d (leader_slot rng ls) (run_of (?lo + (?hi - ?lo)) (map fst []))"
    by (auto simp: run_ok_def run_of_def finite_dom_run_of)
  with decide_rounds_run [OF assms(1) _ _ rounds [unfolded k]] assms(3)
  have ok: "run_ok d (leader_slot rng ls) (run_of ?lo (map fst leaders))" by simp
  have "\<forall>st\<in>set (map fst leaders). 0 < ls_round st"
    using run_ok_rounds [OF ok] by (fastforce simp: in_set_conv_nth)
  note nth = decided_sequence_nth [OF ds this]
  have "\<exists>st direct. run_of ?lo (map fst leaders) (?lo + i) = Some st \<and> into_decided_leader direct st = Some (ds ! i)"
    if "i < length ds" for i
    using nth that by (auto simp: run_of_def)
  then show ?thesis using ok by blast
qed

lemma decided_outcome:
  assumes "run_ok d leader run" and "run r = Some st" and "into_decided_leader direct st = Some l"
  shows "(\<exists>b. st = Commit b \<and> outcome l = (leader r, Some b)) \<or> (\<exists>s. st = Skip s \<and> outcome l = (leader r, None))"
proof (cases st)
  case (Commit b)
  then show ?thesis using run_ok_commit(1) [OF assms(1)] assms(2,3) by (auto simp: outcome_def at_slot_def)
next
  case (Skip s)
  then have "s = leader r" using assms(1,2) by (auto simp: run_ok_def justified_def)
  then show ?thesis using Skip assms(3) by (auto simp: outcome_def)
qed (use assms(3) in simp)

end
