(* ===== verification/Committer_Liveness.thy ===== *)
theory Committer_Liveness
  imports Universal_Committer
begin

section \<open>The committer decides without panicking\<close>

text \<open>
  The converse of the safety theories: on a valid view in which only authorities of at most
  \<open>f\<close> stake equivocate, no decision rule panics (in particular there are never two certified
  blocks in a leader slot), the direct rule decides exactly when the DAG holds a quorum of
  blames or of certificates, and \<open>try_decide\<close> returns.
\<close>

subsection \<open>The hypotheses\<close>

text \<open>The stakes of the blocks of a round, equivocating ones included, add up within \<open>u64\<close>.\<close>

definition stakes_fit :: "dag_state \<Rightarrow> bool" where
  "stakes_fit d \<longleftrightarrow> (\<forall>r bs. get_uncommitted_blocks_at_round d r = Some bs \<longrightarrow>
     sum_list (map (\<lambda>b. stake_at (ds_committee d) (vb_author b)) bs) \<le> u64_max)"

text \<open>A view of a system with the faulty authorities \<open>F\<close>.\<close>

definition honest_view :: "authority_index set \<Rightarrow> dag_state \<Rightarrow> bool" where
  "honest_view F d \<longleftrightarrow> view_ok d \<and> views_consistent F d d \<and> faulty_ok (ds_committee d) F \<and> stakes_fit d"

lemma honest_viewD:
  assumes "honest_view F d"
  shows "view_ok d" and "views_consistent F d d" and "faulty_ok (ds_committee d) F" and "stakes_fit d"
  using assms by (auto simp: honest_view_def)

definition elects_always :: "rng_lib \<Rightarrow> leader_schedule \<Rightarrow> committee \<Rightarrow> bool" where
  "elects_always rng ls c \<longleftrightarrow> (\<forall>r. \<exists>a. elect_leader rng ls r 0 = Some a \<and> a < committee_size c)"

subsection \<open>Rounds and counts\<close>

lemma leader_wave_total:
  assumes "leads bc r" and "r + 3 \<le> u32_max"
  shows "\<exists>w. wave_number bc r = Some w \<and> decision_round bc w = Some (r + 2)"
proof -
  let ?o = "round_offset (bc_options bc)"
  have o: "?o \<le> r" and len: "wave_length (bc_options bc) = 3"
    using assms(1) by (auto simp: leads_def DEFAULT_WAVE_LENGTH_def MINIMUM_WAVE_LENGTH_def)
  have "(r - ?o) div 3 * 3 = r - ?o" using assms(1) by (simp add: leads_def mod_0_imp_dvd)
  then show ?thesis
    using o len assms(2) by (auto simp: wave_number_def decision_round_def u32_mul_def u32_add_def checked_sub_def)
qed

lemma enough_leader_blame_total:
  assumes "view_ok d" and "bc_context bc = ds_context d" and "last_commit_round d \<le> slot_round s"
    and "slot_round s + 1 < u32_max"
  shows "enough_leader_blame d bc (slot_round s + 1) (slot_authority s) = Some (direct_skip d s)"
proof -
  from uncommitted_at_round_total [of d "slot_round s + 1"] assms(3,4) obtain bs where
    bs: "get_uncommitted_blocks_at_round d (slot_round s + 1) = Some bs" by auto
  note all = uncommitted_at_round [OF assms(1) bs]
  have "\<forall>b\<in>set bs. vb_author b < committee_size (ds_committee d)"
    using view_ok_author [OF assms(1)] all(1,3) by auto
  then have "\<exists>x. enough_leader_blame d bc (slot_round s + 1) (slot_authority s) = Some x"
    using count_blames_eq [OF view_okD(3) [OF assms(1)], of "StakeAggregator_new QuorumThreshold" bs "slot_authority s"]
      bs assms(2) quorum_empty [OF view_okD(3) [OF assms(1)]] by (simp add: enough_leader_blame_def)
  then show ?thesis using enough_leader_blame_eq [OF assms(1,2)] by (auto simp: direct_skip_def)
qed

lemma enough_leader_support_total:
  assumes "view_ok d" and "stakes_fit d" and "bc_context bc = ds_context d"
    and "last_commit_round d < vb_round l" and "vb_round l + 2 < u32_max"
  shows "enough_leader_support d bc (vb_round l + 2) l
     = Some (reached_quorum (ds_committee d) (stake_of (ds_committee d) (certifiers d (reference l))))"
proof -
  let ?c = "ds_committee d"
  from uncommitted_at_round_total [of d "vb_round l + 2"] assms(4,5) obtain bs where
    bs: "get_uncommitted_blocks_at_round d (vb_round l + 2) = Some bs" by auto
  note all = uncommitted_at_round [OF assms(1) bs]
  have gc: "gc_round d < vb_round l" using gc_round_le [of d] assms(4) by simp
  have author: "vb_author b < committee_size ?c" if "b \<in> set bs" for b
    using view_ok_author [OF assms(1)] all(1,3) that by auto
  have "map_opt (\<lambda>b. committee_stake ?c (vb_author b)) bs = Some (map (\<lambda>b. stake_at ?c (vb_author b)) bs)"
    using author by (auto simp: panic_simps list_all2_conv_all_nth)
  moreover have "u64_sum (map (\<lambda>b. stake_at ?c (vb_author b)) bs) = Some (sum_list (map (\<lambda>b. stake_at ?c (vb_author b)) bs))"
    using assms(2) bs by (auto simp: stakes_fit_def u64_sum_eq)
  moreover have "\<exists>x. count_support d ?c l bs (StakeAggregator_new QuorumThreshold) (\<lambda>_. None) = Some x"
    using count_support_eq [OF assms(1), of "StakeAggregator_new QuorumThreshold" bs l "\<lambda>_. None"]
      quorum_empty [OF view_okD(3) [OF assms(1)]] gc all(1) by simp
  ultimately have "\<exists>x. enough_leader_support d bc (vb_round l + 2) l = Some x"
    using bs assms(3) by (auto simp: enough_leader_support_def)
  then show ?thesis using enough_leader_support_eq [OF assms(1,3) gc] by auto
qed

subsection \<open>At most one certified block\<close>

lemma honest_certificate_unique:
  assumes "honest_view F d" and "gc_round d < slot_round s" and "some_certificate d s b" and "some_certificate d s b'"
  shows "b = b'"
proof -
  note hv = honest_viewD [OF assms(1)]
  from assms(3,4) obtain p p' where b: "at_slot d s b" "dag_lookup d (reference p) = Some p"
      "vb_round p = slot_round s + 2" "certified d (reference b) p"
    and b': "at_slot d s b'" "dag_lookup d (reference p') = Some p'"
      "vb_round p' = slot_round s + 2" "certified d (reference b') p'" by (auto simp: some_certificate_def)
  note r = at_slot_round [OF b(1)] at_slot_round [OF b'(1)]
  have "vb_round p = br_round (reference b) + 2" "vb_round p' = br_round (reference b') + 2"
    "slot_of_ref (reference b) = slot_of_ref (reference b')"
    "gc_round d < br_round (reference b)" "gc_round d < br_round (reference b')"
    using b(1,3) b'(1,3) r assms(2) by (auto simp: at_slot_def)
  then have "reference b = reference b'"
    by (intro certified_unique [OF hv(1,1,2,3) b(2) _ b(4) b'(2) _ b'(4)])
  then show ?thesis using b(1) b'(1) by (simp add: at_slot_def)
qed

lemma filter_unique:
  assumes "distinct xs" and "\<And>x y. x \<in> set xs \<Longrightarrow> y \<in> set xs \<Longrightarrow> P x \<Longrightarrow> P y \<Longrightarrow> x = y"
  shows "length (filter P xs) \<le> 1"
proof (cases "filter P xs")
  case (Cons x ys)
  have mem: "y \<in> set xs \<and> P y" if "y \<in> set (x # ys)" for y using that unfolding Cons [symmetric] by simp
  have "y = x" if "y \<in> set ys" for y using mem [of y] mem [of x] that assms(2) [of y x] by simp
  moreover have "x \<notin> set ys" using distinct_filter [OF assms(1), of P] Cons by simp
  ultimately have "ys = []" by (cases ys) auto
  then show ?thesis using Cons by simp
qed simp

subsection \<open>The direct rule\<close>

text \<open>The status the direct rule must reach, in terms of the DAG alone.\<close>

definition direct_status :: "dag_state \<Rightarrow> slot \<Rightarrow> leader_status \<Rightarrow> bool" where
  "direct_status d s st \<longleftrightarrow> (if direct_skip d s then st = Skip s
     else if \<exists>b. direct_commit d s b then (\<exists>b. direct_commit d s b \<and> st = Commit b) else st = Undecided s)"

lemma try_direct_decide_exact:
  assumes "honest_view F d" and "bc_context bc = ds_context d" and "leads bc (slot_round s)"
    and "last_commit_round d < slot_round s" and "slot_round s + 3 \<le> u32_max"
  shows "\<exists>st. try_direct_decide d bc s = Some st \<and> direct_status d s st"
proof -
  note hv = honest_viewD [OF assms(1)]
  have gc: "gc_round d < slot_round s" using gc_round_le [of d] assms(4) by simp
  have blame: "enough_leader_blame d bc (slot_round s + 1) (slot_authority s) = Some (direct_skip d s)"
    using enough_leader_blame_total [OF hv(1) assms(2)] assms(4,5) by simp
  have next_round: "u32_add (slot_round s) 1 = Some (slot_round s + 1)" using assms(5) by (simp add: u32_add_def)
  from leader_wave_total [OF assms(3,5)] obtain w where
    w: "wave_number bc (slot_round s) = Some w" "decision_round bc w = Some (slot_round s + 2)" by blast
  let ?bs = "get_uncommitted_blocks_at_slot d s"
  note slot = uncommitted_at_slot [OF hv(1) gc]
  have sup: "enough_leader_support d bc (slot_round s + 2) b = Some (direct_commit d s b)" if "b \<in> set ?bs" for b
  proof -
    have b: "at_slot d s b" using that slot(1) by (auto simp: at_slot_def)
    then show ?thesis
      using enough_leader_support_total [OF hv(1,4) assms(2), of b] at_slot_round [OF b] assms(4,5)
      by (simp add: direct_commit_def)
  qed
  have one: "length (filter (direct_commit d s) ?bs) \<le> 1"
    by (rule filter_unique [OF slot(2)])
       (use honest_certificate_unique [OF assms(1) gc] direct_commit_some_certificate [OF hv(1)] in blast)
  have "try_direct_decide d bc s = Some (if direct_skip d s then Skip s
      else case bset_last (filter (direct_commit d s) ?bs) of Some b \<Rightarrow> Commit b | None \<Rightarrow> Undecided s)"
    using blame next_round w one filter_opt_total [of ?bs _ "direct_commit d s", OF sup]
    by (simp add: try_direct_decide_def rassert_def)
  moreover have "b \<in> set ?bs" if "direct_commit d s b" for b
    using that unfolding slot(1) by (simp add: direct_commit_def at_slot_def)
  ultimately show ?thesis
    using filter_at_most_one [OF one] by (auto simp: direct_status_def split: option.splits)
qed

lemma decide_leader_from_anchor_total:
  assumes "honest_view F d" and "bc_context bc = ds_context d" and "leads bc (slot_round s)"
    and "gc_round d < slot_round s" and "slot_round s + 3 \<le> u32_max"
    and "dag_lookup d (reference anchor) = Some anchor" and "slot_round s + 2 < vb_round anchor"
  shows "\<exists>st. decide_leader_from_anchor d bc anchor s = Some st"
proof -
  note hv = honest_viewD [OF assms(1)]
  from leader_wave_total [OF assms(3,5)] obtain w where
    w: "wave_number bc (slot_round s) = Some w" "decision_round bc w = Some (slot_round s + 2)" by blast
  from ancestors_at_round_exact [OF view_okD(1,2) [OF hv(1)], of "slot_round s + 2" anchor] assms(4,6,7)
  obtain ps where ps: "ancestors_at_round d anchor (slot_round s + 2) = Some ps"
    and look: "\<forall>p\<in>set ps. dag_lookup d (reference p) = Some p"
    and refs: "reference ` set ps = {x. br_round x = slot_round s + 2 \<and> (reference anchor, x) \<in> (causal d)\<^sup>*}" by auto
  have rounds: "vb_round p = slot_round s + 2" if "p \<in> set ps" for p
  proof -
    from that have "reference p \<in> reference ` set ps" by (rule imageI)
    then show ?thesis unfolding refs by simp
  qed
  let ?bs = "get_uncommitted_blocks_at_slot d s"
  let ?cert = "\<lambda>l. \<exists>p\<in>set ps. certified d (reference l) p"
  note slot = uncommitted_at_slot [OF hv(1) assms(4)]
  have at: "at_slot d s l" if "l \<in> set ?bs" for l using that slot(1) by (auto simp: at_slot_def)
  have any: "any_certificate d (ds_committee d) l ps (\<lambda>_. None) = Some (?cert l)" if "l \<in> set ?bs" for l
    using any_certificate_eq [OF hv(1), of l "\<lambda>_. None" ps] at_slot_round [OF at [OF that]] look rounds assms(4) by simp
  have "length (filter ?cert ?bs) \<le> 1"
    by (rule filter_unique [OF slot(2)])
       (use honest_certificate_unique [OF assms(1,4)] at look rounds in \<open>unfold some_certificate_def, blast\<close>)
  then show ?thesis
    using w ps filter_opt_total [of ?bs _ ?cert, OF any] assms(2)
    by (simp add: decide_leader_from_anchor_def rassert_def)
qed

subsection \<open>The whole run\<close>

lemma decide_from_anchors_total:
  assumes "\<And>anchor. Commit anchor \<in> set xs \<Longrightarrow> \<exists>st. decide_leader_from_anchor d bc anchor s = Some st"
  shows "\<exists>st. decide_from_anchors d bc s xs = Some st"
  using assms by (induction xs) (auto split: leader_status.splits)

lemma try_indirect_decide_total:
  assumes "honest_view F d" and "bc_context bc = ds_context d" and "leads bc (slot_round s)"
    and "gc_round d < slot_round s" and "slot_round s + 3 \<le> u32_max"
    and "run_ok d leader (run_of (Suc (slot_round s)) sts)"
  shows "\<exists>st. try_indirect_decide d bc s sts = Some st"
proof -
  have len: "wave_length (bc_options bc) = 3"
    using assms(3) by (simp add: leads_def DEFAULT_WAVE_LENGTH_def MINIMUM_WAVE_LENGTH_def)
  have "\<exists>st. decide_leader_from_anchor d bc anchor s = Some st"
    if "Commit anchor \<in> set (filter (\<lambda>x. slot_round s + 3 \<le> ls_round x) sts)" for anchor
  proof -
    from that obtain i where i: "i < length sts" "sts ! i = Commit anchor" and r: "slot_round s + 3 \<le> vb_round anchor"
      by (auto simp: in_set_conv_nth)
    then have "run_of (Suc (slot_round s)) sts (Suc (slot_round s) + i) = Some (Commit anchor)" by (simp add: run_of_def)
    from run_ok_commit(1) [OF assms(6) this] have "dag_lookup d (reference anchor) = Some anchor" by (simp add: at_slot_def)
    then show ?thesis using decide_leader_from_anchor_total [OF assms(1-5)] r by simp
  qed
  then have "\<exists>st. decide_from_anchors d bc s (filter (\<lambda>x. slot_round s + 3 \<le> ls_round x) sts) = Some st"
    by (rule decide_from_anchors_total)
  then show ?thesis
    using assms(5) len by (simp add: try_indirect_decide_def u32_add_def)
qed

lemma stage_elect_total:
  assumes "elect_leader rng ls r 0 = Some a" and "i < 3" and "r + 3 \<le> u32_max"
  shows "bc_elect_leader rng (stage ctx ls i) r = Some (if r mod 3 = i then Some (Slot r a) else None)"
proof -
  have "(r - i) div 3 * 3 \<le> r" using div_times_less_eq_dividend [of "r - i" 3] by simp
  then have "u32_mul ((r - i) div 3) 3 = Some ((r - i) div 3 * 3)"
    "u32_add ((r - i) div 3 * 3) i = Some ((r - i) div 3 * 3 + i)"
    using assms(2,3) by (auto simp: u32_mul_def u32_add_def)
  then have "\<exists>e. bc_elect_leader rng (stage ctx ls i) r = Some e"
    using assms(1) by (simp add: bc_elect_leader_def wave_number_def leader_round_def DEFAULT_WAVE_LENGTH_def
        MINIMUM_WAVE_LENGTH_def)
  then show ?thesis using stage_elects [of rng ctx ls i r] assms(1,2) by fastforce
qed

lemma decide_in_round_total:
  assumes "honest_view F d" and "elects_always rng ls (ds_committee d)" and "last_commit_round d < r"
    and "slot_round ld < r" and "r + 3 \<le> u32_max"
    and "run_ok d leader (run_of (Suc r) (map fst leaders))"
  shows "\<exists>res. decide_in_round rng d ld r (rev (uc_committers (pipelined (ds_context d) ls))) leaders = Some res"
proof -
  let ?s = "stage (ds_context d) ls"
  from assms(2) obtain a where a: "elect_leader rng ls r 0 = Some a" by (auto simp: elects_always_def)
  have gc: "gc_round d < r" using gc_round_le [of d] assms(3) by simp
  have ne: "Slot r a \<noteq> ld" using assms(4) by auto
  have lead: "leads (?s (r mod 3)) r" by (rule stage_leads) simp
  from try_direct_decide_exact [OF assms(1), of "?s (r mod 3)" "Slot r a"] lead assms(3,5) obtain st where
    st: "try_direct_decide d (?s (r mod 3)) (Slot r a) = Some st" by auto
  from try_indirect_decide_total [OF assms(1), of "?s (r mod 3)" "Slot r a" leader "map fst leaders"] lead assms(5,6) gc
  obtain st' where st': "try_indirect_decide d (?s (r mod 3)) (Slot r a) (map fst leaders) = Some st'" by auto
  have elect: "bc_elect_leader rng (?s i) r = Some (if r mod 3 = i then Some (Slot r a) else None)" if "i < 3" for i
    using stage_elect_total [OF a that assms(5)] .
  have "r mod 3 < 3" by simp
  then have "r mod 3 = 2 \<or> r mod 3 = 1 \<or> r mod 3 = 0" by linarith
  then show ?thesis
    using st st' elect [of 0] elect [of 1] elect [of 2] ne by (elim disjE) (auto simp: pipelined_committers)
qed

lemma decide_rounds_total:
  assumes "honest_view F d" and "elects_always rng ls (ds_committee d)" and "last_commit_round d < lo"
    and "slot_round ld < lo" and "lo + k + 2 \<le> u32_max"
    and "run_ok d (leader_slot rng ls) (run_of (lo + k) (map fst leaders))"
  shows "\<exists>res. decide_rounds rng d ld (uc_committers (pipelined (ds_context d) ls)) (rev [lo..<lo + k]) leaders = Some res"
  using assms(5,6)
proof (induction k arbitrary: leaders)
  case (Suc k)
  let ?committers = "uc_committers (pipelined (ds_context d) ls)"
  have later: "run_ok d (leader_slot rng ls) (run_of (Suc (lo + k)) (map fst leaders))" using Suc.prems(2) by simp
  from decide_in_round_total [OF assms(1,2), of "lo + k" ld "leader_slot rng ls" leaders] assms(3,4) Suc.prems(1) later
  obtain leaders' stop where
    step: "decide_in_round rng d ld (lo + k) (rev ?committers) leaders = Some (leaders', stop)" by auto
  from decide_in_round_pipelined [OF step] assms(4) have go: "\<not> stop" by auto
  have "decide_rounds rng d ld ?committers (rev [lo + k..<lo + k + 1]) leaders = Some leaders'" using step go by simp
  from decide_rounds_run [OF honest_viewD(1) [OF assms(1)] _ _ this] assms(3,4) later
  have "run_ok d (leader_slot rng ls) (run_of (lo + k) (map fst leaders'))" by simp
  from Suc.IH [OF _ this] Suc.prems(1) obtain res where
    "decide_rounds rng d ld ?committers (rev [lo..<lo + k]) leaders' = Some res" by auto
  then show ?case using step go by simp
qed simp

lemma decided_sequence_total:
  assumes "\<And>st direct l. st \<in> set (map fst leaders) \<Longrightarrow> into_decided_leader direct st = Some l
     \<Longrightarrow> slot_authority (dl_slot l) < committee_size (ctx_committee ctx)"
  shows "\<exists>ds. decided_sequence ctx leaders = Some ds"
  using assms
proof (induction leaders)
  case (Cons x rest)
  obtain leader dec where x: "x = (leader, dec)" by force
  from Cons obtain ds where rest: "decided_sequence ctx rest = Some ds" by (metis list.set_intros(2) list.simps(9))
  have "\<exists>u. uc_update_metrics ctx l = Some u" if "into_decided_leader (dec = Direct) leader = Some l" for l
    using Cons.prems [of leader "dec = Direct" l] that x by (simp add: uc_update_metrics_def committee_authority_def vec_get_def committee_size_def)
  then show ?case using rest by (cases "into_decided_leader (dec = Direct) leader") (auto simp: x)
qed simp

end
