(* ===== verification/Dag_Views.thy ===== *)
theory Dag_Views
  imports Committer_Votes
begin

section \<open>Reachable views\<close>

text \<open>
  The assumption the committer makes about its view of the DAG, \<open>view_ok\<close>, is an invariant of
  the validator: it holds of the state \<open>DagState::new\<close> builds on an empty store, and is kept
  when a block that passed the block verifier and whose ancestors are present is accepted, when
  a commit is added, and when the state is flushed.
\<close>

subsection \<open>Verified blocks are well linked\<close>

lemma verified_links:
  assumes "committee_wf (ctx_committee (sbv_context v))"
    and "verify_and_vote cr v sb serialized = Some (Inr (b, rejected))"
  shows "well_linked (ctx_committee (sbv_context v)) b" and "0 < vb_round b"
    and "vb_author b < committee_size (ctx_committee (sbv_context v))"
proof -
  from assms(2) have ok: "verify_block cr v sb = Some (Inr ())" and b: "vb_inner b = sb_inner sb"
    by (auto simp: verify_and_vote_def Let_def new_verified_def vb_inner_def panic_simps split: if_splits)
  from ok have "block_valid cr v sb" using verify_block_iff_valid [OF assms(1)] by blast
  then show "well_linked (ctx_committee (sbv_context v)) b" "0 < vb_round b"
    "vb_author b < committee_size (ctx_committee (sbv_context v))"
    by (auto simp: block_valid_def well_linked_def is_valid_index_def b Let_def)
qed

subsection \<open>Steps\<close>

text \<open>A step of the DAG state of a validator: a block arrives from the network and passes the
  verifier, with its ancestors above the garbage collection round accepted before it; a commit
  of a leader not before the last one is recorded; or the state is written to the store.\<close>

inductive view_step :: "crypto \<Rightarrow> signed_block_verifier \<Rightarrow> dag_state \<Rightarrow> dag_state \<Rightarrow> bool" for cr v where
  accept: "verify_and_vote cr v sb serialized = Some (Inr (b, rejected)) \<Longrightarrow>
     \<forall>a\<in>set (vb_ancestors b). gc_round d < br_round a \<longrightarrow> contains_block d a = Some True \<Longrightarrow>
     accept_block now b d = Some d' \<Longrightarrow> view_step cr v d d'"
| commit: "last_commit_round d \<le> br_round (c_leader (tc_inner commit)) \<Longrightarrow>
     add_commit now commit d = Some d' \<Longrightarrow> view_step cr v d d'"
| flush: "flush d = Some d' \<Longrightarrow> view_step cr v d d'"

lemma dag_closed_mono: "dag_closed d g \<Longrightarrow> g \<le> g' \<Longrightarrow> dag_closed d g'"
  by (auto simp: dag_closed_def)

lemma contains_block_known:
  assumes "dag_wf d" and "br_author a < committee_size (ds_committee d)" and "contains_block d a = Some True"
  shows "dag_lookup d a \<noteq> None"
  using contains_block_eq [OF assms(1,2)] assms(3) by simp

lemma view_ok_accept:
  assumes "view_ok d" and "accept_block now b d = Some d'" and "well_linked (ds_committee d) b"
    and "vb_author b < committee_size (ds_committee d)"
    and "\<forall>a\<in>set (vb_ancestors b). gc_round d < br_round a \<longrightarrow> dag_lookup d a \<noteq> None"
  shows "view_ok d' \<and> gc_round d' = gc_round d \<and> ds_context d' = ds_context d"
proof -
  note acc = accept_block_lookup [OF view_okD(1) [OF assms(1)] assms(2,4)]
  have gc: "gc_round d' = gc_round d" and ctx: "ds_context d' = ds_context d"
    using acc by (auto simp: gc_round_def last_commit_round_def calculate_gc_round_def)
  show ?thesis
  proof (cases "dag_lookup d (reference b) = None")
    case False
    then have same: "dag_lookup d' = dag_lookup d" "cache_view d' = cache_view d" using acc by auto
    then have "causal d' = causal d" by (simp add: causal_def)
    then show ?thesis
      using assms(1) acc gc ctx unfolding view_ok_def dag_closed_def cache_view_None [symmetric] same by simp
  next
    case True
    then have look: "dag_lookup d' = (dag_lookup d)(reference b \<mapsto> b)"
      and cache: "cache_view d' = (cache_view d)(reference b \<mapsto> b)" using acc by auto
    have "dag_closed d' (gc_round d)"
      unfolding dag_closed_def
    proof (intro allI impI)
      fix r a assume "(r, a) \<in> causal d'"
      then consider "r = reference b" "a \<in> set (vb_ancestors b)" | "(r, a) \<in> causal d"
        by (auto simp: causal_def look split: if_splits)
      then show "br_round a < br_round r \<and> (gc_round d < br_round a \<longrightarrow> dag_lookup d' a \<noteq> None)"
      proof cases
        case 1
        then show ?thesis using assms(3,5) by (auto simp: well_linked_def look)
      next
        case 2
        then show ?thesis using view_okD(2) [OF assms(1)] by (auto simp: dag_closed_def look)
      qed
    qed
    moreover have "map_of (ds_recent_blocks d') r \<noteq> None \<and> well_linked (ds_committee d') x"
      if "dag_lookup d' r = Some x" "gc_round d < br_round r" for r x
    proof (cases "r = reference b")
      case True
      then have "x = b" "cache_view d' r = Some b" using that(1) by (auto simp: look cache)
      then show ?thesis using assms(3) ctx cache_view_None [of d' r] by simp
    next
      case False
      then have "dag_lookup d r = Some x" "cache_view d' r = cache_view d r" using that(1) by (auto simp: look cache)
      then show ?thesis
        using assms(1) that(2) ctx cache_view_None [of d' r] cache_view_None [of d r] by (fastforce simp: view_ok_def)
    qed
    ultimately show ?thesis using acc gc ctx by (simp add: view_ok_def)
  qed
qed

lemma add_commit_fields:
  assumes "add_commit now commit d = Some d'"
  shows "d' = d \<or> ds_last_commit d' = Some commit \<and> ds_context d' = ds_context d \<and> ds_genesis d' = ds_genesis d
     \<and> ds_recent_blocks d' = ds_recent_blocks d \<and> ds_recent_refs_by_authority d' = ds_recent_refs_by_authority d
     \<and> ds_store d' = ds_store d \<and> ds_blocks_to_write d' = ds_blocks_to_write d
     \<and> ds_threshold_clock d' = ds_threshold_clock d \<and> ds_evicted_rounds d' = ds_evicted_rounds d
     \<and> ds_cached_rounds d' = ds_cached_rounds d
     \<and> length (ds_last_committed_rounds d') = length (ds_last_committed_rounds d)"
proof -
  have "record_commit now commit adv d = Some d' \<Longrightarrow> ?thesis" for adv
  proof -
    assume "record_commit now commit adv d = Some d'"
    then obtain rounds where rounds: "for_each bump_committed_round (c_blocks (tc_inner commit)) (ds_last_committed_rounds d) = Some rounds"
      and d': "d' = d\<lparr>ds_last_commit := Some commit,
             ds_last_commit_round_advancement_time :=
               (if adv then Some now else ds_last_commit_round_advancement_time d),
             ds_last_committed_rounds := rounds,
             ds_pending_commit_votes := ds_pending_commit_votes d @ [tc_reference commit],
             ds_commits_to_write := ds_commits_to_write d @ [commit]\<rparr>"
      by (auto simp: record_commit_def Option.bind_eq_Some_conv)
    have "length rounds = length (ds_last_committed_rounds d)"
      by (rule for_each_inv [OF rounds, where I = "\<lambda>xs. length xs = length (ds_last_committed_rounds d)"])
         (auto simp: bump_committed_round_def panic_simps)
    then show ?thesis by (simp add: d')
  qed
  then show ?thesis
    using assms by (auto simp: add_commit_def panic_simps split: option.splits if_splits)
qed

lemma view_ok_commit:
  assumes "view_ok d" and "last_commit_round d \<le> br_round (c_leader (tc_inner commit))"
    and "add_commit now commit d = Some d'"
  shows "view_ok d' \<and> ds_context d' = ds_context d"
proof (cases "d' = d")
  case False
  with add_commit_fields [OF assms(3)] have f: "ds_last_commit d' = Some commit" "ds_context d' = ds_context d"
    "ds_genesis d' = ds_genesis d" "ds_recent_blocks d' = ds_recent_blocks d"
    "ds_recent_refs_by_authority d' = ds_recent_refs_by_authority d" "ds_store d' = ds_store d"
    "ds_blocks_to_write d' = ds_blocks_to_write d" "ds_threshold_clock d' = ds_threshold_clock d"
    "ds_evicted_rounds d' = ds_evicted_rounds d" "ds_cached_rounds d' = ds_cached_rounds d"
    "length (ds_last_committed_rounds d') = length (ds_last_committed_rounds d)" by auto
  have "recent_wf d' \<longleftrightarrow> recent_wf d" "cache_wf d' \<longleftrightarrow> cache_wf d"
    by (simp_all only: recent_wf_def cache_wf_def f)
  then have wf: "dag_wf d'" using view_okD(1) [OF assms(1)] by (simp add: dag_wf_def f)
  have look: "dag_lookup d' = dag_lookup d" by (simp add: dag_lookup_def fun_eq_iff f cong: option.case_cong)
  have gc: "gc_round d \<le> gc_round d'"
    using assms(2) by (simp add: gc_round_def calculate_gc_round_def f last_commit_round_def diff_le_mono)
  have "dag_closed d' (gc_round d')"
    using dag_closed_mono [OF view_okD(2) [OF assms(1)] gc] by (simp add: dag_closed_def causal_def look)
  then show ?thesis using wf assms(1) gc by (auto simp: view_ok_def look f)
qed (use assms(1) in simp)

lemma view_ok_flush:
  assumes "view_ok d" and "flush d = Some d'"
  shows "view_ok d' \<and> ds_context d' = ds_context d"
proof -
  from flush_correct [OF view_okD(1) [OF assms(1)]] assms(2) have f: "dag_wf d'" "dag_lookup d' = dag_lookup d"
    "gc_round d' = gc_round d" "ds_context d' = ds_context d"
    "\<forall>r. gc_round d < br_round r \<longrightarrow> map_of (ds_recent_blocks d') r = map_of (ds_recent_blocks d) r" by auto
  then show ?thesis using assms(1) by (auto simp: view_ok_def dag_closed_def causal_def)
qed

lemma view_ok_step:
  assumes "view_step cr v d d'" and "view_ok d" and "ds_context d = sbv_context v"
  shows "view_ok d' \<and> ds_context d' = sbv_context v"
  using assms
proof cases
  case (accept sb serialized b rejected now)
  have com: "committee_wf (ctx_committee (sbv_context v))" using view_okD(3) [OF assms(2)] assms(3) by simp
  note links = verified_links [OF com accept(1)]
  have "\<forall>a\<in>set (vb_ancestors b). gc_round d < br_round a \<longrightarrow> dag_lookup d a \<noteq> None"
    using accept(2) links(1) contains_block_known [OF view_okD(1) [OF assms(2)]] assms(3)
    by (auto simp: well_linked_def)
  then show ?thesis
    using view_ok_accept [OF assms(2) accept(3)] links(1,3) assms(3) by simp
next
  case (commit commit now)
  then show ?thesis using view_ok_commit [OF assms(2)] assms(3) by metis
next
  case flush
  then show ?thesis using view_ok_flush [OF assms(2)] assms(3) by metis
qed

subsection \<open>The initial view\<close>

lemma genesis_blocks_no_ancestors:
  assumes "genesis_blocks cr ctx = Some gs" and "b \<in> set gs"
  shows "vb_ancestors b = []"
proof -
  have "list_all2 (\<lambda>a b. vb_ancestors b = []) (authorities (ctx_committee ctx)) gs"
    using assms(1) unfolding genesis_blocks_def map_opt_Some
    by (rule list_all2_mono)
       (auto simp: Let_def panic_simps new_verified_def vb_inner_def SignedBlock_new_genesis_def
          genesis_block_v1_def genesis_block_v2_def genesis_block_v3_def)
  then show ?thesis using assms(2) by (auto simp: list_all2_conv_all_nth in_set_conv_nth)
qed

lemma initial_view_ok:
  assumes "committee_wf (ctx_committee ctx)" and "genesis_blocks cr ctx = Some gs"
    and "0 < as_u32 (dag_state_cached_rounds (ctx_parameters ctx))"
  shows "view_ok (initial_dag now ctx gs)"
proof -
  let ?d = "initial_dag now ctx gs"
  have gc: "gc_round ?d = 0"
    by (simp add: initial_dag_def Let_def gc_round_def last_commit_round_def calculate_gc_round_def)
  have genesis: "br_round r = 0 \<and> b \<in> set gs" if "dag_lookup ?d r = Some b" for r b
  proof -
    have round: "br_round r = 0"
      using that by (auto simp: dag_lookup_def initial_dag_def Let_def read_block_def MemStore_new_def
          GENESIS_ROUND_def split: if_splits)
    with that have "map_of (fold (\<lambda>b. bmap_insert (reference b) b) gs []) r = Some b"
      by (simp add: dag_lookup_def GENESIS_ROUND_def)
    moreover have "map_of (fold (\<lambda>b. bmap_insert (reference b) b) xs m) r = Some b \<Longrightarrow>
        b \<in> set xs \<or> map_of m r = Some b" for xs m
    proof (induction xs arbitrary: m)
      case (Cons x xs)
      from Cons.IH [of "bmap_insert (reference x) x m"] Cons.prems show ?case by (auto split: if_splits)
    qed simp
    ultimately have "b \<in> set gs" by fastforce
    with round show ?thesis by simp
  qed
  have "causal ?d = {}"
    using genesis genesis_blocks_no_ancestors [OF assms(2)] by (fastforce simp: causal_def)
  then show ?thesis
    using initial_dag_wf [OF assms, of now] genesis by (auto simp: view_ok_def dag_closed_def gc)
qed

lemma reachable_view_ok:
  assumes "committee_wf (ctx_committee (sbv_context v))"
    and "0 < as_u32 (dag_state_cached_rounds (ctx_parameters (sbv_context v)))"
    and "DagState_new cr now (sbv_context v) MemStore_new = Some d0"
    and "(view_step cr v)\<^sup>*\<^sup>* d0 d"
  shows "view_ok d \<and> ds_context d = sbv_context v"
  using assms(4)
proof (induction rule: rtranclp_induct)
  case base
  from assms(3) obtain gs where gs: "genesis_blocks cr (sbv_context v) = Some gs"
    by (cases "genesis_blocks cr (sbv_context v)") (auto simp: DagState_new_def)
  then have "d0 = initial_dag now (sbv_context v) gs" using DagState_new_fresh [OF assms(1) gs] assms(3) by simp
  then show ?case using initial_view_ok [OF assms(1) gs assms(2)] by simp
next
  case (step d d')
  then show ?case using view_ok_step by blast
qed

text \<open>
  C6. Every DAG state a validator reaches is a valid view: starting from \<open>DagState::new\<close> on an
  empty store, any sequence of accepting verified blocks whose ancestors are present, adding
  commits and flushing keeps the state well-formed, causally complete and cached above the
  garbage collection round, with well-linked blocks only.
\<close>

theorem reachable_views_ok:
  assumes "committee_wf (ctx_committee (sbv_context v))"
    and "0 < as_u32 (dag_state_cached_rounds (ctx_parameters (sbv_context v)))"
    and "DagState_new cr now (sbv_context v) MemStore_new = Some d0"
    and "(view_step cr v)\<^sup>*\<^sup>* d0 d"
  shows "view_ok d \<and> ds_context d = sbv_context v"
  by (rule reachable_view_ok [OF assms])

text \<open>The first-round block of the verifier's sample reaches the sample DAG.\<close>

definition sample_verified_block :: verified_block where
  "sample_verified_block = new_verified sample_crypto sample_signed_block [1, 1, 0]"

lemma sample_verified_fields:
  "vb_round sample_verified_block = 1" "vb_author sample_verified_block = 1"
  "vb_ancestors sample_verified_block = map (\<lambda>a. BlockRef 0 a (of_nat a * 256)) [1, 0, 2]"
  by (simp_all add: sample_verified_block_def new_verified_def vb_inner_def sample_signed_block_def sample_block_def)

lemma sample_view_step:
  "\<exists>d. view_step sample_crypto sample_verifier sample_dag d
     \<and> dag_lookup d = (dag_lookup sample_dag)(reference sample_verified_block \<mapsto> sample_verified_block)
     \<and> ds_context d = sample_context \<and> ds_last_commit d = None \<and> highest_accepted_round d = 1"
proof -
  let ?b = sample_verified_block
  have "\<exists>rejected. verify_and_vote sample_crypto sample_verifier sample_signed_block [1, 1, 0] = Some (Inr (?b, rejected))"
    using sample_signed_block_verifies
    by (simp add: verify_and_vote_def try_panic_def Let_def sample_verified_block_def vote_def sample_verifier_def
        sample_transaction_verifier_def)
  then obtain rejected where v: "verify_and_vote sample_crypto sample_verifier sample_signed_block [1, 1, 0]
      = Some (Inr (?b, rejected))" by blast
  have fresh: "dag_lookup sample_dag (reference ?b) = None"
    by (rule sample_dag_lookup) (simp add: sample_verified_fields)
  have "\<exists>d. accept_block 0 ?b sample_dag = Some d"
    by (rule accept_block_total [OF sample_dag_wf])
       (simp_all add: sample_verified_fields u32_max_def, simp_all add: sample_config_def)
  then obtain d where d: "accept_block 0 ?b sample_dag = Some d" by blast
  have "view_step sample_crypto sample_verifier sample_dag d"
    by (rule view_step.accept [OF v _ d]) (simp add: sample_verified_fields)
  moreover have "ds_last_commit sample_dag = None" "ds_highest_accepted_round sample_dag = 0"
    by (simp_all add: sample_dag_def initial_dag_def Let_def)
  ultimately show ?thesis
    using accept_block_lookup [OF sample_dag_wf d] fresh by (auto simp: sample_verified_fields highest_accepted_round_def)
qed

lemma sample_dag_new: "DagState_new sample_crypto 0 (sbv_context sample_verifier) MemStore_new = Some sample_dag"
  using DagState_new_fresh [OF _ sample_genesis_blocks, of 0] sample_committee_wf
  by (simp add: sample_verifier_def sample_dag_def)

theorem reachable_views_ok_witness:
  "\<exists>d. view_step sample_crypto sample_verifier sample_dag d
     \<and> dag_lookup d (reference sample_verified_block) = Some sample_verified_block \<and> view_ok d"
proof -
  from sample_view_step obtain d where d: "view_step sample_crypto sample_verifier sample_dag d"
    "dag_lookup d (reference sample_verified_block) = Some sample_verified_block" by auto
  have steps: "(view_step sample_crypto sample_verifier)\<^sup>*\<^sup>* sample_dag d" using d(1) by (rule r_into_rtranclp)
  have "view_ok d"
    using reachable_views_ok [OF _ _ sample_dag_new steps] sample_committee_wf sample_cached_rounds
    by (simp add: sample_verifier_def)
  then show ?thesis using d by blast
qed

end
