(* ===== verification/Committer_Agreement.thy ===== *)
theory Committer_Agreement
  imports Committer_Liveness Dag_Views
begin

section \<open>Agreement and totality of the committer\<close>

text \<open>
  The properties of the pipelined committers as a whole: two validators decide consistent
  sequences of leaders, the decision procedure never panics, and the direct rule decides exactly
  what the votes and certificates in the DAG allow. A sample DAG of three rounds, in which the
  leader of the first round is committed, shows that their hypotheses can hold.
\<close>

subsection \<open>A sample DAG\<close>

definition full_block :: "round \<Rightarrow> authority_index \<Rightarrow> verified_block" where
  "full_block r a = sample_vblock r a (map (sample_ref (r - 1)) [1, 2, 3])"

lemma full_block_fields [simp]:
  "reference (full_block r a) = sample_ref r a" "vb_round (full_block r a) = r" "vb_author (full_block r a) = a"
  "vb_ancestors (full_block r a) = map (sample_ref (r - 1)) [1, 2, 3]"
  by (simp_all add: full_block_def)

definition full_round :: "round \<Rightarrow> verified_block list" where
  "full_round r = map (full_block r) [1, 2, 3]"

definition sample_blocks :: "verified_block list" where
  "sample_blocks = full_round 1 @ full_round 2 @ full_round 3"

definition last_rng :: rng_lib where
  "last_rng = sample_rng\<lparr>rng_choose_multiple_weighted := (\<lambda>_ xs n. Inr (take n (rev xs)))\<rparr>"

definition sample_schedule :: leader_schedule where
  "sample_schedule = LeaderSchedule_new sample_context LeaderSwapTable_default"

lemma sample_schedule_elects: "elect_leader last_rng sample_schedule r 0 = Some 3"
proof -
  let ?choices = "map (\<lambda>(index, auth). (index, auth_stake auth)) (authorities sample_committee)"
  have "map fst ?choices = map fst (authorities sample_committee)" by (simp add: case_prod_beta comp_def)
  then have fsts: "map fst ?choices = [0, 1, 2, 3]"
    using authorities_indices [OF sample_committee_wf] by (simp add: upt_rec)
  then obtain p ps where rev: "rev ?choices = p # ps" by (cases "rev ?choices") auto
  have "rev (map fst ?choices) = fst p # map fst ps" using arg_cong [OF rev, of "map fst"] by (simp only: rev_map list.map)
  then have "fst p = 3" using fsts by simp
  then show ?thesis
    using rev by (simp add: elect_leader_def elect_leader_stake_based_def sample_schedule_def LeaderSchedule_new_def
        LeaderSwapTable_default_def swap_def last_rng_def Let_def bset_first_def)
qed

lemma set_sample_blocks:
  "set sample_blocks = full_block 1 ` {1, 2, 3} \<union> full_block 2 ` {1, 2, 3} \<union> full_block 3 ` {1, 2, 3}"
  by (auto simp: sample_blocks_def full_round_def)

lemma distinct_sample_blocks: "distinct (map reference sample_blocks)"
  by (simp add: sample_blocks_def full_round_def)

text \<open>The state after accepting the sample blocks.\<close>

definition sample_state :: "dag_state \<Rightarrow> bool" where
  "sample_state d \<longleftrightarrow> accept_blocks 0 sample_blocks sample_dag = Some d \<and> dag_wf d \<and> ds_context d = sample_context
     \<and> ds_last_commit d = None \<and> highest_accepted_round d = 3
     \<and> (\<forall>r b. 0 < br_round r \<longrightarrow> dag_lookup d r = Some b \<longleftrightarrow> b \<in> set sample_blocks \<and> reference b = r)
     \<and> (\<forall>r. br_round r = 0 \<longrightarrow> dag_lookup d r = dag_lookup sample_dag r)
     \<and> (\<forall>b\<in>set sample_blocks. map_of (ds_recent_blocks d) (reference b) \<noteq> None)"

lemma sample_state_exists: "\<exists>d. sample_state d"
proof -
  let ?m = "map_of (map (\<lambda>b. (reference b, b)) sample_blocks)"
  have ok: "\<forall>b\<in>set sample_blocks. 0 < vb_round b \<and> vb_round b < u32_max \<and> vb_author b < committee_size (ds_committee sample_dag)
           \<and> vb_author b \<noteq> own_index (ds_context sample_dag) \<and> dag_lookup sample_dag (reference b) = None"
    by (auto simp: set_sample_blocks sample_dag_lookup u32_max_def)
  have v3: "\<not> enable_v3 (protocol_config (ds_context sample_dag))" by (simp add: sample_config_def)
  from accept_blocks_fresh [OF sample_dag_wf v3 ok distinct_sample_blocks, of 0] obtain d where
    d: "accept_blocks 0 sample_blocks sample_dag = Some d" "dag_wf d" "ds_context d = sample_context"
      "ds_last_commit d = ds_last_commit sample_dag"
      "ds_highest_accepted_round d = fold max (map vb_round sample_blocks) (ds_highest_accepted_round sample_dag)"
    and look: "dag_lookup d = dag_lookup sample_dag ++ ?m" and cache: "cache_view d = cache_view sample_dag ++ ?m" by auto
  have m: "?m r = Some b \<longleftrightarrow> b \<in> set sample_blocks \<and> reference b = r" for r b
    using distinct_sample_blocks by (auto simp: map_of_eq_Some_iff comp_def)
  have "ds_last_commit sample_dag = None" "ds_highest_accepted_round sample_dag = 0"
    by (simp_all add: sample_dag_def initial_dag_def Let_def)
  moreover have "map vb_round sample_blocks = [1, 1, 1, 2, 2, 2, 3, 3, 3]"
    by (simp add: sample_blocks_def full_round_def)
  moreover have "dag_lookup d r = Some b \<longleftrightarrow> b \<in> set sample_blocks \<and> reference b = r" if "0 < br_round r" for r b
    using that m [of r b] by (auto simp: look map_add_Some_iff sample_dag_lookup)
  moreover have "dag_lookup d r = dag_lookup sample_dag r" if "br_round r = 0" for r
  proof -
    have "?m r \<noteq> Some b" for b using m [of r b] that by (auto simp: set_sample_blocks)
    then have "?m r = None" by (cases "?m r") auto
    then show ?thesis by (simp add: look map_add_def)
  qed
  moreover have "map_of (ds_recent_blocks d) (reference b) \<noteq> None" if "b \<in> set sample_blocks" for b
  proof -
    have "?m (reference b) = Some b" using m that by blast
    then have "cache_view d (reference b) = Some b" by (simp add: cache map_add_def)
    then show ?thesis using cache_view_None [of d "reference b"] by simp
  qed
  ultimately show ?thesis unfolding sample_state_def using d by (auto simp: highest_accepted_round_def)
qed

lemma sample_stake_of: "A \<subseteq> {..<4} \<Longrightarrow> stake_of sample_committee A = card A"
  by (auto simp: stake_of_def sample_stake_at subset_iff intro!: trans [OF sum.cong [OF refl, of A _ "\<lambda>_. 1"]])

lemma sample_quorum: "reached_quorum sample_committee (stake_of sample_committee {1, 2, 3})"
  by (simp add: sample_stake_of reached_quorum_def)

lemma sample_gc: "sample_state d \<Longrightarrow> gc_round d = 0 \<and> last_commit_round d = 0"
  by (simp add: sample_state_def gc_round_def last_commit_round_def calculate_gc_round_def)

lemma sample_causal:
  assumes "sample_state d" and "(r, a) \<in> causal d"
  shows "\<exists>b\<in>set sample_blocks. reference b = r \<and> a \<in> set (vb_ancestors b)"
proof -
  from assms(2) obtain b where b: "dag_lookup d r = Some b" "a \<in> set (vb_ancestors b)" by (auto simp: causal_def)
  have "0 < br_round r"
  proof (rule ccontr)
    assume "\<not> 0 < br_round r"
    then have "dag_lookup sample_dag r = Some b" using assms(1) b(1) by (simp add: sample_state_def)
    from sample_genesis_ancestors [OF this] b(2) show False by simp
  qed
  then show ?thesis using assms(1) b by (auto simp: sample_state_def)
qed

lemma full_block_linked:
  assumes "0 < r"
  shows "well_linked sample_committee (full_block r a)"
proof -
  let ?refs = "map (sample_ref (r - 1)) [1, 2, 3]"
  have "{a \<in> set ?refs. br_round a + 1 = r} = set ?refs" using assms by auto
  then have "br_author ` {a \<in> set ?refs. br_round a + 1 = r} = {1, 2, 3}" by simp
  then have "reached_quorum sample_committee (parent_stake sample_committee r ?refs)"
    using sample_quorum by (simp only: parent_stake_def)
  moreover have "\<forall>x\<in>set ?refs. br_author x < committee_size sample_committee \<and> br_round x < r" using assms by simp
  moreover have "distinct (map br_author ?refs)" by simp
  ultimately show ?thesis by (simp only: well_linked_def full_block_fields)
qed

lemma sample_view_ok: "sample_state d \<Longrightarrow> view_ok d"
proof -
  assume s: "sample_state d"
  note gc = sample_gc [OF s]
  have known: "dag_lookup d (sample_ref r a) \<noteq> None" if "r \<in> {1, 2, 3}" "a \<in> {1, 2, 3}" for r a
  proof -
    have "full_block r a \<in> set sample_blocks" using that by (auto simp: set_sample_blocks)
    then have "dag_lookup d (sample_ref r a) = Some (full_block r a)" using s that by (auto simp: sample_state_def)
    then show ?thesis by simp
  qed
  have "dag_closed d 0"
    unfolding dag_closed_def
  proof (intro allI impI)
    fix r a assume "(r, a) \<in> causal d"
    from sample_causal [OF s this] obtain b where b: "b \<in> set sample_blocks" "reference b = r" "a \<in> set (vb_ancestors b)" by blast
    from b(1) obtain k x where k: "b = full_block k x" "k \<in> {1, 2, 3}" by (auto simp: set_sample_blocks)
    then obtain y where y: "a = sample_ref (k - 1) y" "y \<in> {1, 2, 3}" using b(3) by auto
    have "0 < k - 1 \<Longrightarrow> k - 1 \<in> {1, 2, 3}" using k(2) by auto
    then show "br_round a < br_round r \<and> (0 < br_round a \<longrightarrow> dag_lookup d a \<noteq> None)"
      using known [of "k - 1" y] k y b(2) by auto
  qed
  moreover have "well_linked sample_committee b" if "b \<in> set sample_blocks" for b
    using that full_block_linked by (auto simp: set_sample_blocks)
  moreover have "b \<in> set sample_blocks" "map_of (ds_recent_blocks d) r \<noteq> None"
    if "dag_lookup d r = Some b" "0 < br_round r" for r b
  proof -
    show "b \<in> set sample_blocks" using s that by (simp add: sample_state_def)
    moreover have "reference b = r" using s that by (simp add: sample_state_def)
    ultimately show "map_of (ds_recent_blocks d) r \<noteq> None" using s by (auto simp: sample_state_def)
  qed
  moreover have "ds_context d = sample_context" "dag_wf d" using s by (simp_all add: sample_state_def)
  ultimately show ?thesis unfolding view_ok_def by (simp add: gc)
qed

lemma sample_slots:
  assumes "sample_state d" and "dag_lookup d r \<noteq> None" and "dag_lookup d r' \<noteq> None" and "slot_of_ref r = slot_of_ref r'"
  shows "r = r'"
proof (cases "br_round r = 0")
  case True
  then show ?thesis
    using assms by (intro sample_genesis_unique) (auto simp: sample_state_def slot_of_ref_def)
next
  case False
  then obtain b b' where "b \<in> set sample_blocks" "reference b = r" "b' \<in> set sample_blocks" "reference b' = r'"
    using assms by (auto simp: sample_state_def slot_of_ref_def)
  then show ?thesis using assms(4) by (auto simp: set_sample_blocks slot_of_ref_def)
qed

lemma sample_views_consistent:
  assumes "sample_state d"
  shows "views_consistent {} d d" and "views_consistent {} sample_dag d"
proof -
  have sub: "dag_lookup d r = Some b" if "dag_lookup sample_dag r = Some b" for r b
    using sample_genesis_lookup [OF that] assms that by (simp add: sample_state_def)
  have ctx: "ds_context d = sample_context" using assms by (simp add: sample_state_def)
  show "views_consistent {} d d" using sample_slots [OF assms] by (auto simp: views_consistent_def)
  show "views_consistent {} sample_dag d"
    using sub sample_slots [OF assms] ctx unfolding views_consistent_def by fastforce
qed

lemma sample_honest_view: "sample_state d \<Longrightarrow> honest_view {} d"
proof -
  assume s: "sample_state d"
  have ctx: "ds_context d = sample_context" using s by (simp add: sample_state_def)
  have "sum_list (map (\<lambda>b. stake_at sample_committee (vb_author b)) bs) \<le> u64_max"
    if bs: "get_uncommitted_blocks_at_round d r = Some bs" for r bs
  proof -
    note all = uncommitted_at_round [OF sample_view_ok [OF s] bs]
    have "set bs \<subseteq> set sample_blocks" using all(1,3) s sample_gc [OF s] by (auto simp: sample_state_def)
    then have "card (set bs) \<le> card (set sample_blocks)" by (intro card_mono) auto
    then have "length bs \<le> length sample_blocks"
      using distinct_card [OF all(2)] card_length [of sample_blocks] by simp
    then have "length bs \<le> 9" by (simp add: sample_blocks_def full_round_def)
    moreover have "sum_list (map (\<lambda>b. stake_at sample_committee (vb_author b)) bs) \<le> length bs"
      by (induction bs) (auto simp: sample_stake_at)
    ultimately show ?thesis by (simp add: u64_max_def)
  qed
  moreover have "faulty_ok sample_committee {}" by (simp add: faulty_ok_def stake_of_def)
  ultimately show ?thesis
    using sample_view_ok [OF s] sample_views_consistent(1) [OF s] ctx by (simp add: honest_view_def stakes_fit_def)
qed

lemma sample_direct_commit: "sample_state d \<Longrightarrow> direct_commit d (Slot 1 3) (full_block 1 3)"
proof -
  assume s: "sample_state d"
  have ctx: "ds_committee d = sample_committee" using s by (simp add: sample_state_def)
  have look: "dag_lookup d (sample_ref r a) = Some (full_block r a)" if "r \<in> {1, 2, 3}" "a \<in> {1, 2, 3}" for r a
  proof -
    have "full_block r a \<in> set sample_blocks" using that by (auto simp: set_sample_blocks)
    then show ?thesis using s that by (auto simp: sample_state_def)
  qed
  have links: "links_to (sample_ref 1 3) (full_block 2 a)" for a
    by (simp add: links_to_def slot_of_ref_def)
  then have "votes_for d (sample_ref 1 3) (sample_ref 2 a)" if "a \<in> {1, 2, 3}" for a
    using look [of 2 a] that by (simp add: votes_for_def)
  then have voters: "{1, 2, 3} \<subseteq> voters d (sample_ref 1 3) (vb_ancestors (full_block 3 a))" for a
    by (force simp: voters_def)
  have "certified d (sample_ref 1 3) (full_block 3 a)" for a
    unfolding certified_def ctx by (rule reached_quorum_mono [OF _ voters sample_quorum]) simp
  then have "a \<in> certifiers d (sample_ref 1 3)" if "a \<in> {1, 2, 3}" for a
    unfolding certifiers_def using look [of 3 a] that by (intro CollectI exI [of _ "full_block 3 a"]) simp
  then have certs: "{1, 2, 3} \<subseteq> certifiers d (sample_ref 1 3)" by (rule subsetI)
  have "certifiers d (sample_ref 1 3) \<subseteq> vb_author ` set sample_blocks"
    using s by (auto simp: certifiers_def sample_state_def)
  then have "finite (certifiers d (sample_ref 1 3))" by (rule finite_subset) simp
  from reached_quorum_mono [OF this certs sample_quorum] show ?thesis
    using look [of 1 3] ctx by (simp add: direct_commit_def at_slot_def slot_of_ref_def)
qed

subsection \<open>Properties\<close>

lemma consistent_decisions:
  assumes "view_ok d1" and "view_ok d2" and "views_consistent F d1 d2" and "faulty_ok (ds_committee d1) F"
    and "num_leaders_per_round (protocol_config (ds_context d1)) = Some 1"
    and "num_leaders_per_round (protocol_config (ds_context d2)) = Some 1"
    and "last_commit_round d1 \<le> slot_round ld" and "last_commit_round d2 \<le> slot_round ld"
    and "try_decide rng (pipelined (ds_context d1) ls) d1 ld = Some ds1"
    and "try_decide rng (pipelined (ds_context d2) ls) d2 ld = Some ds2"
  shows "prefix (map outcome ds1) (map outcome ds2) \<or> prefix (map outcome ds2) (map outcome ds1)"
proof -
  let ?lo = "Suc (slot_round ld)"
  let ?leader = "leader_slot rng ls"
  from try_decide_run [OF assms(1,5,7,9)] obtain run1 where run1: "run_ok d1 ?leader run1"
    and ds1: "\<forall>i<length ds1. \<exists>st direct. run1 (?lo + i) = Some st \<and> into_decided_leader direct st = Some (ds1 ! i)" by blast
  from try_decide_run [OF assms(2,6,8,10)] obtain run2 where run2: "run_ok d2 ?leader run2"
    and ds2: "\<forall>i<length ds2. \<exists>st direct. run2 (?lo + i) = Some st \<and> into_decided_leader direct st = Some (ds2 ! i)" by blast
  note agree = commits_agree [OF assms(1-4) run1 run2] and conflict = no_conflict [OF assms(1-4) run1 run2]
  have "outcome (ds1 ! i) = outcome (ds2 ! i)" if "i < length ds1" "i < length ds2" for i
  proof -
    from ds1 that obtain st1 x1 where 1: "run1 (?lo + i) = Some st1" "into_decided_leader x1 st1 = Some (ds1 ! i)" by blast
    from ds2 that obtain st2 x2 where 2: "run2 (?lo + i) = Some st2" "into_decided_leader x2 st2 = Some (ds2 ! i)" by blast
    show ?thesis
      using decided_outcome [OF run1 1] decided_outcome [OF run2 2] 1(1) 2(1) agree conflict by auto
  qed
  then show ?thesis by (intro pointwise_prefix) auto
qed

text \<open>
  C3. Agreement of the committer: two validators that start from the same last decided slot, with
  views of the DAG that are causally complete and in which only authorities of at most \<open>f\<close> stake
  equivocate, decide sequences of which one is a prefix of the other, slot by slot with the same
  block committed or the slot skipped, whichever of the direct and the indirect rule decided.
\<close>

theorem decided_sequences_agree:
  assumes "view_ok d1" and "view_ok d2" and "views_consistent F d1 d2" and "faulty_ok (ds_committee d1) F"
    and "num_leaders_per_round (protocol_config (ds_context d1)) = Some 1"
    and "num_leaders_per_round (protocol_config (ds_context d2)) = Some 1"
    and "last_commit_round d1 \<le> slot_round ld" and "last_commit_round d2 \<le> slot_round ld"
    and "try_decide rng (core_committer (ds_context d1) ls) d1 ld = Some ds1"
    and "try_decide rng (core_committer (ds_context d2) ls) d2 ld = Some ds2"
  shows "prefix (map outcome ds1) (map outcome ds2) \<or> prefix (map outcome ds2) (map outcome ds1)"
  using consistent_decisions [OF assms(1-8)] assms(9,10) core_committer_pipelined [OF assms(5)] core_committer_pipelined [OF assms(6)]
  by simp

lemma sample_dag_view_ok: "view_ok sample_dag"
  unfolding sample_dag_def
  by (rule initial_view_ok [OF _ sample_genesis_blocks]) (simp_all add: sample_committee_wf sample_cached_rounds)

lemma sample_core_committer: "core_committer sample_context sample_schedule = pipelined sample_context sample_schedule"
  by (rule core_committer_pipelined) (simp add: sample_config_def)

lemma sample_decides:
  assumes "sample_state d"
  shows "try_decide last_rng (core_committer sample_context sample_schedule) d (Slot 0 0) = Some [DCommit (full_block 1 3) True]"
proof -
  let ?s = "stage sample_context sample_schedule"
  have ctx: "ds_context d = sample_context" and high: "highest_accepted_round d = 3"
    using assms by (simp_all add: sample_state_def)
  note hv = sample_honest_view [OF assms] and commit = sample_direct_commit [OF assms]
  have lead: "leads (?s 1) 1" by (rule stage_leads) simp
  have "\<not> direct_skip d (Slot 1 3)"
    using skip_excludes_certificate [OF honest_viewD(1) [OF hv] honest_viewD(1) [OF hv] honest_viewD(2,3) [OF hv], of "Slot 1 3"]
      direct_commit_some_certificate [OF honest_viewD(1) [OF hv] commit] sample_gc [OF assms] by auto
  with try_direct_decide_exact [OF hv, of "?s 1" "Slot 1 3"] lead sample_gc [OF assms] ctx
  obtain b where b: "try_direct_decide d (?s 1) (Slot 1 3) = Some (Commit b)" "direct_commit d (Slot 1 3) b"
    using commit by (auto simp: direct_status_def u32_max_def split: if_splits)
  have "b = full_block 1 3"
    using honest_certificate_unique [OF hv, of "Slot 1 3" b "full_block 1 3"] sample_gc [OF assms]
      direct_commit_some_certificate [OF honest_viewD(1) [OF hv]] b(2) commit by simp
  then have direct: "try_direct_decide d (?s 1) (Slot 1 3) = Some (Commit (full_block 1 3))" using b(1) by simp
  have elect: "bc_elect_leader last_rng (?s i) 1 = Some (if 1 mod 3 = i then Some (Slot 1 3) else None)" if "i < 3" for i
    using stage_elect_total [OF sample_schedule_elects that, of 1] by (simp add: u32_max_def)
  have e: "bc_elect_leader last_rng (?s 0) 1 = Some None" "bc_elect_leader last_rng (?s 1) 1 = Some (Some (Slot 1 3))"
    "bc_elect_leader last_rng (?s 2) 1 = Some None" using elect [of 0] elect [of 1] elect [of 2] by simp_all
  have rounds: "decide_rounds last_rng d (Slot 0 0) (uc_committers (core_committer sample_context sample_schedule)) [1] []
      = Some [(Commit (full_block 1 3), Direct)]"
    using e direct by (simp add: sample_core_committer pipelined_committers)
  have "num_leaders_per_round (protocol_config sample_context) = Some 1"
    "uc_context (core_committer sample_context sample_schedule) = sample_context"
    by (simp_all add: sample_core_committer sample_config_def pipelined_def build_def with_pipeline_def with_number_of_leaders_def
        UniversalCommitterBuilder_new_def)
  moreover have "rev [1..<Suc (saturating_sub 3 2)] = [1]" by (simp add: upt_rec)
  moreover have "uc_update_metrics sample_context (DCommit (full_block 1 3) True) = Some ()"
    by (simp add: uc_update_metrics_def slot_of_ref_def committee_authority_def vec_get_def)
       (simp add: committee_size_def [symmetric])
  ultimately show ?thesis
    using rounds by (simp add: try_decide_def high u32_add_def u32_max_def GENESIS_ROUND_def)
qed

lemma sample_uc: "uc_context (core_committer sample_context sample_schedule) = sample_context"
  by (simp add: sample_core_committer pipelined_def build_def with_pipeline_def with_number_of_leaders_def
      UniversalCommitterBuilder_new_def)

lemma sample_one_leader: "num_leaders_per_round sample_config = Some 1"
  by (simp add: sample_config_def)

lemma sample_dag_start: "last_commit_round sample_dag = 0" "highest_accepted_round sample_dag = 0"
  by (simp_all add: sample_dag_def initial_dag_def Let_def last_commit_round_def highest_accepted_round_def)

lemma sample_undecided:
  "try_decide last_rng (core_committer sample_context sample_schedule) sample_dag (Slot 0 0) = Some []"
  by (simp add: try_decide_def sample_dag_start sample_uc sample_one_leader u32_add_def u32_max_def)

theorem decided_sequences_agree_witness:
  "\<exists>d ds. accept_blocks 0 sample_blocks sample_dag = Some d
     \<and> try_decide last_rng (core_committer sample_context sample_schedule) sample_dag (Slot 0 0) = Some ds
     \<and> try_decide last_rng (core_committer sample_context sample_schedule) d (Slot 0 0) = Some [DCommit (full_block 1 3) True]
     \<and> (prefix (map outcome ds) [outcome (DCommit (full_block 1 3) True)]
        \<or> prefix [outcome (DCommit (full_block 1 3) True)] (map outcome ds))"
proof -
  from sample_state_exists obtain d where d: "sample_state d" by blast
  have ctx: "ds_context d = sample_context" using d by (simp add: sample_state_def)
  have "faulty_ok sample_committee {}" by (simp add: faulty_ok_def stake_of_def)
  with decided_sequences_agree [OF sample_dag_view_ok sample_view_ok [OF d] sample_views_consistent(2) [OF d], of "Slot 0 0"]
    sample_undecided sample_decides [OF d] sample_gc [OF d] sample_dag_start ctx sample_one_leader
  have "prefix (map outcome []) (map outcome [DCommit (full_block 1 3) True])
        \<or> prefix (map outcome [DCommit (full_block 1 3) True]) (map outcome [])" by fastforce
  then show ?thesis
    using d sample_undecided sample_decides [OF d] unfolding sample_state_def by (intro exI [of _ d] exI [of _ "[]"]) simp
qed



text \<open>
  C5. The direct decision rule is exact: on a valid view in which at most \<open>f\<close> stake equivocates it
  never panics, skips a leader slot if and only if a quorum of voting blocks blames the leader,
  and commits a block of the slot if and only if a quorum of authorities certifies it.
\<close>

theorem direct_rule_exact:
  assumes "honest_view F d" and "bc_context bc = ds_context d" and "leads bc (slot_round s)"
    and "last_commit_round d < slot_round s" and "slot_round s + 3 \<le> u32_max"
  shows "(\<exists>st. try_direct_decide d bc s = Some st)
       \<and> (try_direct_decide d bc s = Some (Skip s) \<longleftrightarrow> direct_skip d s)
       \<and> (try_direct_decide d bc s = Some (Commit b) \<longleftrightarrow> direct_commit d s b)"
proof -
  note hv = honest_viewD [OF assms(1)]
  have gc: "gc_round d < slot_round s" using gc_round_le [of d] assms(4) by simp
  note cert = direct_commit_some_certificate [OF hv(1)]
  have "\<not> direct_skip d s" if "direct_commit d s x" for x
    using skip_excludes_certificate [OF hv(1,1,2,3) gc gc] cert [OF that] by blast
  moreover have "x = y" if "direct_commit d s x" "direct_commit d s y" for x y
    using honest_certificate_unique [OF assms(1) gc] cert that by blast
  ultimately show ?thesis
    using try_direct_decide_exact [OF assms] unfolding direct_status_def by (auto split: if_splits)
qed

theorem direct_rule_exact_witness:
  "\<exists>d. accept_blocks 0 sample_blocks sample_dag = Some d
     \<and> try_direct_decide d (stage sample_context sample_schedule 1) (Slot 1 3) = Some (Commit (full_block 1 3))"
proof -
  from sample_state_exists obtain d where d: "sample_state d" by blast
  have "leads (stage sample_context sample_schedule 1) 1" by (rule stage_leads) simp
  with direct_rule_exact [OF sample_honest_view [OF d], of "stage sample_context sample_schedule 1" "Slot 1 3" "full_block 1 3"]
    sample_direct_commit [OF d] sample_gc [OF d] d show ?thesis
    by (auto simp: sample_state_def u32_max_def)
qed

end
