(* ===== verification/Commit_Invariant.thy ===== *)
theory Commit_Invariant
  imports Linearizer Committer_Agreement
begin

text \<open>
  The invariant that ties the committed marks of the block cache to the last commit, and that
  accepting blocks and flushing keep it: accepting never marks a block, evicting only drops marks
  at or below the garbage collection round.
\<close>

section \<open>Committed marks\<close>

definition commits_ok :: "dag_state \<Rightarrow> bool" where
  "commits_ok d \<longleftrightarrow> commit_closed (gc_round d) (dag_lookup d) (committed_refs d)
     \<and> (\<forall>r\<in>committed_refs d. br_round r \<le> last_commit_round d)"

lemma commit_closed_mono: "commit_closed g blk C \<Longrightarrow> g \<le> g' \<Longrightarrow> commit_closed g' blk C"
  by (auto simp: commit_closed_def)

lemma committed_refs_insert:
  "committed_refs (d\<lparr>ds_recent_blocks := bmap_insert r info (ds_recent_blocks d)\<rparr>)
     = (if bi_committed info then insert r (committed_refs d) else committed_refs d - {r})"
  by (auto simp: committed_refs_def is_committed_def)

lemma committed_refs_cong:
  "ds_recent_blocks d' = ds_recent_blocks d \<Longrightarrow> committed_refs d' = committed_refs d"
  by (simp add: committed_refs_def is_committed_def)

lemma update_parent_committed: "update_parent b a d = Some d' \<Longrightarrow> committed_refs d' = committed_refs d"
  by (auto simp: update_parent_def panic_simps committed_refs_def is_committed_def split: if_splits)

lemma update_round_info_committed: "update_round_info b d = Some d' \<Longrightarrow> committed_refs d' = committed_refs d"
  by (drule update_round_info_only) (auto simp: committed_refs_def is_committed_def)

lemma update_v3_info_committed:
  assumes "update_v3_info b d = Some d'"
  shows "committed_refs d' = committed_refs d"
proof (cases "enable_v3 (protocol_config (ds_context d))")
  case True
  with assms obtain d1 where d1: "for_each (update_parent (reference b)) (vb_ancestors b) d = Some d1"
    "update_round_info b d1 = Some d'" by (auto simp: update_v3_info_def panic_simps)
  have "committed_refs d1 = committed_refs d"
    by (rule for_each_inv [OF d1(1), where I = "\<lambda>x. committed_refs x = committed_refs d"])
       (auto dest: update_parent_committed)
  then show ?thesis using update_round_info_committed [OF d1(2)] by simp
qed (use assms in \<open>simp add: update_v3_info_def\<close>)

lemma accept_block_committed:
  assumes "dag_wf d" and "accept_block now b d = Some d'" and "vb_author b < committee_size (ds_committee d)"
  shows "committed_refs d' = committed_refs d"
proof (cases "dag_lookup d (reference b) = None")
  case False
  then have "contains_block d (reference b) = Some True"
    using contains_block_eq [OF assms(1), of "reference b"] assms(3) by simp
  with assms(2) show ?thesis by (auto simp: accept_block_def panic_simps)
next
  case True
  then have "contains_block d (reference b) = Some False"
    using contains_block_eq [OF assms(1), of "reference b"] assms(3) by simp
  with assms(2) obtain d1 d2 clock adv where
      ins: "insert_recent b d = Some d1" and d2: "update_v3_info b d1 = Some d2"
    and d': "ds_recent_blocks d' = ds_recent_blocks d2" and pos: "0 < vb_round b"
    by (auto simp: accept_block_def update_block_metadata_def Let_def panic_simps)
  have new: "map_of (ds_recent_blocks d) (reference b) = None"
    using True pos by (auto simp: dag_lookup_def GENESIS_ROUND_def split: option.splits)
  have "ds_recent_blocks d1 = bmap_insert (reference b) (BlockInfo_new b) (ds_recent_blocks d)"
    using ins by (auto simp: insert_recent_def Let_def panic_simps)
  then have "committed_refs d1 = committed_refs d"
    using new by (auto simp: committed_refs_def is_committed_def BlockInfo_new_def)
  then show ?thesis using update_v3_info_committed [OF d2] committed_refs_cong [OF d'] by simp
qed

lemma evict_authority_last_commit: "evict_authority a d = Some d' \<Longrightarrow> ds_last_commit d' = ds_last_commit d"
  by (auto simp: evict_authority_def panic_simps Let_def case_prod_beta)

lemma flush_last_commit:
  assumes "flush d = Some d'"
  shows "ds_last_commit d' = ds_last_commit d"
proof -
  have evict: "ds_last_commit y = ds_last_commit x" if "for_each evict_authority as x = Some y" for as x y
    by (rule for_each_inv [OF that, where I = "\<lambda>z. ds_last_commit z = ds_last_commit x"])
       (auto dest: evict_authority_last_commit)
  show ?thesis
    using assms by (auto simp: flush_def Let_def panic_simps evict_round_info_def split: if_splits dest!: evict)
qed

section \<open>The invariant under the operations of a view\<close>

lemma commits_ok_accept:
  assumes "view_ok d" and "commits_ok d" and "accept_block now b d = Some d'"
    and "vb_author b < committee_size (ds_committee d)"
  shows "commits_ok d'"
proof -
  note wf = view_okD(1) [OF assms(1)]
  note acc = accept_block_lookup [OF wf assms(3,4)] and com = accept_block_committed [OF wf assms(3,4)]
  have same: "gc_round d' = gc_round d" "last_commit_round d' = last_commit_round d"
    using acc by (auto simp: gc_round_def last_commit_round_def calculate_gc_round_def)
  have "(r, a) \<in> history_of (dag_lookup d)" if "r \<in> committed_refs d" "(r, a) \<in> history_of (dag_lookup d')" for r a
  proof -
    have "0 < vb_round b" using assms(3) by (auto simp: accept_block_def panic_simps)
    then have "dag_lookup d (reference b) = None \<Longrightarrow> r \<noteq> reference b"
      using that(1) by (auto simp: committed_refs_def is_committed_def dag_lookup_def GENESIS_ROUND_def)
    then show ?thesis using that(2) acc by (auto simp: history_of_def split: if_splits)
  qed
  then show ?thesis using assms(2) by (auto simp: commits_ok_def commit_closed_def com same)
qed

lemma commits_ok_flush:
  assumes "view_ok d" and "commits_ok d" and "flush d = Some d'"
  shows "commits_ok d'"
proof -
  from flush_correct [OF view_okD(1) [OF assms(1)]] assms(3) have f: "dag_lookup d' = dag_lookup d"
    "gc_round d' = gc_round d" "\<And>r. gc_round d < br_round r \<Longrightarrow> map_of (ds_recent_blocks d') r = map_of (ds_recent_blocks d) r"
    by auto
  have last: "last_commit_round d' = last_commit_round d"
    using flush_last_commit [OF assms(3)] by (simp add: last_commit_round_def)
  have mem: "gc_round d < br_round r \<Longrightarrow> r \<in> committed_refs d' \<longleftrightarrow> r \<in> committed_refs d" for r
    using f(3) [of r] by (simp add: committed_refs_def is_committed_def)
  have "a \<in> committed_refs d'"
    if "r \<in> committed_refs d'" "(r, a) \<in> history_of (dag_lookup d)" "gc_round d < br_round a" for r a
  proof -
    have "br_round a < br_round r"
      using that(2) view_okD(2) [OF assms(1)] by (auto simp: history_of_dag_lookup dag_closed_def)
    with that show ?thesis using mem assms(2) by (auto simp: commits_ok_def commit_closed_def)
  qed
  moreover have "br_round r \<le> last_commit_round d" if "r \<in> committed_refs d'" for r
    using that mem [of r] assms(2) gc_round_le [of d] by (cases "gc_round d < br_round r") (auto simp: commits_ok_def)
  ultimately show ?thesis by (simp add: commits_ok_def commit_closed_def f(1,2) last)
qed

text \<open>Nothing is committed in the sample view.\<close>

lemma sample_no_commits:
  assumes "sample_state d"
  shows "committed_refs d = {}" and "commits_ok d"
proof -
  let ?I = "\<lambda>x. dag_wf x \<and> ds_context x = sample_context \<and> committed_refs x = {}"
  have "?I d"
  proof (rule for_each_inv [where I = ?I])
    show "for_each (accept_block 0) sample_blocks sample_dag = Some d"
      using assms by (simp add: sample_state_def accept_blocks_def)
    show "?I sample_dag"
      using sample_dag_wf by (simp add: committed_refs_def is_committed_def sample_dag_def initial_dag_def Let_def)
    show "?I y" if "b \<in> set sample_blocks" "?I x" "accept_block 0 b x = Some y" for b x y
    proof -
      have "vb_author b < committee_size (ds_committee x)"
        using that(1,2) by (auto simp: sample_blocks_def full_round_def)
      then show ?thesis
        using accept_block_lookup [of x 0 b y] accept_block_committed [of x 0 b y] that(2,3) by simp
    qed
  qed
  then show "committed_refs d = {}" "commits_ok d" by (simp_all add: commits_ok_def commit_closed_def)
qed

end
