(* ===== verification/Commit_Chain.thy ===== *)
theory Commit_Chain
  imports Commit_Invariant
begin

section \<open>The chain of commits\<close>

text \<open>
  Properties of the linearizer: the median timestamp lies between timestamps of honest
  authorities, a sub-dag is exactly the uncommitted causal history of its leader in causal order,
  and handling a sequence of committed leaders extends the chain of commits without gaps,
  overlaps or decreasing timestamps.
\<close>

subsection \<open>Weighted median\<close>

lemma map_sort_key: "map f (sort_key (\<lambda>x. g (f x)) xs) = sort_key g (map f xs)"
proof (induction xs)
  case (Cons x xs)
  have "map f (insort_key (\<lambda>x. g (f x)) x ys) = insort_key g (f x) (map f ys)" for ys by (induction ys) auto
  with Cons show ?case by simp
qed simp

lemma median_loop_split:
  assumes "c \<le> half" and "half < c + sum_list (map snd xs)" and "c + sum_list (map snd xs) \<le> u64_max"
  shows "\<exists>i<length xs. median_loop half xs c = Some (Some (fst (xs ! i)))
     \<and> c + sum_list (map snd (take i xs)) \<le> half \<and> half < c + sum_list (map snd (take (Suc i) xs))"
  using assms
proof (induction xs arbitrary: c)
  case (Cons x xs)
  obtain ts st where x: "x = (ts, st)" by force
  have add: "u64_add c st = Some (c + st)" using Cons.prems(3) x by (simp add: u64_add_def)
  show ?case
  proof (cases "half < c + st")
    case True
    then show ?thesis using add x Cons.prems by (intro exI [of _ 0]) simp
  next
    case False
    with Cons.IH [of "c + st"] Cons.prems x obtain i where "i < length xs"
      "median_loop half xs (c + st) = Some (Some (fst (xs ! i)))"
      "c + st + sum_list (map snd (take i xs)) \<le> half" "half < c + st + sum_list (map snd (take (Suc i) xs))" by auto
    then show ?thesis using add x False by (intro exI [of _ "Suc i"]) simp
  qed
qed simp

lemma median_stakes:
  assumes "\<forall>b\<in>set bs. vb_author b < committee_size c"
    and "t + sum_list (map (\<lambda>b. stake_at c (vb_author b)) bs) \<le> u64_max"
  shows "for_each (\<lambda>b (timestamps, t). do {
         authority \<leftarrow> committee_authority c (vb_author b);
         t' \<leftarrow> u64_add t (auth_stake authority);
         Some (timestamps @ [(vb_timestamp_ms b, auth_stake authority)], t')
       }) bs (ts, t)
     = Some (ts @ map (\<lambda>b. (vb_timestamp_ms b, stake_at c (vb_author b))) bs,
             t + sum_list (map (\<lambda>b. stake_at c (vb_author b)) bs))"
  using assms
proof (induction bs arbitrary: ts t)
  case (Cons b bs)
  have "committee_authority c (vb_author b) = Some (committee_authorities c ! vb_author b)"
    "stake_at c (vb_author b) = auth_stake (committee_authorities c ! vb_author b)"
    using Cons.prems(1) by (auto simp: committee_authority_def vec_get_def committee_size_def stake_at_def)
  then show ?case using Cons.prems Cons.IH by (simp add: u64_add_def)
qed simp

text \<open>A list of blocks by distinct authors with more stake than the faulty ones has an honest author.\<close>

lemma heavy_has_honest:
  assumes "faulty_ok c F" and "distinct (map vb_author bs)"
    and "fault_tolerance c < sum_list (map (\<lambda>b. stake_at c (vb_author b)) bs)"
  shows "\<exists>b\<in>set bs. vb_author b \<notin> F"
proof (rule ccontr)
  assume "\<not> (\<exists>b\<in>set bs. vb_author b \<notin> F)"
  then have "stake_of c (vb_author ` set bs) \<le> stake_of c F"
    using assms(1) by (intro stake_of_mono) (auto simp: faulty_ok_def)
  moreover have "stake_of c (vb_author ` set bs) = sum_list (map (\<lambda>b. stake_at c (vb_author b)) bs)"
    using stake_of_list [OF assms(2), of c] by (simp add: comp_def)
  ultimately show False using assms(1,3) by (simp add: faulty_ok_def)
qed

lemma median_honest:
  assumes "committee_wf (ctx_committee ctx)" and "distinct (map vb_author bs)"
    and "\<forall>b\<in>set bs. vb_author b < committee_size (ctx_committee ctx)"
    and "reached_quorum (ctx_committee ctx) (stake_of (ctx_committee ctx) (vb_author ` set bs))"
    and "faulty_ok (ctx_committee ctx) F"
  shows "\<exists>ts. median_timestamp_by_stake ctx bs = Some (Inr ts)
     \<and> (\<exists>b\<in>set bs. vb_author b \<notin> F \<and> vb_timestamp_ms b \<le> ts)
     \<and> (\<exists>b\<in>set bs. vb_author b \<notin> F \<and> ts \<le> vb_timestamp_ms b)"
proof -
  let ?c = "ctx_committee ctx" and ?w = "\<lambda>b. stake_at (ctx_committee ctx) (vb_author b)"
  let ?g = "\<lambda>b. (vb_timestamp_ms b, ?w b)" and ?T = "sum_list (map ?w bs)"
  define sb where "sb = sort_key vb_timestamp_ms bs"
  have T: "stake_of ?c (vb_author ` set bs) = ?T" using stake_of_list [OF assms(2), of ?c] by (simp add: comp_def)
  have "stake_of ?c (vb_author ` set bs) \<le> total_stake ?c"
    using assms(3) by (intro committee_wf_stake_le_total [OF assms(1)]) (auto simp: members_def)
  then have max: "?T \<le> u64_max" using assms(1) T by (simp add: committee_wf_def)
  have q: "quorum_threshold ?c \<le> ?T" "2 * fault_tolerance ?c < ?T"
    using assms(1,4) T by (auto simp: committee_wf_def reached_quorum_def)
  have sorted: "sort_key fst (map ?g bs) = map ?g sb" using map_sort_key [of ?g fst bs] by (simp add: sb_def)
  have sums: "map snd (map ?g sb) = map ?w sb" by simp
  have "mset sb = mset bs" by (simp add: sb_def)
  then have perm: "sum_list (map ?w sb) = ?T" "set sb = set bs" "distinct (map vb_author sb)"
    using assms(2) by (metis mset_map sum_mset_sum_list, metis set_mset_mset, metis mset_eq_imp_distinct_iff mset_map)
  have "?T div 2 < 0 + sum_list (map snd (map ?g sb))" "0 + sum_list (map snd (map ?g sb)) \<le> u64_max"
    unfolding sums perm(1) using q(2) max by auto
  from median_loop_split [OF _ this] obtain i where i: "i < length sb"
    "median_loop (?T div 2) (map ?g sb) 0 = Some (Some (vb_timestamp_ms (sb ! i)))"
    "sum_list (map ?w (take i sb)) \<le> ?T div 2" "?T div 2 < sum_list (map ?w (take (Suc i) sb))"
    unfolding take_map by (auto simp: comp_def)
  let ?ts = "vb_timestamp_ms (sb ! i)"
  have bs: "bs \<noteq> []" using q by auto
  have "median_timestamp_by_stake ctx bs = Some (Inr ?ts)"
    using median_stakes [OF assms(3), of 0 "[]"] max i(2) bs q(1) sorted
    by (simp add: median_timestamp_by_stake_def median_timestamps_by_stake_inner_def)
  moreover have ord: "vb_timestamp_ms (sb ! j) \<le> vb_timestamp_ms (sb ! k)" if "j \<le> k" "k < length sb" for j k
    using that sorted_nth_mono [of "map vb_timestamp_ms sb" j k] by (simp add: sb_def)
  have "\<exists>b\<in>set (take (Suc i) sb). vb_author b \<notin> F"
    using i(4) q(2) perm(3) by (intro heavy_has_honest [OF assms(5)]) (auto simp: take_map [symmetric])
  then obtain j where "j < Suc i" "vb_author (sb ! j) \<notin> F" using i(1) by (auto simp: in_set_conv_nth)
  then have low: "\<exists>b\<in>set bs. vb_author b \<notin> F \<and> vb_timestamp_ms b \<le> ?ts" using ord [of j i] i(1) perm(2)
    by (metis le_less_trans less_Suc_eq_le nth_mem)
  have "sum_list (map ?w (take i sb)) + sum_list (map ?w (drop i sb)) = ?T"
    using perm(1) by (metis append_take_drop_id map_append sum_list_append)
  then have "\<exists>b\<in>set (drop i sb). vb_author b \<notin> F"
    using i(3) q(2) perm(3) by (intro heavy_has_honest [OF assms(5)]) (auto simp: drop_map [symmetric])
  then obtain k where "k < length sb - i" "vb_author (sb ! (i + k)) \<notin> F" by (auto simp: in_set_conv_nth)
  then have "\<exists>b\<in>set bs. vb_author b \<notin> F \<and> ?ts \<le> vb_timestamp_ms b" using ord [of i "i + k"] perm(2)
    by (metis add.commute le_add1 less_diff_conv nth_mem)
  with low show ?thesis using calculation by blast
qed

subsection \<open>Recording a commit\<close>

lemma record_commit_total:
  assumes "committee_wf (ds_committee d)" and "length (ds_last_committed_rounds d) = committee_size (ds_committee d)"
    and "\<forall>r\<in>set (c_blocks (tc_inner commit)). br_author r < committee_size (ds_committee d)"
  shows "\<exists>d'. record_commit now commit adv d = Some d' \<and> ds_commits_to_write d' = ds_commits_to_write d @ [commit]
           \<and> ds_last_commit d' = Some commit"
proof -
  let ?n = "committee_size (ds_committee d)"
  have "\<exists>rounds. for_each bump_committed_round (c_blocks (tc_inner commit)) (ds_last_committed_rounds d) = Some rounds
      \<and> length rounds = ?n"
    by (rule for_each_total [where I = "\<lambda>xs. length xs = ?n"])
       (use assms(2,3) in \<open>auto simp: bump_committed_round_def vec_get_def vec_set_def\<close>)
  then obtain rounds where rounds:
    "for_each bump_committed_round (c_blocks (tc_inner commit)) (ds_last_committed_rounds d) = Some rounds" "length rounds = ?n"
    by blast
  have "map_opt (\<lambda>(i, _). do {
            index \<leftarrow> to_authority_index (ds_committee d) i;
            committee_authority (ds_committee d) index }) (enumerate 0 rounds)
      = Some (map (\<lambda>(i, _). committee_authorities (ds_committee d) ! i) (enumerate 0 rounds))"
    using assms(1) rounds(2)
    by (intro map_opt_total) (auto simp: in_set_enumerate_eq to_authority_index_def committee_authority_def vec_get_def
        committee_size_def committee_wf_def as_u32_id)
  then show ?thesis using rounds(1) by (auto simp: record_commit_def)
qed

lemma add_commit_total:
  assumes "dag_wf d" and "c_index (tc_inner commit) = last_commit_index d + 1" and "c_index (tc_inner commit) \<le> u32_max"
    and "last_commit_timestamp_ms d \<le> c_timestamp_ms (tc_inner commit)"
    and "\<forall>r\<in>set (c_blocks (tc_inner commit)). br_author r < committee_size (ds_committee d)"
  shows "\<exists>d'. add_commit now commit d = Some d' \<and> ds_commits_to_write d' = ds_commits_to_write d @ [commit]
           \<and> ds_last_commit d' = Some commit"
proof -
  have wf: "committee_wf (ds_committee d)" "length (ds_last_committed_rounds d) = committee_size (ds_committee d)"
    using assms(1) by (auto simp: dag_wf_def)
  note rec = record_commit_total [OF wf assms(5)]
  show ?thesis
  proof (cases "ds_last_commit d")
    case None
    then show ?thesis using assms(2) rec by (simp add: add_commit_def last_commit_index_def)
  next
    case (Some c)
    then have i: "c_index (tc_inner commit) = Suc (c_index (tc_inner c))"
      and t: "\<not> c_timestamp_ms (tc_inner commit) < c_timestamp_ms (tc_inner c)"
      using assms(2,4) by (simp_all add: last_commit_index_def last_commit_timestamp_ms_def)
    show ?thesis using Some rec assms(3) i t by (simp add: add_commit_def u32_add_def)
  qed
qed

subsection \<open>The state between commits\<close>

text \<open>Committed blocks are closed under ancestors above the garbage collection round, and none is
  above the last committed leader.\<close>

lemma same_dag_view_ok:
  assumes "same_dag d d'" and "view_ok d"
  shows "view_ok d'" and "gc_round d' = gc_round d" and "dag_lookup d' = dag_lookup d"
    and "ds_context d' = ds_context d" and "ds_last_commit d' = ds_last_commit d"
    and "ds_commits_to_write d' = ds_commits_to_write d"
proof -
  obtain m where m: "d' = d\<lparr>ds_recent_blocks := m\<rparr>" and ann: "annotates d d'"
    and dom: "cached_refs d' = cached_refs d" using assms(1) by (auto simp: same_dag_def)
  show gc: "gc_round d' = gc_round d" and look: "dag_lookup d' = dag_lookup d"
    using ann by (simp_all add: annotates_gc annotates_lookup)
  show ctx: "ds_context d' = ds_context d" "ds_last_commit d' = ds_last_commit d"
    "ds_commits_to_write d' = ds_commits_to_write d" using m by simp_all
  have "map_of (ds_recent_blocks d') r \<noteq> None \<longleftrightarrow> map_of (ds_recent_blocks d) r \<noteq> None" for r
    using dom by (auto simp: cached_refs_def dom_def)
  then show "view_ok d'"
    using assms(2) annotates_wf [OF ann] ctx gc look by (auto simp: view_ok_def dag_closed_def causal_def)
qed

lemma causal_star_round:
  assumes "view_ok d" and "(r, x) \<in> (causal d)\<^sup>*"
  shows "br_round x \<le> br_round r"
  using assms(2) by (induction rule: rtrancl_induct) (auto dest: causal_round_less [OF assms(1)])

text \<open>The sub-dag of a leader, as a set of references.\<close>

definition sub_dag_refs :: "dag_state \<Rightarrow> block_ref \<Rightarrow> block_ref set" where
  "sub_dag_refs d l = {r. (l, r) \<in> (causal d)\<^sup>* \<and> gc_round d < br_round r \<and> r \<notin> committed_refs d}"

lemma linearize_exact:
  assumes "view_ok d" and "commit_closed (gc_round d) (dag_lookup d) (committed_refs d)"
    and "dag_lookup d (reference l) = Some l" and "gc_round d < vb_round l" and "reference l \<notin> committed_refs d"
  shows "\<exists>d' bs. linearize_sub_dag dag_store_api l d = Some (d', bs) \<and> same_dag d d'
     \<and> sorted (map (\<lambda>b. (vb_round b, vb_author b)) bs) \<and> distinct (map reference bs)
     \<and> (\<forall>b\<in>set bs. dag_lookup d (reference b) = Some b)
     \<and> reference ` set bs = sub_dag_refs d (reference l)
     \<and> committed_refs d' = committed_refs d \<union> sub_dag_refs d (reference l)
     \<and> commit_closed (gc_round d) (dag_lookup d) (committed_refs d')"
proof -
  have gc: "bs_gc_round dag_store_api d = gc_round d" by (simp add: dag_store_api_def)
  from dag_store.linearize_sub_dag_correct [of d l, unfolded gc history_of_dag_lookup] view_ok_complete [OF assms(1)] assms(2-5)
  show ?thesis unfolding sub_dag_refs_def by fastforce
qed

subsection \<open>Timestamps of commits\<close>

definition parents_known :: "dag_state \<Rightarrow> verified_block \<Rightarrow> bool" where
  "parents_known d l \<longleftrightarrow> (\<forall>a\<in>set (vb_ancestors l). br_round a + 1 = vb_round l \<longrightarrow> dag_lookup d a \<noteq> None)"

text \<open>The parents of a leader, in the order of its links.\<close>

definition parent_blocks :: "dag_state \<Rightarrow> verified_block \<Rightarrow> verified_block list" where
  "parent_blocks d l = map (\<lambda>a. the (dag_lookup d a)) (filter (\<lambda>a. br_round a + 1 = vb_round l) (vb_ancestors l))"

lemma parent_blocks_authors:
  assumes "dag_wf d" and "parents_known d l"
  shows "map vb_author (parent_blocks d l) = map br_author (filter (\<lambda>a. br_round a + 1 = vb_round l) (vb_ancestors l))"
    and "b \<in> set (parent_blocks d l) \<Longrightarrow> dag_lookup d (reference b) = Some b \<and> reference b \<in> set (vb_ancestors l)
           \<and> vb_round b + 1 = vb_round l"
proof -
  have known: "\<exists>b. dag_lookup d a = Some b \<and> reference b = a" if "a \<in> set (vb_ancestors l)" "br_round a + 1 = vb_round l" for a
    using assms that dag_lookup_reference [OF assms(1)] by (fastforce simp: parents_known_def)
  then have author: "vb_author (the (dag_lookup d a)) = br_author a"
    if "a \<in> set (vb_ancestors l)" "br_round a + 1 = vb_round l" for a
    using that by fastforce
  then show "map vb_author (parent_blocks d l) = map br_author (filter (\<lambda>a. br_round a + 1 = vb_round l) (vb_ancestors l))"
    by (simp add: parent_blocks_def)
  assume "b \<in> set (parent_blocks d l)"
  then obtain a where "a \<in> set (vb_ancestors l)" "br_round a + 1 = vb_round l" "b = the (dag_lookup d a)"
    by (auto simp: parent_blocks_def)
  then show "dag_lookup d (reference b) = Some b \<and> reference b \<in> set (vb_ancestors l) \<and> vb_round b + 1 = vb_round l"
    using known [of a] by (metis br_round_reference option.sel)
qed

lemma commit_timestamp_honest:
  assumes "view_ok d" and "well_linked (ds_committee d) l" and "0 < vb_round l" and "parents_known d l"
    and "faulty_ok (ds_committee d) F"
  shows "\<exists>ts. calculate_commit_timestamp (ds_context d) dag_store_api d l prev = Some (max ts prev)
     \<and> (\<exists>b\<in>set (parent_blocks d l). vb_author b \<notin> F \<and> vb_timestamp_ms b \<le> ts)
     \<and> (\<exists>b\<in>set (parent_blocks d l). vb_author b \<notin> F \<and> ts \<le> vb_timestamp_ms b)"
proof -
  let ?c = "ds_committee d" and ?P = "\<lambda>a. br_round a + 1 = vb_round l"
  note authors = parent_blocks_authors [OF view_okD(1) [OF assms(1)] assms(4)]
  have refs: "filter_opt (\<lambda>a. do { parent_round \<leftarrow> checked_sub (vb_round l) 1; Some (br_round a = parent_round) }) (vb_ancestors l)
      = Some (filter ?P (vb_ancestors l))"
    using assms(3) by (intro filter_opt_total) (auto simp: checked_sub_def)
  have blocks: "map_opt id (map (dag_lookup d) (filter ?P (vb_ancestors l))) = Some (parent_blocks d l)"
    unfolding parent_blocks_def using assms(4) by (intro map_opt_id) (auto simp: parents_known_def)
  have wl: "\<forall>a\<in>set (vb_ancestors l). br_author a < committee_size ?c" "distinct (map br_author (vb_ancestors l))"
    "reached_quorum ?c (stake_of ?c (br_author ` {a \<in> set (vb_ancestors l). ?P a}))"
    using assms(2) by (auto simp: well_linked_def parent_stake_def)
  have dist: "distinct (map vb_author (parent_blocks d l))"
    unfolding authors(1) using wl(2) by (auto simp: distinct_map intro: inj_on_subset)
  have sets: "vb_author ` set (parent_blocks d l) = br_author ` {a \<in> set (vb_ancestors l). ?P a}"
    using arg_cong [OF authors(1), of set] by simp
  have valid: "\<forall>b\<in>set (parent_blocks d l). vb_author b < committee_size ?c"
    using wl(1) authors(2) by (metis br_author_reference)
  from median_honest [OF view_okD(3) [OF assms(1)] dist valid _ assms(5)] wl(3) sets obtain ts where
    "median_timestamp_by_stake (ds_context d) (parent_blocks d l) = Some (Inr ts)"
    "\<exists>b\<in>set (parent_blocks d l). vb_author b \<notin> F \<and> vb_timestamp_ms b \<le> ts"
    "\<exists>b\<in>set (parent_blocks d l). vb_author b \<notin> F \<and> ts \<le> vb_timestamp_ms b" by auto
  then show ?thesis
    using refs blocks dag_store.get_blocks_law by (auto simp: calculate_commit_timestamp_def)
qed

subsection \<open>One commit\<close>

text \<open>What makes a leader block ready to be committed.\<close>

definition leader_ready :: "dag_state \<Rightarrow> verified_block \<Rightarrow> bool" where
  "leader_ready d l \<longleftrightarrow> dag_lookup d (reference l) = Some l \<and> parents_known d l"

definition commit_follows :: "dag_state \<Rightarrow> verified_block \<Rightarrow> committed_sub_dag \<Rightarrow> trusted_commit \<Rightarrow> bool" where
  "commit_follows d l sd c \<longleftrightarrow>
     csd_leader sd = reference l \<and> csd_commit_ref sd = tc_reference c
   \<and> c_index (tc_inner c) = last_commit_index d + 1 \<and> c_previous_digest (tc_inner c) = last_commit_digest d
   \<and> c_leader (tc_inner c) = reference l \<and> c_blocks (tc_inner c) = map reference (csd_blocks sd)
   \<and> c_timestamp_ms (tc_inner c) = csd_timestamp_ms sd \<and> last_commit_timestamp_ms d \<le> csd_timestamp_ms sd
   \<and> distinct (map reference (csd_blocks sd)) \<and> reference ` set (csd_blocks sd) = sub_dag_refs d (reference l)"

lemma collect_correct:
  assumes "view_ok d" and "commits_ok d" and "leader_ready d l" and "last_commit_round d < vb_round l"
    and "last_commit_index d < u32_max" and "\<forall>c. \<exists>bs. bcs_commit cr c = Inr bs"
    and "lin_context lin = ds_context d"
  shows "\<exists>d1 sd c. collect_sub_dag_and_commit cr lin l d = Some (d1, sd, c) \<and> same_dag d d1
     \<and> commit_follows d l sd c \<and> committed_refs d1 = committed_refs d \<union> sub_dag_refs d (reference l)
     \<and> commit_closed (gc_round d) (dag_lookup d) (committed_refs d1)
     \<and> (\<forall>b\<in>set (csd_blocks sd). dag_lookup d (reference b) = Some b)"
proof -
  have gc: "gc_round d < vb_round l" using gc_round_le [of d] assms(4) by simp
  have l: "dag_lookup d (reference l) = Some l" "parents_known d l" using assms(3) by (auto simp: leader_ready_def)
  have "reference l \<notin> committed_refs d" using assms(2,4) by (fastforce simp: commits_ok_def)
  with linearize_exact [OF assms(1) _ l(1) gc] assms(2) obtain d1 bs where
    lin: "linearize_sub_dag dag_store_api l d = Some (d1, bs)" "same_dag d d1" "distinct (map reference bs)"
      "\<forall>b\<in>set bs. dag_lookup d (reference b) = Some b" "reference ` set bs = sub_dag_refs d (reference l)"
      "committed_refs d1 = committed_refs d \<union> sub_dag_refs d (reference l)"
      "commit_closed (gc_round d) (dag_lookup d) (committed_refs d1)" by (auto simp: commits_ok_def)
  note same = same_dag_view_ok [OF lin(2) assms(1)]
  have "well_linked (ds_committee d1) l" using view_ok_block(2) [OF assms(1) l(1)] gc same(4) by simp
  moreover have "parents_known d1 l" using l(2) same(3) by (simp add: parents_known_def)
  moreover have "faulty_ok (ds_committee d1) {}" by (simp add: faulty_ok_def stake_of_def)
  ultimately obtain ts where ts:
    "calculate_commit_timestamp (ds_context d) dag_store_api d1 l (last_commit_timestamp_ms d) = Some (max ts (last_commit_timestamp_ms d))"
    using commit_timestamp_honest [OF same(1), of l "{}" "last_commit_timestamp_ms d"] gc same(4) by auto
  let ?commit = "Commit_new (last_commit_index d + 1) (last_commit_digest d) (max ts (last_commit_timestamp_ms d))
      (reference l) (map reference bs)"
  from assms(6) obtain ser where ser: "bcs_commit cr ?commit = Inr ser" by blast
  let ?t = "new_trusted cr ?commit ser"
  let ?sd = "CommittedSubDag_new (reference l) bs (max ts (last_commit_timestamp_ms d)) (tc_reference ?t)"
  have "collect_sub_dag_and_commit cr lin l d = Some (d1, ?sd, ?t)"
    using lin(1) ts ser assms(5,7) by (simp add: collect_sub_dag_and_commit_def u32_add_def Let_def)
  moreover have "commit_follows d l ?sd ?t"
    using lin(3,5) by (simp add: commit_follows_def CommittedSubDag_new_def new_trusted_def Commit_new_def)
  ultimately show ?thesis using lin(2,4,6,7) by (auto simp: CommittedSubDag_new_def)
qed

lemma pruned_metric_total:
  assumes "dag_wf d" and "lin_context lin = ds_context d"
    and "\<forall>b\<in>set (csd_blocks sd). \<forall>a\<in>set (vb_ancestors b). br_author a < committee_size (ds_committee d)"
  shows "update_blocks_pruned_metric lin sd d = Some ()"
proof -
  let ?rounds = "ds_last_committed_rounds d" and ?refs = "concat (map vb_ancestors (csd_blocks sd))"
  have len: "length ?rounds = committee_size (ds_committee d)" using assms(1) by (simp add: dag_wf_def)
  have valid: "br_author a < committee_size (ds_committee d)" if "a \<in> set ?refs" for a using that assms(3) by auto
  let ?P = "\<lambda>a. br_round a \<le> gc_round d \<and> ?rounds ! br_author a \<noteq> br_round a"
  have "filter_opt (\<lambda>a. if br_round a \<le> gc_round d
         then do { last_round \<leftarrow> vec_get ?rounds (br_author a); Some (last_round \<noteq> br_round a) }
         else Some False) ?refs = Some (filter ?P ?refs)"
    using valid len by (intro filter_opt_total) (auto simp: vec_get_def)
  moreover have "for_each (\<lambda>a _. do {
         _ \<leftarrow> committee_authority (ctx_committee (lin_context lin)) (br_author a);
         _ \<leftarrow> vec_get ?rounds (br_author a);
         Some () }) (remdups (filter ?P ?refs)) () = Some (fold (\<lambda>_ _. ()) (remdups (filter ?P ?refs)) ())"
    using valid len assms(2)
    by (intro for_each_fold) (auto simp: vec_get_def committee_authority_def committee_size_def)
  ultimately show ?thesis by (simp add: update_blocks_pruned_metric_def)
qed

lemma commit_leader_correct:
  assumes "view_ok d" and "commits_ok d" and "leader_ready d l" and "last_commit_round d < vb_round l"
    and "last_commit_index d < u32_max" and "\<forall>c. \<exists>bs. bcs_commit cr c = Inr bs"
    and "lin_context lin = ds_context d"
  shows "\<exists>d' sd c. commit_leader cr lin now l (d, sds) = Some (d', sds @ [sd]) \<and> commit_follows d l sd c
     \<and> view_ok d' \<and> commits_ok d' \<and> ds_context d' = ds_context d \<and> dag_lookup d' = dag_lookup d
     \<and> ds_last_commit d' = Some c \<and> ds_commits_to_write d' = ds_commits_to_write d @ [c]
     \<and> committed_refs d' = committed_refs d \<union> sub_dag_refs d (reference l)"
proof -
  from collect_correct [OF assms] obtain d1 sd c where
    col: "collect_sub_dag_and_commit cr lin l d = Some (d1, sd, c)" "same_dag d d1" "commit_follows d l sd c"
      "committed_refs d1 = committed_refs d \<union> sub_dag_refs d (reference l)"
      "commit_closed (gc_round d) (dag_lookup d) (committed_refs d1)"
      "\<forall>b\<in>set (csd_blocks sd). dag_lookup d (reference b) = Some b" by blast
  note same = same_dag_view_ok [OF col(2) assms(1)]
  have refs: "reference ` set (csd_blocks sd) = sub_dag_refs d (reference l)" using col(3) by (simp add: commit_follows_def)
  have block: "well_linked (ds_committee d) b" "vb_author b < committee_size (ds_committee d)" if "b \<in> set (csd_blocks sd)" for b
  proof -
    have "gc_round d < br_round (reference b)"
      using refs that by (metis (mono_tags, lifting) image_eqI mem_Collect_eq sub_dag_refs_def)
    then show "well_linked (ds_committee d) b" "vb_author b < committee_size (ds_committee d)"
      using view_ok_block(2) [OF assms(1), of "reference b" b] view_ok_author [OF assms(1), of b] col(6) that by simp_all
  qed
  have metric: "update_blocks_pruned_metric lin sd d1 = Some ()"
    using block(1) same(4) assms(7) by (intro pruned_metric_total [OF view_okD(1) [OF same(1)]]) (auto simp: well_linked_def)
  have last: "last_commit_index d1 = last_commit_index d" "last_commit_timestamp_ms d1 = last_commit_timestamp_ms d"
    "last_commit_round d1 = last_commit_round d"
    using same(5) by (simp_all add: last_commit_index_def last_commit_timestamp_ms_def last_commit_round_def)
  have blocks: "c_blocks (tc_inner c) = map reference (csd_blocks sd)" using col(3) by (simp add: commit_follows_def)
  have "\<forall>r\<in>set (c_blocks (tc_inner c)). br_author r < committee_size (ds_committee d1)"
    unfolding blocks using block(2) same(4) by simp
  then have "\<exists>d'. add_commit now c d1 = Some d' \<and> ds_commits_to_write d' = ds_commits_to_write d1 @ [c] \<and> ds_last_commit d' = Some c"
    using col(3) last assms(5) by (intro add_commit_total [OF view_okD(1) [OF same(1)]]) (auto simp: commit_follows_def)
  then obtain d' where d': "add_commit now c d1 = Some d'" "ds_commits_to_write d' = ds_commits_to_write d1 @ [c]"
    "ds_last_commit d' = Some c" by blast
  have leader: "br_round (c_leader (tc_inner c)) = vb_round l" using col(3) by (simp add: commit_follows_def)
  have ok: "view_ok d'" "ds_context d' = ds_context d1"
    using view_ok_commit [OF same(1) _ d'(1)] leader last(3) assms(4) by auto
  have keep: "ds_recent_blocks d' = ds_recent_blocks d1" "dag_lookup d' = dag_lookup d1"
    using add_commit_fields [OF d'(1)] by (auto simp: dag_lookup_def fun_eq_iff cong: option.case_cong)
  have com: "committed_refs d' = committed_refs d1" using keep(1) by (simp add: committed_refs_def is_committed_def)
  have round: "last_commit_round d' = vb_round l" using d'(3) leader by (simp add: last_commit_round_def)
  have "gc_round d \<le> gc_round d'"
    using assms(4) round ok(2) same(4) by (simp add: gc_round_def calculate_gc_round_def)
  then have "commits_ok d'"
    unfolding commits_ok_def com keep(2) same(3) round
    using commit_closed_mono [OF col(5)] assms(2,4) col(4) causal_star_round [OF assms(1), of "reference l"]
    by (fastforce simp: commits_ok_def sub_dag_refs_def)
  then show ?thesis
    using col metric d' ok keep com same by (auto simp: commit_leader_def)
qed

subsection \<open>Sequences of commits\<close>

fun chained :: "commit_index \<Rightarrow> digest \<Rightarrow> timestamp_ms \<Rightarrow> trusted_commit list \<Rightarrow> bool" where
  "chained i dg ts [] \<longleftrightarrow> True"
| "chained i dg ts (c # cs) \<longleftrightarrow> c_index (tc_inner c) = i + 1 \<and> c_previous_digest (tc_inner c) = dg
     \<and> ts \<le> c_timestamp_ms (tc_inner c)
     \<and> chained (i + 1) (tc_digest c) (c_timestamp_ms (tc_inner c)) cs"

abbreviation sub_dag_blocks :: "committed_sub_dag list \<Rightarrow> block_ref list" where
  "sub_dag_blocks sds \<equiv> concat (map (\<lambda>sd. map reference (csd_blocks sd)) sds)"

definition leaders_ready :: "dag_state \<Rightarrow> verified_block list \<Rightarrow> bool" where
  "leaders_ready d ls \<longleftrightarrow> (\<forall>l\<in>set ls. leader_ready d l \<and> last_commit_round d < vb_round l)
     \<and> sorted_wrt (\<lambda>l l'. vb_round l < vb_round l') ls \<and> last_commit_index d + length ls \<le> u32_max"

lemma commit_leaders_chain:
  assumes "view_ok d" and "commits_ok d" and "leaders_ready d ls" and "\<forall>c. \<exists>bs. bcs_commit cr c = Inr bs"
    and "lin_context lin = ds_context d"
  shows "\<exists>d' sds cs. for_each (commit_leader cr lin now) ls (d, acc) = Some (d', acc @ sds)
     \<and> view_ok d' \<and> commits_ok d' \<and> ds_context d' = ds_context d \<and> dag_lookup d' = dag_lookup d
     \<and> ds_commits_to_write d' = ds_commits_to_write d @ cs
     \<and> chained (last_commit_index d) (last_commit_digest d) (last_commit_timestamp_ms d) cs
     \<and> map csd_leader sds = map reference ls \<and> map csd_commit_ref sds = map tc_reference cs
     \<and> map (\<lambda>c. c_blocks (tc_inner c)) cs = map (\<lambda>sd. map reference (csd_blocks sd)) sds
     \<and> distinct (sub_dag_blocks sds) \<and> set (sub_dag_blocks sds) \<inter> committed_refs d = {}
     \<and> committed_refs d' = committed_refs d \<union> set (sub_dag_blocks sds)
     \<and> (\<forall>l\<in>set ls. reference l \<in> set (sub_dag_blocks sds))"
  using assms
proof (induction ls arbitrary: d acc)
  case Nil
  then show ?case by (intro exI [of _ d] exI [of _ "[]"]) simp
next
  case (Cons l ls)
  have l: "leader_ready d l" "last_commit_round d < vb_round l" "last_commit_index d < u32_max"
    using Cons.prems(3) by (auto simp: leaders_ready_def)
  from commit_leader_correct [OF Cons.prems(1,2) l Cons.prems(4,5), of now acc] obtain d1 sd c where
    1: "commit_leader cr lin now l (d, acc) = Some (d1, acc @ [sd])" "commit_follows d l sd c" "view_ok d1" "commits_ok d1"
      "ds_context d1 = ds_context d" "dag_lookup d1 = dag_lookup d" "ds_last_commit d1 = Some c"
      "ds_commits_to_write d1 = ds_commits_to_write d @ [c]"
      "committed_refs d1 = committed_refs d \<union> sub_dag_refs d (reference l)" by blast
  note f = 1(2) [unfolded commit_follows_def]
  have last: "last_commit_index d1 = last_commit_index d + 1" "last_commit_digest d1 = tc_digest c"
    "last_commit_timestamp_ms d1 = c_timestamp_ms (tc_inner c)" "last_commit_round d1 = vb_round l"
    using 1(7) f by (simp_all add: last_commit_index_def last_commit_digest_def last_commit_timestamp_ms_def last_commit_round_def)
  have "leaders_ready d1 ls"
    using Cons.prems(3) last(1,4) 1(6) by (auto simp: leaders_ready_def leader_ready_def parents_known_def)
  from Cons.IH [OF 1(3,4) this Cons.prems(4), of "acc @ [sd]"] Cons.prems(5) 1(5) obtain d' sds cs where
    2: "for_each (commit_leader cr lin now) ls (d1, acc @ [sd]) = Some (d', (acc @ [sd]) @ sds)"
      "view_ok d'" "commits_ok d'" "ds_context d' = ds_context d1" "dag_lookup d' = dag_lookup d1"
      "ds_commits_to_write d' = ds_commits_to_write d1 @ cs"
      "chained (last_commit_index d1) (last_commit_digest d1) (last_commit_timestamp_ms d1) cs"
      "map csd_leader sds = map reference ls" "map csd_commit_ref sds = map tc_reference cs"
      "map (\<lambda>c. c_blocks (tc_inner c)) cs = map (\<lambda>sd. map reference (csd_blocks sd)) sds"
      "distinct (sub_dag_blocks sds)" "set (sub_dag_blocks sds) \<inter> committed_refs d1 = {}"
      "committed_refs d' = committed_refs d1 \<union> set (sub_dag_blocks sds)"
      "\<forall>l\<in>set ls. reference l \<in> set (sub_dag_blocks sds)" by auto
  have own: "reference l \<in> reference ` set (csd_blocks sd)"
    using f l(1,2) gc_round_le [of d] Cons.prems(2) by (fastforce simp: sub_dag_refs_def commits_ok_def)
  have refs: "reference ` set (csd_blocks sd) = sub_dag_refs d (reference l)" using f by simp
  let ?X = "set (sub_dag_blocks sds)" and ?S = "set (map reference (csd_blocks sd))"
  have S: "?S = sub_dag_refs d (reference l)" using refs by simp
  have "?X \<inter> ?S = {}" "?X \<inter> committed_refs d = {}" using 2(12) 1(9) S by blast+
  moreover have "?S \<inter> committed_refs d = {}" unfolding S by (auto simp: sub_dag_refs_def)
  moreover have blocks: "sub_dag_blocks (sd # sds) = map reference (csd_blocks sd) @ sub_dag_blocks sds" by simp
  ultimately have "distinct (sub_dag_blocks (sd # sds))" "set (sub_dag_blocks (sd # sds)) \<inter> committed_refs d = {}"
    "committed_refs d' = committed_refs d \<union> set (sub_dag_blocks (sd # sds))"
    "\<forall>x\<in>set (l # ls). reference x \<in> set (sub_dag_blocks (sd # sds))"
    unfolding blocks distinct_append set_append using 2(11,13,14) 1(9) f S own by (blast, blast, blast, simp)
  moreover have "chained (last_commit_index d) (last_commit_digest d) (last_commit_timestamp_ms d) (c # cs)"
    using f 2(7) last by simp
  moreover have "for_each (commit_leader cr lin now) (l # ls) (d, acc) = Some (d', acc @ sd # sds)" using 1(1) 2(1) by simp
  moreover have "ds_commits_to_write d' = ds_commits_to_write d @ c # cs" using 1(8) 2(6) by simp
  moreover have "ds_context d' = ds_context d" "dag_lookup d' = dag_lookup d" using 1(5,6) 2(4,5) by simp_all
  moreover have "map csd_leader (sd # sds) = map reference (l # ls)" "map csd_commit_ref (sd # sds) = map tc_reference (c # cs)"
    "map (\<lambda>c. c_blocks (tc_inner c)) (c # cs) = map (\<lambda>sd. map reference (csd_blocks sd)) (sd # sds)"
    using 2(8-10) f by simp_all
  ultimately show ?case using 2(2,3) by (intro exI [of _ d'] exI [of _ "sd # sds"] exI [of _ "c # cs"] conjI)
qed

subsection \<open>Properties\<close>

text \<open>
  C10. The commit timestamp is bounded by honest clocks: for parents by distinct authorities that
  reach a quorum the stake-weighted median is defined, and whatever timestamps authorities of at
  most \<open>f\<close> stake choose, it lies between timestamps of two honest authorities.
\<close>

theorem median_timestamp_between_honest_timestamps:
  assumes "committee_wf (ctx_committee ctx)" and "distinct (map vb_author bs)"
    and "\<forall>b\<in>set bs. vb_author b < committee_size (ctx_committee ctx)"
    and "reached_quorum (ctx_committee ctx) (stake_of (ctx_committee ctx) (vb_author ` set bs))"
    and "faulty_ok (ctx_committee ctx) F"
  shows "\<exists>ts. median_timestamp_by_stake ctx bs = Some (Inr ts)
     \<and> (\<exists>b\<in>set bs. vb_author b \<notin> F \<and> vb_timestamp_ms b \<le> ts)
     \<and> (\<exists>b\<in>set bs. vb_author b \<notin> F \<and> ts \<le> vb_timestamp_ms b)"
  by (rule median_honest [OF assms])

theorem median_timestamp_between_honest_timestamps_witness:
  "\<exists>ts. median_timestamp_by_stake sample_context (full_round 2) = Some (Inr ts) \<and> 22 \<le> ts \<and> ts \<le> 23"
proof -
  let ?F = "{1} :: nat set"
  have set: "vb_author ` set (full_round 2) = {1, 2, 3}" by (auto simp: full_round_def)
  have F: "faulty_ok sample_committee ?F" by (simp add: faulty_ok_def sample_stake_of fault_tolerance_def)
  have "\<exists>ts. median_timestamp_by_stake sample_context (full_round 2) = Some (Inr ts)
     \<and> (\<exists>b\<in>set (full_round 2). vb_author b \<notin> ?F \<and> vb_timestamp_ms b \<le> ts)
     \<and> (\<exists>b\<in>set (full_round 2). vb_author b \<notin> ?F \<and> ts \<le> vb_timestamp_ms b)"
    by (rule median_timestamp_between_honest_timestamps)
       (use F sample_quorum set in \<open>auto simp: sample_committee_wf full_round_def\<close>)
  then show ?thesis by (auto simp: full_round_def full_block_def)
qed

text \<open>
  C8. Linearizing an uncommitted leader ends and returns exactly the uncommitted blocks of its
  causal history above the garbage collection round, each once, sorted by round and author and
  thus every block after its ancestors; exactly these blocks become committed.
\<close>

theorem sub_dag_is_uncommitted_history:
  assumes "view_ok d" and "commits_ok d" and "dag_lookup d (reference l) = Some l" and "last_commit_round d < vb_round l"
  shows "\<exists>d' bs. linearize_sub_dag dag_store_api l d = Some (d', bs)
     \<and> distinct (map reference bs) \<and> (\<forall>b\<in>set bs. get_block d (reference b) = Some (Some b))
     \<and> reference ` set bs = {r. (reference l, r) \<in> (causal d)\<^sup>* \<and> gc_round d < br_round r \<and> is_committed d r \<noteq> Some True}
     \<and> sorted (map (\<lambda>b. (vb_round b, vb_author b)) bs)
     \<and> (\<forall>i j. i \<le> j \<and> j < length bs \<longrightarrow> reference (bs ! j) \<notin> set (vb_ancestors (bs ! i)))
     \<and> (\<forall>r. is_committed d' r = Some True \<longleftrightarrow> is_committed d r = Some True \<or> r \<in> reference ` set bs)"
proof -
  have "gc_round d < vb_round l" using gc_round_le [of d] assms(4) by simp
  moreover have "reference l \<notin> committed_refs d" using assms(2,4) by (fastforce simp: commits_ok_def)
  ultimately obtain d' bs where
    lin: "linearize_sub_dag dag_store_api l d = Some (d', bs)" "sorted (map (\<lambda>b. (vb_round b, vb_author b)) bs)"
      "distinct (map reference bs)" "\<forall>b\<in>set bs. dag_lookup d (reference b) = Some b"
      "reference ` set bs = sub_dag_refs d (reference l)"
      "committed_refs d' = committed_refs d \<union> sub_dag_refs d (reference l)"
    using linearize_exact [OF assms(1) _ assms(3)] assms(2) by (auto simp: commits_ok_def)
  have "reference (bs ! j) \<notin> set (vb_ancestors (bs ! i))" if "i \<le> j" "j < length bs" for i j
  proof
    assume "reference (bs ! j) \<in> set (vb_ancestors (bs ! i))"
    then have "(reference (bs ! i), reference (bs ! j)) \<in> causal d"
      using lin(4) that by (intro causalI) auto
    then have "vb_round (bs ! j) < vb_round (bs ! i)" using causal_round_less [OF assms(1)] by fastforce
    moreover have "vb_round (bs ! i) \<le> vb_round (bs ! j)"
      using sorted_nth_mono [OF lin(2), of i j] that by auto
    ultimately show False by simp
  qed
  then show ?thesis
    using lin by (intro exI [of _ d'] exI [of _ bs]) (auto simp: get_block_eq sub_dag_refs_def committed_refs_def)
qed

lemma sample_known:
  assumes "sample_state d" and "r \<in> {1, 2, 3}" and "a \<in> {1, 2, 3}"
  shows "dag_lookup d (sample_ref r a) = Some (full_block r a)"
proof -
  have "full_block r a \<in> set sample_blocks" using assms(2,3) by (auto simp: set_sample_blocks)
  then show ?thesis using assms by (auto simp: sample_state_def)
qed

theorem sub_dag_is_uncommitted_history_witness:
  "\<exists>d d' bs. sample_state d \<and> linearize_sub_dag dag_store_api (full_block 3 1) d = Some (d', bs)
     \<and> sample_ref 3 1 \<in> reference ` set bs \<and> sorted (map (\<lambda>b. (vb_round b, vb_author b)) bs)"
proof -
  from sample_state_exists obtain d where d: "sample_state d" by blast
  have known: "dag_lookup d (reference (full_block 3 1)) = Some (full_block 3 1)" using sample_known [OF d] by simp
  have round: "last_commit_round d < vb_round (full_block 3 1)" using sample_gc [OF d] by simp
  from sub_dag_is_uncommitted_history [OF sample_view_ok [OF d] sample_no_commits(2) [OF d] known round]
  obtain d' bs where "linearize_sub_dag dag_store_api (full_block 3 1) d = Some (d', bs)"
    "reference ` set bs = {r. (reference (full_block 3 1), r) \<in> (causal d)\<^sup>* \<and> gc_round d < br_round r
       \<and> is_committed d r \<noteq> Some True}"
    "sorted (map (\<lambda>b. (vb_round b, vb_author b)) bs)"
    by (elim exE conjE) (rule that)
  moreover have "is_committed d (sample_ref 3 1) \<noteq> Some True"
    using sample_no_commits(1) [OF d] by (auto simp: committed_refs_def)
  ultimately show ?thesis using d sample_gc [OF d] by (intro exI [of _ d] exI [of _ d'] exI [of _ bs]) simp
qed

text \<open>
  C7. Handling committed leaders of increasing rounds never panics and extends the chain: one
  commit per leader, with consecutive indices, each pointing to the digest of the commit before
  it, with timestamps that never decrease; the sub-dags are disjoint from each other and from
  everything committed before, contain their leaders, and the state stays valid.
\<close>

theorem handle_commit_extends_chain:
  assumes "view_ok d" and "commits_ok d" and "leaders_ready d ls" and "\<forall>c. \<exists>bs. bcs_commit cr c = Inr bs"
  shows "\<exists>d' sds cs. handle_commit cr (Linearizer_new (ds_context d)) now ls d = Some (d', sds)
     \<and> view_ok d' \<and> commits_ok d' \<and> ds_commits_to_write d' = ds_commits_to_write d @ cs
     \<and> chained (last_commit_index d) (last_commit_digest d) (last_commit_timestamp_ms d) cs
     \<and> map csd_leader sds = map reference ls \<and> map csd_commit_ref sds = map tc_reference cs
     \<and> map (\<lambda>c. c_blocks (tc_inner c)) cs = map (\<lambda>sd. map reference (csd_blocks sd)) sds
     \<and> distinct (sub_dag_blocks sds) \<and> set (sub_dag_blocks sds) \<inter> committed_refs d = {}
     \<and> (\<forall>l\<in>set ls. reference l \<in> set (sub_dag_blocks sds))"
proof -
  have eq: "handle_commit cr (Linearizer_new (ds_context d)) now ls d
      = for_each (commit_leader cr (Linearizer_new (ds_context d)) now) ls (d, [])"
    by (simp add: handle_commit_def)
  have "lin_context (Linearizer_new (ds_context d)) = ds_context d" by (simp add: Linearizer_new_def)
  from commit_leaders_chain [OF assms this, of now "[]"] show ?thesis unfolding eq append_Nil by blast
qed

theorem handle_commit_extends_chain_witness:
  "\<exists>d d' sds cs. sample_state d
     \<and> handle_commit sample_crypto (Linearizer_new sample_context) 0 [full_block 2 3, full_block 3 3] d = Some (d', sds)
     \<and> chained 0 Digest_MIN 0 cs \<and> ds_commits_to_write d' = ds_commits_to_write d @ cs
     \<and> map csd_leader sds = [sample_ref 2 3, sample_ref 3 3]"
proof -
  from sample_state_exists obtain d where d: "sample_state d" by blast
  note gc = sample_gc [OF d] and known = sample_known [OF d]
  have ctx: "ds_context d = sample_context" and none: "ds_last_commit d = None" using d by (simp_all add: sample_state_def)
  have "leader_ready d (full_block r 3)" if "r \<in> {2, 3}" for r
  proof -
    have "r \<in> {1, 2, 3}" "r - 1 \<in> {1, 2, 3}" using that by auto
    then have "dag_lookup d (sample_ref (r - 1) a) \<noteq> None" if "a \<in> {1, 2, 3}" for a using known that by simp
    then show ?thesis using known \<open>r \<in> {1, 2, 3}\<close> by (simp add: leader_ready_def parents_known_def)
  qed
  then have ready: "leaders_ready d [full_block 2 3, full_block 3 3]"
    using gc none by (simp add: leaders_ready_def last_commit_index_def u32_max_def)
  have bcs: "\<forall>c. \<exists>bs. bcs_commit sample_crypto c = Inr bs" by (simp add: sample_crypto_def)
  from handle_commit_extends_chain [OF sample_view_ok [OF d] sample_no_commits(2) [OF d] ready bcs, of 0]
  obtain d' sds cs where
    "handle_commit sample_crypto (Linearizer_new (ds_context d)) 0 [full_block 2 3, full_block 3 3] d = Some (d', sds)"
    "ds_commits_to_write d' = ds_commits_to_write d @ cs"
    "chained (last_commit_index d) (last_commit_digest d) (last_commit_timestamp_ms d) cs"
    "map csd_leader sds = map reference [full_block 2 3, full_block 3 3]"
    by (elim exE conjE) (rule that)
  then show ?thesis
    using d by (intro exI [of _ d] exI [of _ d'] exI [of _ sds] exI [of _ cs])
      (simp add: ctx none last_commit_index_def last_commit_digest_def last_commit_timestamp_ms_def)
qed

end
