(* ===== verification/Commit_Determinism.thy ===== *)
theory Commit_Determinism
  imports Commit_Chain
begin

text \<open>
  Committing is deterministic across validators: the sub-dag of a leader, its order, its timestamp
  and the digest of its commit depend only on the blocks above the garbage collection round, on what
  has been committed of them, and on the last commit. Two validators that agree on these produce the
  same committed sub-dags, although they store, cache and evict different blocks.
\<close>

section \<open>Linearizing in two stores\<close>

definition stores_agree ::
    "round \<Rightarrow> (block_ref \<rightharpoonup> verified_block) \<Rightarrow> block_ref set \<Rightarrow> (block_ref \<rightharpoonup> verified_block) \<Rightarrow> block_ref set \<Rightarrow> bool" where
  "stores_agree gc blk C blk' C' \<longleftrightarrow> (\<forall>r b b'. blk r = Some b \<longrightarrow> blk' r = Some b' \<longrightarrow> b = b')
     \<and> (\<forall>r. gc < br_round r \<longrightarrow> (r \<in> C \<longleftrightarrow> r \<in> C'))"

lemma same_references:
  assumes "map reference as = map reference bs"
    and "\<And>x. x \<in> set as \<Longrightarrow> blk (reference x) = Some x" and "\<And>x. x \<in> set bs \<Longrightarrow> blk' (reference x) = Some x"
    and "\<And>r b b'. blk r = Some b \<Longrightarrow> blk' r = Some b' \<Longrightarrow> b = b'"
  shows "as = bs"
proof (rule nth_equalityI)
  show len: "length as = length bs" using assms(1) by (metis length_map)
  fix i assume i: "i < length as"
  then have "reference (as ! i) = reference (bs ! i)" using assms(1) len by (metis nth_map)
  then show "as ! i = bs ! i" using assms(2-4) i len by (metis nth_mem)
qed

context block_store
begin

lemma uncommitted_ancestors_agree:
  assumes "complete_above gc (blocks s) (tracked s)" and "complete_above gc (blocks t) (tracked t)"
    and "blocks s (reference x) = Some x" and "blocks t (reference x) = Some x" and "gc < vb_round x"
    and "stores_agree gc (blocks s) (committed s) (blocks t) (committed t)"
    and "uncommitted_ancestors api gc s x = Some as"
  shows "uncommitted_ancestors api gc t x = Some as"
proof -
  from uncommitted_ancestors_correct [OF assms(1,3,5)] assms(7) have 1:
    "map reference as = filter (\<lambda>a. gc < br_round a \<and> a \<notin> committed s) (vb_ancestors x)"
    "\<And>a. a \<in> set as \<Longrightarrow> blocks s (reference a) = Some a" by auto
  from uncommitted_ancestors_correct [OF assms(2,4,5)] obtain bs where 2:
    "uncommitted_ancestors api gc t x = Some bs"
    "map reference bs = filter (\<lambda>a. gc < br_round a \<and> a \<notin> committed t) (vb_ancestors x)"
    "\<And>a. a \<in> set bs \<Longrightarrow> blocks t (reference a) = Some a" by blast
  have "filter (\<lambda>a. gc < br_round a \<and> a \<notin> committed s) (vb_ancestors x)
      = filter (\<lambda>a. gc < br_round a \<and> a \<notin> committed t) (vb_ancestors x)"
    using assms(6) by (intro filter_cong) (auto simp: stores_agree_def)
  then have "as = bs"
    using assms(6) by (intro same_references [OF _ 1(2) 2(3)]) (auto simp: 1 2 stores_agree_def)
  then show ?thesis using 2(1) by simp
qed

lemma linearize_loop_agree:
  assumes "complete_above gc (blocks s) (tracked s)" and "complete_above gc (blocks t) (tracked t)"
    and "buffer_ok gc (blocks s) (committed s) buffer" and "buffer_ok gc (blocks t) (committed t) buffer"
    and "stores_agree gc (blocks s) (committed s) (blocks t) (committed t)"
  shows "\<exists>s' t' out. linearize_loop api gc s buffer to_commit = Some (s', out)
     \<and> linearize_loop api gc t buffer to_commit = Some (t', out)
     \<and> stores_agree gc (blocks s) (committed s') (blocks t) (committed t')"
  using assms
proof (induction "card (tracked s - committed s) + length buffer" arbitrary: s t buffer to_commit rule: less_induct)
  case less
  show ?case
  proof (cases buffer)
    case Nil
    then show ?thesis using less.prems(5) by (simp add: linearize_loop.simps)
  next
    case (Cons x rest)
    from linearize_step_correct [OF less.prems(1)] less.prems(3) Cons obtain as s1 where
      s1: "uncommitted_ancestors api gc s x = Some as" "push_committed api as s rest = Some (s1, rev as @ rest)"
        "frame s s1" "committed s1 = committed s \<union> reference ` set as"
        "buffer_ok gc (blocks s) (committed s1) (rev as @ rest)"
        "card (tracked s - committed s1) + length as = card (tracked s - committed s)" by blast
    from linearize_step_correct [OF less.prems(2)] less.prems(4) Cons obtain bs t1 where
      t1: "uncommitted_ancestors api gc t x = Some bs" "push_committed api bs t rest = Some (t1, rev bs @ rest)"
        "frame t t1" "committed t1 = committed t \<union> reference ` set bs"
        "buffer_ok gc (blocks t) (committed t1) (rev bs @ rest)" by blast
    have x: "blocks s (reference x) = Some x" "blocks t (reference x) = Some x" "gc < vb_round x"
      using less.prems(3,4) Cons by (auto simp: buffer_ok_def)
    have eq: "bs = as" using uncommitted_ancestors_agree [OF less.prems(1,2) x less.prems(5) s1(1)] t1(1) by simp
    note fs = frame_law [OF s1(3)] and ft = frame_law [OF t1(3)]
    have "card (tracked s1 - committed s1) + length (rev as @ rest) < card (tracked s - committed s) + length buffer"
      using s1(6) fs Cons by simp
    moreover have "stores_agree gc (blocks s1) (committed s1) (blocks t1) (committed t1)"
      using less.prems(5) s1(4) t1(4) fs ft eq by (auto simp: stores_agree_def)
    ultimately have "\<exists>s' t' out. linearize_loop api gc s1 (rev as @ rest) (to_commit @ [x]) = Some (s', out)
        \<and> linearize_loop api gc t1 (rev as @ rest) (to_commit @ [x]) = Some (t', out)
        \<and> stores_agree gc (blocks s1) (committed s') (blocks t1) (committed t')"
      using less.prems(1,2) s1(5) t1(5) fs ft eq by (intro less.hyps) simp_all
    then show ?thesis
      using s1(1,2) t1(1,2) eq fs ft Cons
      by (subst linearize_loop.simps, subst linearize_loop.simps [of api gc t]) simp
  qed
qed

lemma linearize_sub_dag_agree:
  assumes "complete_above (bs_gc_round api s) (blocks s) (tracked s)"
    and "complete_above (bs_gc_round api t) (blocks t) (tracked t)" and "bs_gc_round api t = bs_gc_round api s"
    and "blocks s (reference leader) = Some leader" and "blocks t (reference leader) = Some leader"
    and "bs_gc_round api s < vb_round leader"
    and "stores_agree (bs_gc_round api s) (blocks s) (committed s) (blocks t) (committed t)"
    and "linearize_sub_dag api leader s = Some (s', bs)"
  shows "\<exists>t'. linearize_sub_dag api leader t = Some (t', bs)"
proof -
  let ?gc = "bs_gc_round api s" and ?l = "reference leader"
  have tr: "?l \<in> tracked s" "?l \<in> tracked t"
    using complete_aboveD(2) [OF assms(1,4)] complete_aboveD(2) [OF assms(2,5)] assms(3,6) by simp_all
  from set_committed_law [OF tr(1)] obtain s1 where
    s1: "bs_set_committed api ?l s = Some (s1, ?l \<notin> committed s)" "frame s s1" "committed s1 = insert ?l (committed s)" by blast
  from set_committed_law [OF tr(2)] obtain t1 where
    t1: "bs_set_committed api ?l t = Some (t1, ?l \<notin> committed t)" "frame t t1" "committed t1 = insert ?l (committed t)" by blast
  note fs = frame_law [OF s1(2)] and ft = frame_law [OF t1(2)]
  have first: "?l \<notin> committed s" using assms(8) s1(1) by (auto simp: linearize_sub_dag_def Let_def panic_simps)
  then have first_t: "?l \<notin> committed t" using assms(6,7) by (simp add: stores_agree_def)
  have "stores_agree ?gc (blocks s1) (committed s1) (blocks t1) (committed t1)"
    using assms(7) s1(3) t1(3) fs ft by (auto simp: stores_agree_def)
  then obtain s2 t2 out where run: "linearize_loop api ?gc s1 [leader] [] = Some (s2, out)"
      "linearize_loop api ?gc t1 [leader] [] = Some (t2, out)"
    using linearize_loop_agree [of ?gc s1 t1 "[leader]" "[]"] assms(1-6) s1(3) t1(3) fs ft by (auto simp: buffer_ok_def)
  show ?thesis
    using assms(3,8) s1(1) t1(1) first first_t run by (auto simp: linearize_sub_dag_def Let_def panic_simps)
qed

end

section \<open>What the committed sub-dags determine\<close>

text \<open>The state of the commit chain as a function of the sub-dags committed so far.\<close>

definition out_digest :: "committed_sub_dag list \<Rightarrow> digest" where
  "out_digest out = (if out = [] then Digest_MIN else cr_digest (csd_commit_ref (last out)))"

definition out_timestamp :: "committed_sub_dag list \<Rightarrow> timestamp_ms" where
  "out_timestamp out = (if out = [] then 0 else csd_timestamp_ms (last out))"

definition out_round :: "committed_sub_dag list \<Rightarrow> round" where
  "out_round out = (if out = [] then 0 else br_round (csd_leader (last out)))"

definition committed_as :: "dag_state \<Rightarrow> committed_sub_dag list \<Rightarrow> bool" where
  "committed_as d out \<longleftrightarrow> last_commit_index d = length out \<and> last_commit_digest d = out_digest out
     \<and> last_commit_timestamp_ms d = out_timestamp out \<and> last_commit_round d = out_round out
     \<and> (\<forall>r. gc_round d < br_round r \<longrightarrow> (r \<in> committed_refs d \<longleftrightarrow> r \<in> set (sub_dag_blocks out)))"

definition same_rules :: "consensus_context \<Rightarrow> consensus_context \<Rightarrow> bool" where
  "same_rules ctx ctx' \<longleftrightarrow> ctx_committee ctx = ctx_committee ctx' \<and> protocol_config ctx = protocol_config ctx'"

lemma same_gc_round:
  assumes "committed_as d out" and "committed_as d' out" and "same_rules (ds_context d) (ds_context d')"
  shows "gc_round d = gc_round d'"
  using assms by (simp add: gc_round_def calculate_gc_round_def committed_as_def same_rules_def)

lemma views_agree:
  assumes "committed_as d out" and "committed_as d' out" and "same_rules (ds_context d) (ds_context d')"
    and "views_consistent F d d'"
  shows "stores_agree (gc_round d) (dag_lookup d) (committed_refs d) (dag_lookup d') (committed_refs d')"
  using assms(1,2) same_gc_round [OF assms(1-3)] views_consistent_block [OF assms(4)]
  by (auto simp: stores_agree_def committed_as_def)

lemma timestamp_agree:
  assumes "ctx_committee ctx = ctx_committee ctx'" and "parents_known d l" and "parents_known d' l" and "0 < vb_round l"
    and "views_consistent F d d'"
  shows "calculate_commit_timestamp ctx dag_store_api d l ts = calculate_commit_timestamp ctx' dag_store_api d' l ts"
proof -
  let ?P = "\<lambda>a. br_round a + 1 = vb_round l"
  have refs: "filter_opt (\<lambda>a. do { parent_round \<leftarrow> checked_sub (vb_round l) 1; Some (br_round a = parent_round) }) (vb_ancestors l)
      = Some (filter ?P (vb_ancestors l))"
    using assms(4) by (intro filter_opt_total) (auto simp: checked_sub_def)
  have "dag_lookup d a = dag_lookup d' a" if "a \<in> set (filter ?P (vb_ancestors l))" for a
    using that assms(2,3) views_consistent_block [OF assms(5), of a] by (fastforce simp: parents_known_def)
  then have "map (dag_lookup d) (filter ?P (vb_ancestors l)) = map (dag_lookup d') (filter ?P (vb_ancestors l))"
    by (intro map_cong) simp_all
  moreover have "median_timestamp_by_stake ctx = median_timestamp_by_stake ctx'"
    unfolding median_timestamp_by_stake_def assms(1) ..
  ultimately show ?thesis
    unfolding calculate_commit_timestamp_def refs dag_store.get_blocks_law Option.bind.bind_lunit by (simp only:)
qed

lemma linearize_same:
  assumes "view_ok d" and "commits_ok d" and "leader_ready d l" and "last_commit_round d < vb_round l"
    and "linearize_sub_dag dag_store_api l d = Some (d1, bs)"
  shows "same_dag d d1"
proof -
  have "gc_round d < vb_round l" using gc_round_le [of d] assms(4) by simp
  moreover have "reference l \<notin> committed_refs d" using assms(2,4) by (fastforce simp: commits_ok_def)
  ultimately show ?thesis
    using linearize_exact [OF assms(1), of l] assms(2,3,5) by (auto simp: commits_ok_def leader_ready_def)
qed

text \<open>Two validators with the same commits so far commit a leader in the same way.\<close>

lemma collect_agree:
  assumes "view_ok d" and "view_ok d'" and "views_consistent F d d'" and "same_rules (ds_context d) (ds_context d')"
    and "committed_as d out" and "committed_as d' out"
    and "leader_ready d l" and "leader_ready d' l" and "last_commit_round d < vb_round l" and "commits_ok d" and "commits_ok d'"
    and "lin_context lin = ds_context d" and "lin_context lin' = ds_context d'"
    and "collect_sub_dag_and_commit cr lin l d = Some (d1, sd, c)"
  shows "\<exists>d1'. collect_sub_dag_and_commit cr lin' l d' = Some (d1', sd, c)"
proof -
  have gc: "gc_round d' = gc_round d" using same_gc_round [OF assms(5,6,4)] by simp
  have round: "gc_round d < vb_round l" "last_commit_round d' < vb_round l"
    using gc_round_le [of d] assms(5,6,9) by (simp_all add: committed_as_def)
  have l: "dag_lookup d (reference l) = Some l" "parents_known d l" "dag_lookup d' (reference l) = Some l" "parents_known d' l"
    using assms(7,8) by (auto simp: leader_ready_def)
  from assms(14) obtain bs where bs: "linearize_sub_dag dag_store_api l d = Some (d1, bs)"
    by (auto simp: collect_sub_dag_and_commit_def panic_simps Let_def)
  have api: "bs_gc_round dag_store_api d = gc_round d" "bs_gc_round dag_store_api d' = gc_round d" using gc by (simp_all add: dag_store_api_def)
  have "complete_above (gc_round d) (dag_lookup d') (cached_refs d')" using view_ok_complete [OF assms(2)] gc by simp
  from dag_store.linearize_sub_dag_agree [of d d' l d1 bs, unfolded api] view_ok_complete [OF assms(1)] this l(1,3) round(1)
    views_agree [OF assms(5,6,4,3)] bs
  obtain d1' where bs': "linearize_sub_dag dag_store_api l d' = Some (d1', bs)" by blast
  have "same_dag d d1" "same_dag d' d1'"
    using linearize_same [OF assms(1,10,7,9) bs] linearize_same [OF assms(2,11,8) round(2) bs'] by simp_all
  then have look: "dag_lookup d1 = dag_lookup d" "dag_lookup d1' = dag_lookup d'" "ds_context d1 = ds_context d" "ds_context d1' = ds_context d'"
    using same_dag_view_ok assms(1,2) by blast+
  have "views_consistent F d1 d1'" using assms(3) look by (simp add: views_consistent_def)
  moreover have "parents_known d1 l" "parents_known d1' l" using l look by (simp_all add: parents_known_def)
  ultimately have "calculate_commit_timestamp (lin_context lin) dag_store_api d1 l ts
      = calculate_commit_timestamp (lin_context lin') dag_store_api d1' l ts" for ts
    using assms(4,12,13) round by (intro timestamp_agree) (auto simp: same_rules_def)
  moreover have "last_commit_index d' = last_commit_index d" "last_commit_digest d' = last_commit_digest d"
    "last_commit_timestamp_ms d' = last_commit_timestamp_ms d" using assms(5,6) by (simp_all add: committed_as_def)
  ultimately show ?thesis
    using assms(14) bs bs' by (auto simp: collect_sub_dag_and_commit_def panic_simps Let_def)
qed

end
