(* ===== verification/Block_Manager.thy ===== *)
theory Block_Manager
  imports Dag_Views
begin

text \<open>
  The block manager of \<open>block_manager.rs\<close>: it suspends received blocks until their causal history is
  in the DAG state, keeps the missing references to fetch, and accepts blocks together with the
  suspended children they complete. Operations pass the manager and the DAG state explicitly;
  \<open>None\<close> is a panic. The stack of references to process keeps its top at the head.
\<close>

section \<open>State\<close>

record suspended_block =
  sus_block :: verified_block
  sus_missing :: "block_ref list"
  sus_timestamp :: nat

definition SuspendedBlock_new :: "nat \<Rightarrow> verified_block \<Rightarrow> block_ref list \<Rightarrow> suspended_block" where
  "SuspendedBlock_new now block missing = \<lparr>sus_block = block, sus_missing = missing, sus_timestamp = now\<rparr>"

record block_manager =
  bm_context :: consensus_context
  bm_suspended :: "(block_ref \<times> suspended_block) list"
  bm_missing_ancestors :: "(block_ref \<times> block_ref list) list"
  bm_missing_blocks :: "block_ref list"
  bm_received_rounds :: "(round \<times> round) option list"

definition BlockManager_new :: "consensus_context \<Rightarrow> block_manager" where
  "BlockManager_new ctx = \<lparr>bm_context = ctx, bm_suspended = [], bm_missing_ancestors = [],
     bm_missing_blocks = [], bm_received_rounds = replicate (committee_size (ctx_committee ctx)) None\<rparr>"

datatype try_accept_result = Accepted verified_block | Suspended "block_ref list" | Processed | Skipped

abbreviation is_suspended :: "block_manager \<Rightarrow> block_ref \<Rightarrow> bool" where
  "is_suspended bm r \<equiv> map_of (bm_suspended bm) r \<noteq> None"

section \<open>Operations\<close>

definition missing_blocks :: "block_manager \<Rightarrow> block_ref list" where
  "missing_blocks bm = bm_missing_blocks bm"

definition bm_hostname :: "block_manager \<Rightarrow> authority_index \<Rightarrow> unit option" where
  "bm_hostname bm a = do { _ \<leftarrow> committee_authority (ctx_committee (bm_context bm)) a; Some () }"

definition update_block_received_metrics :: "verified_block \<Rightarrow> block_manager \<Rightarrow> block_manager option" where
  "update_block_received_metrics block bm = do {
     received \<leftarrow> vec_get (bm_received_rounds bm) (vb_author block);
     let rounds = (case received of
         Some (lo, hi) \<Rightarrow> (min lo (vb_round block), max hi (vb_round block))
       | None \<Rightarrow> (vb_round block, vb_round block));
     received' \<leftarrow> vec_set (bm_received_rounds bm) (vb_author block) (Some rounds);
     _ \<leftarrow> bm_hostname bm (vb_author block);
     Some (bm\<lparr>bm_received_rounds := received'\<rparr>)
   }"

subsection \<open>Unsuspending\<close>

definition try_unsuspend_block ::
    "block_ref \<Rightarrow> block_ref \<Rightarrow> block_manager \<Rightarrow> (block_manager \<times> suspended_block option) option" where
  "try_unsuspend_block r dependency bm = do {
     s \<leftarrow> map_of (bm_suspended bm) r;
     rassert (dependency \<in> set (sus_missing s));
     let s' = s\<lparr>sus_missing := bset_remove dependency (sus_missing s)\<rparr>;
     Some (if sus_missing s' = [] then (bm\<lparr>bm_suspended := bmap_remove r (bm_suspended bm)\<rparr>, Some s')
           else (bm\<lparr>bm_suspended := bmap_insert r s' (bm_suspended bm)\<rparr>, None))
   }"

definition unsuspend_child ::
    "block_ref \<Rightarrow> block_ref \<Rightarrow> block_manager \<times> block_ref list \<times> suspended_block list
       \<Rightarrow> (block_manager \<times> block_ref list \<times> suspended_block list) option" where
  "unsuspend_child dependency r = (\<lambda>(bm, to_process, unsuspended). do {
     (bm', unblocked) \<leftarrow> try_unsuspend_block r dependency bm;
     Some (case unblocked of
         Some s \<Rightarrow> (bm', reference (sus_block s) # to_process, unsuspended @ [s])
       | None \<Rightarrow> (bm', to_process, unsuspended))
   })"

partial_function (option) unsuspend_loop ::
    "block_manager \<Rightarrow> block_ref list \<Rightarrow> suspended_block list \<Rightarrow> (block_manager \<times> suspended_block list) option" where
  "unsuspend_loop bm to_process unsuspended = (case to_process of
     [] \<Rightarrow> Some (bm, unsuspended)
   | r # rest \<Rightarrow> (case map_of (bm_missing_ancestors bm) r of
       None \<Rightarrow> unsuspend_loop bm rest unsuspended
     | Some children \<Rightarrow>
         Option.bind (for_each (unsuspend_child r) children
             (bm\<lparr>bm_missing_ancestors := bmap_remove r (bm_missing_ancestors bm)\<rparr>, rest, unsuspended))
           (\<lambda>(bm', rest', unsuspended'). unsuspend_loop bm' rest' unsuspended')))"

definition try_unsuspend_children_blocks ::
    "block_ref \<Rightarrow> block_manager \<Rightarrow> (block_manager \<times> verified_block list) option" where
  "try_unsuspend_children_blocks accepted bm = do {
     (bm', unsuspended) \<leftarrow> unsuspend_loop bm [accepted] [];
     _ \<leftarrow> map_opt (\<lambda>s. bm_hostname bm' (vb_author (sus_block s))) unsuspended;
     Some (bm', map sus_block unsuspended)
   }"

subsection \<open>Accepting\<close>

definition note_missing ::
    "block_ref \<Rightarrow> bool \<times> block_ref \<Rightarrow> block_manager \<times> block_ref list \<times> block_ref list
       \<Rightarrow> (block_manager \<times> block_ref list \<times> block_ref list) option" where
  "note_missing block_ref = (\<lambda>(found, ancestor) (bm, missing, to_fetch).
     if found then Some (bm, missing, to_fetch)
     else do {
       let m = bm_missing_ancestors bm;
       let bm' = bm\<lparr>bm_missing_ancestors := bmap_insert ancestor (bset_insert block_ref (bmap_entry [] m ancestor)) m\<rparr>;
       _ \<leftarrow> bm_hostname bm (br_author ancestor);
       Some (if is_suspended bm ancestor then (bm', bset_insert ancestor missing, to_fetch)
             else (bm'\<lparr>bm_missing_blocks := bset_insert ancestor (bm_missing_blocks bm)\<rparr>,
                   bset_insert ancestor missing, bset_insert ancestor to_fetch))
     })"

definition try_accept_one_block ::
    "nat \<Rightarrow> verified_block \<Rightarrow> dag_state \<Rightarrow> block_manager \<Rightarrow> (block_manager \<times> try_accept_result) option" where
  "try_accept_one_block now block d bm = do {
     let block_ref = reference block;
     known \<leftarrow> (if is_suspended bm block_ref then Some True else contains_block d block_ref);
     if known then Some (bm, Processed)
     else if vb_round block \<le> gc_round d then do {
       _ \<leftarrow> bm_hostname bm (vb_author block);
       Some (bm, Skipped)
     }
     else do {
       let ancestors = filter (\<lambda>a. br_round a = GENESIS_ROUND \<or> br_round a > gc_round d) (vb_ancestors block);
       found \<leftarrow> contains_blocks d ancestors;
       (bm1, missing, to_fetch) \<leftarrow> for_each (note_missing block_ref) (zip found ancestors) (bm, [], []);
       let bm2 = bm1\<lparr>bm_missing_blocks := bset_remove block_ref (bm_missing_blocks bm1)\<rparr>;
       if missing \<noteq> [] then do {
         _ \<leftarrow> bm_hostname bm (vb_author block);
         Some (bm2\<lparr>bm_suspended := bmap_insert block_ref (SuspendedBlock_new now block missing) (bm_suspended bm2)\<rparr>,
               Suspended to_fetch)
       }
       else Some (bm2, Accepted block)
     }
   }"

definition forget_child :: "block_ref \<Rightarrow> block_ref \<Rightarrow> (block_ref \<times> block_ref list) list \<Rightarrow> (block_ref \<times> block_ref list) list" where
  "forget_child r ancestor m = (case map_of m ancestor of
     Some refs \<Rightarrow> bmap_insert ancestor (bset_remove r refs) m
   | None \<Rightarrow> m)"

definition try_accept_one_committed_block ::
    "nat \<Rightarrow> verified_block \<Rightarrow> block_manager \<times> dag_state \<Rightarrow> (block_manager \<times> dag_state \<times> try_accept_result) option" where
  "try_accept_one_committed_block now block = (\<lambda>(bm, d). do {
     let r = reference block;
     known \<leftarrow> contains_block d r;
     if known then Some (bm, d, Processed)
     else do {
       let bm1 = bm\<lparr>bm_missing_blocks := bset_remove r (bm_missing_blocks bm)\<rparr>;
       let bm2 = (case map_of (bm_suspended bm1) r of
           Some s \<Rightarrow> bm1\<lparr>bm_suspended := bmap_remove r (bm_suspended bm1),
             bm_missing_ancestors := fold (forget_child r) (sus_missing s) (bm_missing_ancestors bm1)\<rparr>
         | None \<Rightarrow> bm1);
       d' \<leftarrow> accept_blocks now [block] d;
       Some (bm2, d', Accepted block)
     }
   })"

text \<open>The tail of one iteration of \<open>try_accept_blocks_internal\<close>: the block is in, its suspended
  children follow.\<close>

definition accept_with_children ::
    "nat \<Rightarrow> block_ref \<Rightarrow> verified_block list \<Rightarrow> block_manager \<times> dag_state \<times> verified_block list
       \<Rightarrow> (block_manager \<times> dag_state \<times> verified_block list) option" where
  "accept_with_children now block_ref blocks_to_accept = (\<lambda>(bm, d, accepted). do {
     (bm', unsuspended) \<leftarrow> try_unsuspend_children_blocks block_ref bm;
     let to_accept = blocks_to_accept @ unsuspended;
     d' \<leftarrow> accept_blocks now to_accept d;
     Some (bm', d', accepted @ to_accept)
   })"

type_synonym accept_state = "block_manager \<times> dag_state \<times> verified_block list \<times> block_ref list"

definition accept_one :: "nat \<Rightarrow> bool \<Rightarrow> verified_block \<Rightarrow> accept_state \<Rightarrow> accept_state option" where
  "accept_one now committed block = (\<lambda>(bm0, d, accepted, missing). do {
     bm \<leftarrow> update_block_received_metrics block bm0;
     let block_ref = reference block;
     if committed then do {
       (bm1, d1, result) \<leftarrow> try_accept_one_committed_block now block (bm, d);
       (case result of
          Accepted b \<Rightarrow> do {
            (bm2, d2, accepted') \<leftarrow> accept_with_children now block_ref [] (bm1, d1, accepted @ [b]);
            Some (bm2, d2, accepted', missing) }
        | Processed \<Rightarrow> Some (bm1, d1, accepted, missing)
        | _ \<Rightarrow> None)
     } else do {
       (bm1, result) \<leftarrow> try_accept_one_block now block d bm;
       (case result of
          Accepted b \<Rightarrow> do {
            (bm2, d2, accepted') \<leftarrow> accept_with_children now block_ref [b] (bm1, d, accepted);
            Some (bm2, d2, accepted', missing) }
        | Suspended to_fetch \<Rightarrow> Some (bm1, d, accepted, bset_extend missing to_fetch)
        | _ \<Rightarrow> Some (bm1, d, accepted, missing))
     }
   })"

definition try_accept_blocks_internal ::
    "nat \<Rightarrow> verified_block list \<Rightarrow> bool \<Rightarrow> block_manager \<times> dag_state \<Rightarrow> accept_state option" where
  "try_accept_blocks_internal now blocks committed = (\<lambda>(bm, d).
     for_each (accept_one now committed) (sort_key vb_round blocks) (bm, d, [], []))"

definition try_accept_blocks :: "nat \<Rightarrow> verified_block list \<Rightarrow> block_manager \<times> dag_state \<Rightarrow> accept_state option" where
  "try_accept_blocks now blocks s = try_accept_blocks_internal now blocks False s"

definition try_accept_committed_blocks ::
    "nat \<Rightarrow> verified_block list \<Rightarrow> block_manager \<times> dag_state
       \<Rightarrow> (block_manager \<times> dag_state \<times> verified_block list) option" where
  "try_accept_committed_blocks now blocks s = do {
     (bm, d, accepted, missing) \<leftarrow> try_accept_blocks_internal now blocks True s;
     rassert (missing = []);
     Some (bm, d, accepted)
   }"

subsection \<open>Requests and garbage collection\<close>

definition note_requested ::
    "bool \<times> block_ref \<Rightarrow> block_manager \<times> block_ref list \<Rightarrow> (block_manager \<times> block_ref list) option" where
  "note_requested = (\<lambda>(found, r) (bm, missing).
     if found \<or> is_suspended bm r then Some (bm, missing)
     else if r \<in> set (bm_missing_blocks bm) then Some (bm, bset_insert r missing)
     else do {
       let m = bm_missing_ancestors bm;
       _ \<leftarrow> bm_hostname bm (br_author r);
       Some (bm\<lparr>bm_missing_blocks := bset_insert r (bm_missing_blocks bm),
                bm_missing_ancestors := bmap_insert r (bmap_entry [] m r) m\<rparr>, bset_insert r missing)
     })"

definition try_find_blocks ::
    "block_ref list \<Rightarrow> dag_state \<Rightarrow> block_manager \<Rightarrow> (block_manager \<times> block_ref list) option" where
  "try_find_blocks block_refs d bm = (
     let refs = filter (\<lambda>r. br_round r > gc_round d) block_refs in
     if refs = [] then Some (bm, [])
     else do {
       let sorted_refs = sort_key br_round refs;
       found \<leftarrow> contains_blocks d sorted_refs;
       for_each note_requested (zip found sorted_refs) (bm, [])
     })"

partial_function (option) unsuspend_gc_loop ::
    "nat \<Rightarrow> round \<Rightarrow> block_manager \<Rightarrow> dag_state \<Rightarrow> (block_manager \<times> dag_state) option" where
  "unsuspend_gc_loop now gc bm d = (case bm_missing_ancestors bm of
     [] \<Rightarrow> Some (bm, d)
   | (r, _) # _ \<Rightarrow>
       if br_round r > gc then Some (bm, d)
       else Option.bind (bm_hostname bm (br_author r)) (\<lambda>_.
         Option.bind (rassert (\<not> is_suspended bm r)) (\<lambda>_.
         Option.bind (try_unsuspend_children_blocks r
             (bm\<lparr>bm_missing_blocks := bset_remove r (bm_missing_blocks bm)\<rparr>)) (\<lambda>(bm', unsuspended).
         Option.bind (accept_blocks now unsuspended d) (\<lambda>d'.
         Option.bind (map_opt (\<lambda>b. bm_hostname bm' (vb_author b)) unsuspended) (\<lambda>_.
           unsuspend_gc_loop now gc bm' d'))))))"

definition try_unsuspend_blocks_for_latest_gc_round ::
    "nat \<Rightarrow> block_manager \<times> dag_state \<Rightarrow> (block_manager \<times> dag_state) option" where
  "try_unsuspend_blocks_for_latest_gc_round now = (\<lambda>(bm, d). unsuspend_gc_loop now (gc_round d) bm d)"

end
