(* ===== verification/Block_Manager_Lemmas.thy ===== *)
theory Block_Manager_Lemmas
  imports Block_Manager Commit_Invariant
begin

text \<open>
  The invariant of the block manager: the suspended blocks and the map from missing ancestors to
  waiting children describe the same relation, the references to fetch are the missing ancestors
  that are not suspended, and every ancestor of a suspended block that is neither missing nor
  garbage collected is known. Every operation keeps it and never panics on its assertions.
\<close>

section \<open>The invariant\<close>

text \<open>\<open>waits\<close>: a suspended block and an ancestor it lists as missing. \<open>asks\<close>: the same relation as
  kept by the map of missing ancestors.\<close>

definition waits :: "block_manager \<Rightarrow> (block_ref \<times> block_ref) set" where
  "waits bm = {(r, a). \<exists>s. map_of (bm_suspended bm) r = Some s \<and> a \<in> set (sus_missing s)}"

definition asks :: "block_manager \<Rightarrow> (block_ref \<times> block_ref) set" where
  "asks bm = {(r, a). \<exists>rs. map_of (bm_missing_ancestors bm) a = Some rs \<and> r \<in> set rs}"

abbreviation suspended_refs :: "block_manager \<Rightarrow> block_ref set" where
  "suspended_refs bm \<equiv> dom (map_of (bm_suspended bm))"

abbreviation missing_refs :: "block_manager \<Rightarrow> block_ref set" where
  "missing_refs bm \<equiv> dom (map_of (bm_missing_ancestors bm))"

definition block_linked :: "committee \<Rightarrow> verified_block \<Rightarrow> bool" where
  "block_linked c b \<longleftrightarrow> well_linked c b \<and> vb_author b < committee_size c \<and> 0 < vb_round b"

definition bm_shape :: "block_manager \<Rightarrow> bool" where
  "bm_shape bm \<longleftrightarrow> bmap_wf (bm_suspended bm) \<and> bmap_wf (bm_missing_ancestors bm) \<and> bset_wf (bm_missing_blocks bm)
     \<and> (\<forall>rs\<in>ran (map_of (bm_missing_ancestors bm)). bset_wf rs)
     \<and> (\<forall>r\<in>missing_refs bm. br_author r < committee_size (ctx_committee (bm_context bm)))
     \<and> length (bm_received_rounds bm) = committee_size (ctx_committee (bm_context bm))"

definition suspended_ok :: "(verified_block \<Rightarrow> bool) \<Rightarrow> round \<Rightarrow> block_ref set \<Rightarrow> block_ref \<Rightarrow> suspended_block \<Rightarrow> bool" where
  "suspended_ok Q gc K r s \<longleftrightarrow> Q (sus_block s) \<and> reference (sus_block s) = r
     \<and> bset_wf (sus_missing s) \<and> sus_missing s \<noteq> [] \<and> set (sus_missing s) \<subseteq> set (vb_ancestors (sus_block s))
     \<and> (\<forall>a\<in>set (vb_ancestors (sus_block s)). gc < br_round a \<longrightarrow> a \<in> K \<or> a \<in> set (sus_missing s))"

text \<open>The invariant while the known references \<open>T\<close> are still to be processed and the pairs \<open>P\<close> are
  taken out of the map already.\<close>

definition bm_inv_loop :: "(verified_block \<Rightarrow> bool) \<Rightarrow> round \<Rightarrow> block_ref set \<Rightarrow> block_ref set
    \<Rightarrow> (block_ref \<times> block_ref) set \<Rightarrow> block_manager \<Rightarrow> bool" where
  "bm_inv_loop Q gc K T P bm \<longleftrightarrow> bm_shape bm \<and> waits bm = asks bm \<union> P \<and> asks bm \<inter> P = {}
     \<and> (\<forall>r s. map_of (bm_suspended bm) r = Some s \<longrightarrow> suspended_ok Q gc K r s)
     \<and> suspended_refs bm \<inter> K = {} \<and> missing_refs bm \<inter> K \<subseteq> T
     \<and> set (bm_missing_blocks bm) = missing_refs bm - suspended_refs bm - K"

definition bm_inv :: "(verified_block \<Rightarrow> bool) \<Rightarrow> round \<Rightarrow> block_ref set \<Rightarrow> block_manager \<Rightarrow> bool" where
  "bm_inv Q gc K bm = bm_inv_loop Q gc K {} {} bm"

lemma bm_inv_loopD:
  assumes "bm_inv_loop Q gc K T P bm"
  shows "bm_shape bm" and "waits bm = asks bm \<union> P" and "asks bm \<inter> P = {}"
    and "\<And>r s. map_of (bm_suspended bm) r = Some s \<Longrightarrow> suspended_ok Q gc K r s"
    and "suspended_refs bm \<inter> K = {}" and "missing_refs bm \<inter> K \<subseteq> T"
    and "set (bm_missing_blocks bm) = missing_refs bm - suspended_refs bm - K"
  using assms by (auto simp: bm_inv_loop_def)

lemma bm_inv_loopI:
  assumes "bm_shape bm" and "waits bm = asks bm \<union> P" and "asks bm \<inter> P = {}"
    and "\<And>r s. map_of (bm_suspended bm) r = Some s \<Longrightarrow> suspended_ok Q gc K r s"
    and "suspended_refs bm \<inter> K = {}" and "missing_refs bm \<inter> K \<subseteq> T"
    and "set (bm_missing_blocks bm) = missing_refs bm - suspended_refs bm - K"
  shows "bm_inv_loop Q gc K T P bm"
  using assms by (simp add: bm_inv_loop_def)

lemma bm_hostname_total: "a < committee_size (ctx_committee (bm_context bm)) \<Longrightarrow> bm_hostname bm a = Some ()"
  by (simp add: bm_hostname_def committee_authority_def vec_get_def committee_size_def)

section \<open>Unsuspending\<close>

lemma received_metrics_inv:
  assumes "bm_inv Q gc K bm" and "vb_author b < committee_size (ctx_committee (bm_context bm))"
  shows "\<exists>bm'. update_block_received_metrics b bm = Some bm' \<and> bm_inv Q gc K bm' \<and> bm_context bm' = bm_context bm
     \<and> bm_suspended bm' = bm_suspended bm \<and> bm_missing_blocks bm' = bm_missing_blocks bm
     \<and> bm_missing_ancestors bm' = bm_missing_ancestors bm"
proof -
  have len: "vb_author b < length (bm_received_rounds bm)"
    using assms by (simp add: bm_inv_def bm_inv_loop_def bm_shape_def)
  have inv: "bm_inv Q gc K (bm\<lparr>bm_received_rounds := X\<rparr>)" if "length X = length (bm_received_rounds bm)" for X
    using assms(1) that by (simp add: bm_inv_def bm_inv_loop_def bm_shape_def waits_def asks_def)
  show ?thesis
    using len assms(2) inv by (auto simp: update_block_received_metrics_def vec_get_def vec_set_def bm_hostname_total Let_def
        split: option.splits)
qed

text \<open>One child loses one missing ancestor, and leaves when it was the last.\<close>

lemma try_unsuspend_block_step:
  assumes "bm_inv_loop Q gc K T (insert (r, p) P) bm" and "(r, p) \<notin> P" and "p \<in> K"
  shows "\<exists>bm' u. try_unsuspend_block r p bm = Some (bm', u) \<and> bm_missing_ancestors bm' = bm_missing_ancestors bm
     \<and> bm_context bm' = bm_context bm \<and> bm_missing_blocks bm' = bm_missing_blocks bm
     \<and> (case u of
          None \<Rightarrow> bm_inv_loop Q gc K T P bm' \<and> length (bm_suspended bm') = length (bm_suspended bm)
            \<and> suspended_refs bm \<subseteq> suspended_refs bm'
        | Some s \<Rightarrow> suspended_refs bm \<subseteq> insert r (suspended_refs bm') \<and> Q (sus_block s) \<and> reference (sus_block s) = r \<and> r \<notin> K
            \<and> (\<forall>a\<in>set (vb_ancestors (sus_block s)). gc < br_round a \<longrightarrow> a \<in> K)
            \<and> bm_inv_loop Q gc (insert r K) (insert r T) P bm' \<and> length (bm_suspended bm') < length (bm_suspended bm))"
proof -
  note I = bm_inv_loopD [OF assms(1)]
  from I(2) have "(r, p) \<in> waits bm" by blast
  then obtain s where s: "map_of (bm_suspended bm) r = Some s" "p \<in> set (sus_missing s)" by (auto simp: waits_def)
  note ok = I(4) [OF s(1), unfolded suspended_ok_def]
  let ?s = "s\<lparr>sus_missing := bset_remove p (sus_missing s)\<rparr>"
  have asks: "asks (bm\<lparr>bm_suspended := m\<rparr>) = asks bm" for m by (simp add: asks_def)
  have "(r, p) \<notin> asks bm" and cap: "asks bm \<inter> P = {}" using I(3) by auto
  then have rm: "waits bm - {(r, p)} = asks bm \<union> P" unfolding I(2) using assms(2) by auto
  have sus_r: "r \<notin> K" using I(5) s(1) by blast
  show ?thesis
  proof (cases "sus_missing ?s = []")
    case True
    then have "\<forall>y\<in>set (sus_missing s). y = p" by (simp add: bset_remove_def filter_empty_conv)
    with s(2) have only: "set (sus_missing s) = {p}" by blast
    let ?bm = "bm\<lparr>bm_suspended := bmap_remove r (bm_suspended bm)\<rparr>"
    have w: "waits ?bm = waits bm - {(r, p)}" using s(1) only by (auto simp: waits_def split: if_splits)
    have inv: "bm_inv_loop Q gc (insert r K) (insert r T) P ?bm"
    proof (rule bm_inv_loopI)
      show "bm_shape ?bm" using I(1) by (simp add: bm_shape_def)
      show "waits ?bm = asks ?bm \<union> P" "asks ?bm \<inter> P = {}" using w rm cap by (simp_all only: asks)
      show "suspended_ok Q gc (insert r K) r' s'" if "map_of (bm_suspended ?bm) r' = Some s'" for r' s'
        using that I(4) [of r' s'] by (auto simp: suspended_ok_def split: if_splits)
      show "suspended_refs ?bm \<inter> insert r K = {}" using I(5) by auto
      show "missing_refs ?bm \<inter> insert r K \<subseteq> insert r T" using I(6) by auto
      show "set (bm_missing_blocks ?bm) = missing_refs ?bm - suspended_refs ?bm - insert r K" using I(7) s(1) by auto
    qed
    have "length (bm_suspended ?bm) < length (bm_suspended bm)" using s(1) by (simp add: length_bmap_remove_less)
    moreover have "a \<in> K" if "a \<in> set (vb_ancestors (sus_block s))" "gc < br_round a" for a
    proof -
      have "a \<in> K \<or> a \<in> set (sus_missing s)" using ok that by simp
      then show ?thesis using assms(3) unfolding only by auto
    qed
    moreover have "try_unsuspend_block r p bm = Some (?bm, Some ?s)"
      using True s by (simp add: try_unsuspend_block_def Let_def)
    ultimately show ?thesis
      using inv sus_r ok by (intro exI [of _ ?bm] exI [of _ "Some ?s"]) auto
  next
    case False
    let ?bm = "bm\<lparr>bm_suspended := bmap_insert r ?s (bm_suspended bm)\<rparr>"
    have w: "waits ?bm = waits bm - {(r, p)}" using s by (auto simp: waits_def split: if_splits)
    have s': "suspended_ok Q gc K r ?s" using ok False assms(3) by (auto simp: suspended_ok_def)
    have dom: "suspended_refs ?bm = suspended_refs bm" using s(1) by auto
    have "bm_inv_loop Q gc K T P ?bm"
    proof (rule bm_inv_loopI)
      show "bm_shape ?bm" using I(1) by (simp add: bm_shape_def)
      show "waits ?bm = asks ?bm \<union> P" "asks ?bm \<inter> P = {}" using w rm cap by (simp_all only: asks)
      show "suspended_ok Q gc K r' t" if "map_of (bm_suspended ?bm) r' = Some t" for r' t
        using that I(4) [of r' t] s' by (auto split: if_splits)
      show "suspended_refs ?bm \<inter> K = {}" unfolding dom by (rule I(5))
      show "missing_refs ?bm \<inter> K \<subseteq> T" using I(6) by simp
      show "set (bm_missing_blocks ?bm) = missing_refs ?bm - suspended_refs ?bm - K" unfolding dom using I(7) by simp
    qed
    moreover have "r \<in> fst ` set (bm_suspended bm)" using s(1) by (metis dom_map_of_conv_image_fst domI)
    then have "length (bm_suspended ?bm) = length (bm_suspended bm)"
      using I(1) by (simp add: bm_shape_def length_bmap_insert_present)
    ultimately show ?thesis
      using False s dom by (intro exI [of _ ?bm] exI [of _ None]) (simp add: try_unsuspend_block_def Let_def)
  qed
qed

text \<open>Blocks in an order in which each new block follows its ancestors.\<close>

fun ordered_after :: "round \<Rightarrow> block_ref set \<Rightarrow> verified_block list \<Rightarrow> bool" where
  "ordered_after gc K [] \<longleftrightarrow> True"
| "ordered_after gc K (b # bs) \<longleftrightarrow> reference b \<notin> K \<and> (\<forall>a\<in>set (vb_ancestors b). gc < br_round a \<longrightarrow> a \<in> K)
     \<and> ordered_after gc (insert (reference b) K) bs"

lemma ordered_after_append:
  "ordered_after gc K (xs @ ys) \<longleftrightarrow> ordered_after gc K xs \<and> ordered_after gc (K \<union> reference ` set xs) ys"
  by (induction xs arbitrary: K) (auto simp: insert_is_Un [symmetric])

abbreviation unsuspended_refs :: "suspended_block list \<Rightarrow> block_ref set" where
  "unsuspended_refs us \<equiv> (\<lambda>s. reference (sus_block s)) ` set us"

definition loop_state :: "(verified_block \<Rightarrow> bool) \<Rightarrow> round \<Rightarrow> block_ref set \<Rightarrow> (block_ref \<times> block_ref) set
    \<Rightarrow> block_manager \<times> block_ref list \<times> suspended_block list \<Rightarrow> bool" where
  "loop_state Q gc K P = (\<lambda>(bm, stack, us). bm_inv_loop Q gc (K \<union> unsuspended_refs us) (set stack) P bm
     \<and> ordered_after gc K (map sus_block us) \<and> (\<forall>s\<in>set us. Q (sus_block s)) \<and> set stack \<subseteq> K \<union> unsuspended_refs us)"

abbreviation loop_measure :: "block_manager \<times> block_ref list \<times> suspended_block list \<Rightarrow> nat" where
  "loop_measure \<equiv> \<lambda>(bm, stack, us). 2 * length (bm_suspended bm) + length stack"

lemma unsuspend_child_step:
  assumes "loop_state Q gc K (insert (r, p) P) (bm, stack, us)" and "(r, p) \<notin> P" and "p \<in> K \<union> unsuspended_refs us"
  shows "\<exists>bm' stack' us'. unsuspend_child p r (bm, stack, us) = Some (bm', stack', us')
     \<and> loop_state Q gc K P (bm', stack', us') \<and> loop_measure (bm', stack', us') \<le> loop_measure (bm, stack, us)
     \<and> bm_context bm' = bm_context bm \<and> set us \<subseteq> set us' \<and> bm_missing_ancestors bm' = bm_missing_ancestors bm
     \<and> suspended_refs bm \<subseteq> suspended_refs bm' \<union> unsuspended_refs us'"
proof -
  let ?K = "K \<union> unsuspended_refs us"
  from assms(1) have st: "bm_inv_loop Q gc ?K (set stack) (insert (r, p) P) bm" "ordered_after gc K (map sus_block us)"
    "\<forall>s\<in>set us. Q (sus_block s)" "set stack \<subseteq> ?K" by (simp_all add: loop_state_def)
  from try_unsuspend_block_step [OF st(1) assms(2,3)] obtain bm' u where
    u: "try_unsuspend_block r p bm = Some (bm', u)" "bm_missing_ancestors bm' = bm_missing_ancestors bm"
      "bm_context bm' = bm_context bm"
      "case u of None \<Rightarrow> bm_inv_loop Q gc ?K (set stack) P bm' \<and> length (bm_suspended bm') = length (bm_suspended bm)
            \<and> suspended_refs bm \<subseteq> suspended_refs bm'
        | Some s \<Rightarrow> suspended_refs bm \<subseteq> insert r (suspended_refs bm') \<and> Q (sus_block s) \<and> reference (sus_block s) = r \<and> r \<notin> ?K
            \<and> (\<forall>a\<in>set (vb_ancestors (sus_block s)). gc < br_round a \<longrightarrow> a \<in> ?K)
            \<and> bm_inv_loop Q gc (insert r ?K) (insert r (set stack)) P bm' \<and> length (bm_suspended bm') < length (bm_suspended bm)"
    by (elim exE conjE) (rule that)
  show ?thesis
  proof (cases u)
    case None
    then show ?thesis
      using u st(2-4) by (intro exI [of _ bm'] exI [of _ stack] exI [of _ us]) (auto simp: unsuspend_child_def loop_state_def)
  next
    case (Some s)
    then have s: "Q (sus_block s)" "reference (sus_block s) = r" "r \<notin> ?K"
      "\<forall>a\<in>set (vb_ancestors (sus_block s)). gc < br_round a \<longrightarrow> a \<in> ?K"
      "bm_inv_loop Q gc (insert r ?K) (insert r (set stack)) P bm'" "length (bm_suspended bm') < length (bm_suspended bm)"
      "suspended_refs bm \<subseteq> insert r (suspended_refs bm')"
      using u(4) by simp_all
    have refs: "K \<union> unsuspended_refs (us @ [s]) = insert r ?K" using s(2) by auto
    have state: "loop_state Q gc K P (bm', r # stack, us @ [s])"
      unfolding loop_state_def prod.case refs
      using st(2-4) s by (auto simp: ordered_after_append image_image)
    have "unsuspend_child p r (bm, stack, us) = Some (bm', r # stack, us @ [s])"
      using u(1) Some s(2) by (simp add: unsuspend_child_def)
    moreover have "suspended_refs bm \<subseteq> suspended_refs bm' \<union> unsuspended_refs (us @ [s])" using s(2,7) by auto
    ultimately show ?thesis
      using u(2,3) s(6) state by (intro exI [of _ bm'] exI [of _ "r # stack"] exI [of _ "us @ [s]"]) auto
  qed
qed

lemma unsuspend_children_step:
  assumes "loop_state Q gc K ((\<lambda>r. (r, p)) ` set cs) (bm, stack, us)" and "distinct cs" and "p \<in> K \<union> unsuspended_refs us"
  shows "\<exists>bm' stack' us'. for_each (unsuspend_child p) cs (bm, stack, us) = Some (bm', stack', us')
     \<and> loop_state Q gc K {} (bm', stack', us') \<and> loop_measure (bm', stack', us') \<le> loop_measure (bm, stack, us)
     \<and> bm_context bm' = bm_context bm \<and> bm_missing_ancestors bm' = bm_missing_ancestors bm
     \<and> set us \<subseteq> set us' \<and> suspended_refs bm \<subseteq> suspended_refs bm' \<union> unsuspended_refs us'"
  using assms
proof (induction cs arbitrary: bm stack us)
  case (Cons r cs)
  have "loop_state Q gc K (insert (r, p) ((\<lambda>r. (r, p)) ` set cs)) (bm, stack, us)" using Cons.prems(1) by simp
  moreover have "(r, p) \<notin> (\<lambda>r. (r, p)) ` set cs" using Cons.prems(2) by auto
  ultimately obtain bm1 stack1 us1 where 1: "unsuspend_child p r (bm, stack, us) = Some (bm1, stack1, us1)"
    "loop_state Q gc K ((\<lambda>r. (r, p)) ` set cs) (bm1, stack1, us1)"
    "loop_measure (bm1, stack1, us1) \<le> loop_measure (bm, stack, us)" "bm_context bm1 = bm_context bm" "set us \<subseteq> set us1"
    "bm_missing_ancestors bm1 = bm_missing_ancestors bm" "suspended_refs bm \<subseteq> suspended_refs bm1 \<union> unsuspended_refs us1"
    using unsuspend_child_step [OF _ _ Cons.prems(3)] by blast
  have "p \<in> K \<union> unsuspended_refs us1" using Cons.prems(3) 1(5) by blast
  from Cons.IH [OF 1(2) _ this] Cons.prems(2) obtain bm' stack' us' where
    2: "for_each (unsuspend_child p) cs (bm1, stack1, us1) = Some (bm', stack', us')"
      "loop_state Q gc K {} (bm', stack', us')" "loop_measure (bm', stack', us') \<le> loop_measure (bm1, stack1, us1)"
      "bm_context bm' = bm_context bm1" "bm_missing_ancestors bm' = bm_missing_ancestors bm1"
      "set us1 \<subseteq> set us'" "suspended_refs bm1 \<subseteq> suspended_refs bm' \<union> unsuspended_refs us'" by auto
  have "suspended_refs bm \<subseteq> suspended_refs bm' \<union> unsuspended_refs us'" using 1(7) 2(6,7) by blast
  then show ?case using 1(1-6) 2(1-6) by (intro exI [of _ bm'] exI [of _ stack'] exI [of _ us']) auto
qed simp

lemma pop_missing:
  assumes "loop_state Q gc K {} (bm, p # stack, us)" and "map_of (bm_missing_ancestors bm) p = Some cs"
  shows "loop_state Q gc K ((\<lambda>r. (r, p)) ` set cs)
      (bm\<lparr>bm_missing_ancestors := bmap_remove p (bm_missing_ancestors bm)\<rparr>, stack, us)" and "distinct cs"
proof -
  let ?bm = "bm\<lparr>bm_missing_ancestors := bmap_remove p (bm_missing_ancestors bm)\<rparr>"
  let ?K = "K \<union> unsuspended_refs us" and ?P = "(\<lambda>r. (r, p)) ` set cs"
  from assms(1) have inv: "bm_inv_loop Q gc ?K (set (p # stack)) {} bm" and p: "p \<in> ?K"
    by (auto simp: loop_state_def)
  note I = bm_inv_loopD [OF inv]
  have ran: "cs \<in> ran (map_of (bm_missing_ancestors bm))" using assms(2) by (rule ranI)
  then have "bset_wf cs" using I(1) by (simp add: bm_shape_def)
  then show "distinct cs" by (rule bset_wf_distinct)
  have asks: "asks bm = asks ?bm \<union> ?P" "asks ?bm \<inter> ?P = {}" using assms(2) by (auto simp: asks_def split: if_splits)
  have waits: "waits ?bm = waits bm" by (simp add: waits_def)
  have "bm_inv_loop Q gc ?K (set stack) ?P ?bm"
  proof (rule bm_inv_loopI)
    have "ran (map_of (bm_missing_ancestors ?bm)) \<subseteq> ran (map_of (bm_missing_ancestors bm))"
      by (auto simp: ran_def split: if_splits)
    then show "bm_shape ?bm" using I(1) by (auto simp: bm_shape_def)
    show "waits ?bm = asks ?bm \<union> ?P" using I(2) asks(1) waits by simp
    show "asks ?bm \<inter> ?P = {}" by (rule asks(2))
    show "suspended_ok Q gc ?K r s" if "map_of (bm_suspended ?bm) r = Some s" for r s using that I(4) by simp
    show "suspended_refs ?bm \<inter> ?K = {}" using I(5) by simp
    show "missing_refs ?bm \<inter> ?K \<subseteq> set stack" using I(6) by auto
    show "set (bm_missing_blocks ?bm) = missing_refs ?bm - suspended_refs ?bm - ?K" using I(7) p by auto
  qed
  then show "loop_state Q gc K ?P (?bm, stack, us)" using assms(1) by (simp add: loop_state_def)
qed

lemma pop_known:
  assumes "loop_state Q gc K {} (bm, p # stack, us)" and "map_of (bm_missing_ancestors bm) p = None"
  shows "loop_state Q gc K {} (bm, stack, us)"
  using assms by (auto simp: loop_state_def bm_inv_loop_def)

lemma unsuspend_loop_correct:
  assumes "loop_state Q gc K {} (bm, stack, us)"
  shows "\<exists>bm' us'. unsuspend_loop bm stack us = Some (bm', us') \<and> loop_state Q gc K {} (bm', [], us')
     \<and> bm_context bm' = bm_context bm \<and> missing_refs bm' \<subseteq> missing_refs bm
     \<and> set us \<subseteq> set us' \<and> suspended_refs bm \<subseteq> suspended_refs bm' \<union> unsuspended_refs us'"
  using assms
proof (induction "loop_measure (bm, stack, us)" arbitrary: bm stack us rule: less_induct)
  case less
  show ?case
  proof (cases stack)
    case Nil
    then show ?thesis
      using less.prems by (intro exI [of _ bm] exI [of _ us]) (simp add: unsuspend_loop.simps [of bm "[]"])
  next
    case (Cons p rest)
    show ?thesis
    proof (cases "map_of (bm_missing_ancestors bm) p")
      case None
      then have "unsuspend_loop bm stack us = unsuspend_loop bm rest us"
        by (simp add: Cons unsuspend_loop.simps [of bm "p # rest"])
      then show ?thesis using less.hyps [OF _ pop_known [OF less.prems [unfolded Cons] None]] Cons by simp
    next
      case (Some cs)
      let ?bm = "bm\<lparr>bm_missing_ancestors := bmap_remove p (bm_missing_ancestors bm)\<rparr>"
      note pop = pop_missing [OF less.prems [unfolded Cons] Some]
      have "p \<in> K \<union> unsuspended_refs us" using less.prems by (auto simp: Cons loop_state_def)
      from unsuspend_children_step [OF pop this] obtain bm1 rest1 us1 where
        1: "for_each (unsuspend_child p) cs (?bm, rest, us) = Some (bm1, rest1, us1)"
          "loop_state Q gc K {} (bm1, rest1, us1)" "loop_measure (bm1, rest1, us1) \<le> loop_measure (?bm, rest, us)"
          "bm_context bm1 = bm_context bm" "bm_missing_ancestors bm1 = bm_missing_ancestors ?bm"
          "set us \<subseteq> set us1" "suspended_refs bm \<subseteq> suspended_refs bm1 \<union> unsuspended_refs us1" by auto
      have "loop_measure (bm1, rest1, us1) < loop_measure (bm, stack, us)" using 1(3) by (simp add: Cons)
      from less.hyps [OF this 1(2)] obtain bm' us' where
        2: "unsuspend_loop bm1 rest1 us1 = Some (bm', us')" "loop_state Q gc K {} (bm', [], us')"
          "bm_context bm' = bm_context bm1" "missing_refs bm' \<subseteq> missing_refs bm1"
          "set us1 \<subseteq> set us'" "suspended_refs bm1 \<subseteq> suspended_refs bm' \<union> unsuspended_refs us'" by blast
      have "unsuspend_loop bm stack us = Some (bm', us')"
        using 1(1) 2(1) Some by (simp add: Cons unsuspend_loop.simps [of bm "p # rest"])
      moreover have "missing_refs bm1 \<subseteq> missing_refs bm" using 1(5) by auto
      then have "missing_refs bm' \<subseteq> missing_refs bm" using 2(4) by (rule subset_trans [rotated])
      moreover have "suspended_refs bm \<subseteq> suspended_refs bm' \<union> unsuspended_refs us'" using 1(7) 2(5,6) by blast
      moreover have "set us \<subseteq> set us'" using 1(6) 2(5) by (rule subset_trans)
      ultimately show ?thesis using 2(2,3) 1(4) by (intro exI [of _ bm'] exI [of _ us']) simp
    qed
  qed
qed

text \<open>Once a reference is known, all suspended blocks it completes come out in causal order, and
  the invariant holds with them known.\<close>

lemma try_unsuspend_children_correct:
  assumes "bm_inv_loop Q gc K {p} {} bm" and "p \<in> K"
    and "\<And>b. Q b \<Longrightarrow> vb_author b < committee_size (ctx_committee (bm_context bm))"
  shows "\<exists>bm' bs. try_unsuspend_children_blocks p bm = Some (bm', bs) \<and> bm_inv Q gc (K \<union> reference ` set bs) bm'
     \<and> ordered_after gc K bs \<and> (\<forall>b\<in>set bs. Q b) \<and> bm_context bm' = bm_context bm \<and> missing_refs bm' \<subseteq> missing_refs bm
     \<and> suspended_refs bm \<subseteq> suspended_refs bm' \<union> reference ` set bs"
proof -
  have "loop_state Q gc K {} (bm, [p], [])" using assms(1,2) by (simp add: loop_state_def)
  from unsuspend_loop_correct [OF this] obtain bm' us where
    l: "unsuspend_loop bm [p] [] = Some (bm', us)" "loop_state Q gc K {} (bm', [], us)"
      "bm_context bm' = bm_context bm" "missing_refs bm' \<subseteq> missing_refs bm"
      "suspended_refs bm \<subseteq> suspended_refs bm' \<union> unsuspended_refs us" by blast
  have Q: "\<forall>s\<in>set us. Q (sus_block s)" using l(2) by (simp add: loop_state_def)
  have "map_opt (\<lambda>s. bm_hostname bm' (vb_author (sus_block s))) us = Some (map (\<lambda>_. ()) us)"
    by (rule map_opt_total) (use Q assms(3) l(3) in \<open>simp add: bm_hostname_total\<close>)
  then have "try_unsuspend_children_blocks p bm = Some (bm', map sus_block us)"
    using l(1) by (auto simp: try_unsuspend_children_blocks_def)
  then show ?thesis
    using l(2-5) Q by (intro exI [of _ bm'] exI [of _ "map sus_block us"]) (simp add: loop_state_def bm_inv_def image_image)
qed

section \<open>Receiving a block\<close>

text \<open>The state after noting the missing ones among some ancestors of \<open>r\<close>.\<close>

definition noted :: "block_ref \<Rightarrow> block_ref set \<Rightarrow> block_manager \<times> block_ref list \<times> block_ref list
    \<Rightarrow> block_manager \<times> block_ref list \<times> block_ref list \<Rightarrow> bool" where
  "noted r A = (\<lambda>(bm, missing, fetch) (bm', missing', fetch'). bm_shape bm' \<and> bm_suspended bm' = bm_suspended bm
     \<and> bm_context bm' = bm_context bm \<and> bset_wf missing' \<and> set missing' = set missing \<union> A
     \<and> set fetch' = set fetch \<union> (A - suspended_refs bm)
     \<and> asks bm' = asks bm \<union> {r} \<times> A \<and> missing_refs bm' = missing_refs bm \<union> A
     \<and> set (bm_missing_blocks bm') = set (bm_missing_blocks bm) \<union> (A - suspended_refs bm))"

lemma note_missing_step:
  assumes "bm_shape bm" and "bset_wf missing" and "br_author a < committee_size (ctx_committee (bm_context bm))"
  shows "\<exists>st. note_missing r (False, a) (bm, missing, fetch) = Some st \<and> noted r {a} (bm, missing, fetch) st"
proof -
  let ?m = "bm_missing_ancestors bm"
  let ?rs = "bset_insert r (bmap_entry [] ?m a)"
  let ?bm = "bm\<lparr>bm_missing_ancestors := bmap_insert a ?rs ?m\<rparr>"
  have "bset_wf (bmap_entry [] ?m a)"
    using assms(1) by (auto simp: bmap_entry_def bm_shape_def ran_def split: option.splits)
  then have shape: "bm_shape ?bm" "bm_shape (?bm\<lparr>bm_missing_blocks := bset_insert a (bm_missing_blocks bm)\<rparr>)"
    using assms(1,3) by (auto simp: bm_shape_def ran_def split: if_splits)
  have asks: "asks ?bm = asks bm \<union> {r} \<times> {a}" by (auto simp: asks_def bmap_entry_def split: if_splits option.splits)
  have asks': "asks (?bm\<lparr>bm_missing_blocks := X\<rparr>) = asks ?bm" for X by (simp add: asks_def)
  have host: "bm_hostname bm (br_author a) = Some ()" using assms(3) by (rule bm_hostname_total)
  show ?thesis
  proof (cases "is_suspended bm a")
    case True
    then show ?thesis
      using assms(2) shape asks host by (auto simp: note_missing_def noted_def Let_def)
  next
    case False
    then show ?thesis
      using assms(2) shape asks host asks' by (auto simp: note_missing_def noted_def Let_def)
  qed
qed

lemma noted_trans:
  assumes "noted r A st st'" and "noted r B st' st''"
  shows "noted r (A \<union> B) st st''"
  using assms by (auto simp: noted_def split: prod.splits)

lemma note_missing_loop:
  assumes "bm_shape bm" and "bset_wf missing"
    and "\<forall>a\<in>set as. br_author a < committee_size (ctx_committee (bm_context bm))"
  shows "\<exists>st. for_each (note_missing r) (zip (map (\<lambda>a. a \<in> K) as) as) (bm, missing, fetch) = Some st
     \<and> noted r (set as - K) (bm, missing, fetch) st"
  using assms
proof (induction as arbitrary: bm missing fetch)
  case Nil
  then show ?case by (simp add: noted_def)
next
  case (Cons a as)
  show ?case
  proof (cases "a \<in> K")
    case True
    then show ?thesis using Cons.IH [OF Cons.prems(1,2)] Cons.prems(3) by (simp add: note_missing_def insert_Diff_if)
  next
    case False
    have a: "br_author a < committee_size (ctx_committee (bm_context bm))" using Cons.prems(3) by simp
    from note_missing_step [OF Cons.prems(1,2) a, of r fetch] obtain bm1 m1 f1 where
      1: "note_missing r (False, a) (bm, missing, fetch) = Some (bm1, m1, f1)" "noted r {a} (bm, missing, fetch) (bm1, m1, f1)"
      by auto
    then have "bm_shape bm1" "bset_wf m1" "bm_context bm1 = bm_context bm" by (simp_all add: noted_def)
    with Cons.IH [of bm1 m1 f1] Cons.prems(3) obtain st where
      2: "for_each (note_missing r) (zip (map (\<lambda>a. a \<in> K) as) as) (bm1, m1, f1) = Some st"
        "noted r (set as - K) (bm1, m1, f1) st" by auto
    have "{a} \<union> (set as - K) = set (a # as) - K" using False by auto
    then have "noted r (set (a # as) - K) (bm, missing, fetch) st" using noted_trans [OF 1(2) 2(2)] by simp
    then show ?thesis using 1(1) 2(1) False by simp
  qed
qed

abbreviation known_refs :: "dag_state \<Rightarrow> block_ref set" where
  "known_refs d \<equiv> dom (dag_lookup d)"

text \<open>What the manager does with a received block.\<close>

definition one_block_result ::
    "(verified_block \<Rightarrow> bool) \<Rightarrow> dag_state \<Rightarrow> verified_block \<Rightarrow> block_manager \<Rightarrow> block_manager \<Rightarrow> try_accept_result \<Rightarrow> bool" where
  "one_block_result Q d b bm bm' res \<longleftrightarrow> (let r = reference b; K = known_refs d; gc = gc_round d in
     bm_context bm' = bm_context bm \<and>
     (case res of
        Processed \<Rightarrow> bm' = bm \<and> (r \<in> suspended_refs bm \<or> r \<in> K)
      | Skipped \<Rightarrow> bm' = bm \<and> vb_round b \<le> gc
      | Suspended fetch \<Rightarrow> bm_inv Q gc K bm' \<and> suspended_refs bm' = insert r (suspended_refs bm)
          \<and> set fetch \<subseteq> set (bm_missing_blocks bm')
      | Accepted b' \<Rightarrow> b' = b \<and> r \<notin> K \<and> bm_suspended bm' = bm_suspended bm \<and> gc < vb_round b
          \<and> (\<forall>a\<in>set (vb_ancestors b). gc < br_round a \<longrightarrow> a \<in> K)
          \<and> bm_inv_loop Q gc (insert r K) {r} {} bm'))"

lemma suspend_block:
  fixes now :: nat
  assumes "bm_inv Q gc K bm" and "noted r A (bm, [], []) (bm1, missing, fetch)" and "A \<noteq> {}" and "A \<inter> K = {}"
    and "r \<notin> suspended_refs bm" and "r \<notin> K" and "r \<notin> A" and "Q b" and "reference b = r" and "A \<subseteq> set (vb_ancestors b)"
    and "\<forall>a\<in>set (vb_ancestors b). gc < br_round a \<longrightarrow> a \<in> K \<or> a \<in> A"
  defines "bm2 \<equiv> bm1\<lparr>bm_missing_blocks := bset_remove r (bm_missing_blocks bm1),
     bm_suspended := bmap_insert r (SuspendedBlock_new now b missing) (bm_suspended bm1)\<rparr>"
  shows "bm_inv Q gc K bm2" and "suspended_refs bm2 = insert r (suspended_refs bm)"
    and "set fetch \<subseteq> set (bm_missing_blocks bm2)"
proof -
  note I = bm_inv_loopD [OF assms(1) [unfolded bm_inv_def]]
  from assms(2) have n: "bm_shape bm1" "bm_suspended bm1 = bm_suspended bm" "bset_wf missing" "set missing = A"
    "set fetch = A - suspended_refs bm" "asks bm1 = asks bm \<union> {r} \<times> A" "missing_refs bm1 = missing_refs bm \<union> A"
    "set (bm_missing_blocks bm1) = set (bm_missing_blocks bm) \<union> (A - suspended_refs bm)" by (auto simp: noted_def)
  have new: "map_of (bm_suspended bm) r = None" using assms(5) by auto
  have asks: "asks bm2 = asks bm \<union> {r} \<times> A" using n(6) by (simp add: bm2_def asks_def)
  have waits: "waits bm2 = waits bm \<union> {r} \<times> A"
    using new n(4) by (auto simp: bm2_def waits_def n(2) SuspendedBlock_new_def split: if_splits)
  show dom: "suspended_refs bm2 = insert r (suspended_refs bm)" by (simp add: bm2_def n(2))
  have mb: "set (bm_missing_blocks bm2) = set (bm_missing_blocks bm) \<union> (A - suspended_refs bm) - {r}"
    using n(8) by (simp add: bm2_def)
  show "set fetch \<subseteq> set (bm_missing_blocks bm2)" unfolding mb n(5) using assms(7) by blast
  have miss: "missing_refs bm2 = missing_refs bm \<union> A" using n(7) by (simp add: bm2_def)
  show "bm_inv Q gc K bm2"
    unfolding bm_inv_def
  proof (rule bm_inv_loopI)
    show "bm_shape bm2" using n(1) by (simp add: bm2_def bm_shape_def)
    show "waits bm2 = asks bm2 \<union> {}" using I(2) waits asks by simp
    show "suspended_ok Q gc K r' t" if "map_of (bm_suspended bm2) r' = Some t" for r' t
    proof (cases "r' = r")
      case True
      then have "t = SuspendedBlock_new now b missing" using that by (simp add: bm2_def)
      moreover have "missing \<noteq> []" using n(4) assms(3) by auto
      ultimately show ?thesis
        using True assms(8-11) n(3,4) by (simp add: suspended_ok_def SuspendedBlock_new_def)
    next
      case False
      then show ?thesis using that I(4) by (simp add: bm2_def n(2))
    qed
    show "suspended_refs bm2 \<inter> K = {}" using I(5) assms(6) unfolding dom by auto
    show "missing_refs bm2 \<inter> K \<subseteq> {}" using I(6) assms(4) unfolding miss by auto
    show "set (bm_missing_blocks bm2) = missing_refs bm2 - suspended_refs bm2 - K"
      unfolding mb miss dom I(7) using assms(4) by auto
  qed simp
qed

lemma try_accept_one_block_correct:
  assumes "view_ok d" and "bm_inv Q (gc_round d) (known_refs d) bm" and "Q b" and "bm_context bm = ds_context d"
    and "\<And>b. Q b \<Longrightarrow> block_linked (ds_committee d) b"
  shows "\<exists>bm' res. try_accept_one_block now b d bm = Some (bm', res) \<and> one_block_result Q d b bm bm' res"
proof -
  let ?r = "reference b" and ?K = "known_refs d" and ?gc = "gc_round d"
  note I = bm_inv_loopD [OF assms(2) [unfolded bm_inv_def]] and wf = view_okD(1) [OF assms(1)]
  have b: "well_linked (ds_committee d) b" "vb_author b < committee_size (ds_committee d)"
    using assms(5) [OF assms(3)] by (simp_all add: block_linked_def)
  have host: "bm_hostname bm (vb_author b) = Some ()" using b(2) assms(4) by (simp add: bm_hostname_total)
  have known: "contains_block d ?r = Some (?r \<in> ?K)" using contains_block_eq [OF wf, of ?r] b(2) by (auto simp: domIff)
  consider "is_suspended bm ?r \<or> ?r \<in> ?K" | "\<not> is_suspended bm ?r" "?r \<notin> ?K" "vb_round b \<le> ?gc"
    | "\<not> is_suspended bm ?r" "?r \<notin> ?K" "?gc < vb_round b" by linarith
  then show ?thesis
  proof cases
    case 1
    then show ?thesis
      using known by (intro exI [of _ bm] exI [of _ Processed]) (auto simp: try_accept_one_block_def one_block_result_def Let_def)
  next
    case 2
    then show ?thesis
      using known host by (intro exI [of _ bm] exI [of _ Skipped]) (simp add: try_accept_one_block_def one_block_result_def Let_def)
  next
    case 3
    let ?as = "filter (\<lambda>a. br_round a = GENESIS_ROUND \<or> br_round a > ?gc) (vb_ancestors b)"
    let ?A = "set ?as - ?K"
    have as: "\<forall>a\<in>set ?as. br_author a < committee_size (ds_committee d)" using b(1) by (auto simp: well_linked_def)
    have found: "contains_blocks d ?as = Some (map (\<lambda>a. a \<in> ?K) ?as)"
      using contains_blocks_eq [OF wf as] by (simp add: domIff)
    from note_missing_loop [OF I(1), of "[]" ?as ?r ?K "[]"] as assms(4) obtain bm1 missing fetch where
      n: "for_each (note_missing ?r) (zip (map (\<lambda>a. a \<in> ?K) ?as) ?as) (bm, [], []) = Some (bm1, missing, fetch)"
        "noted ?r ?A (bm, [], []) (bm1, missing, fetch)" by auto
    have miss: "set missing = ?A" "bm_context bm1 = bm_context bm" "bm_suspended bm1 = bm_suspended bm"
      using n(2) by (simp_all add: noted_def)
    let ?bm2 = "bm1\<lparr>bm_missing_blocks := bset_remove ?r (bm_missing_blocks bm1)\<rparr>"
    have run: "try_accept_one_block now b d bm = (if missing \<noteq> []
        then Some (?bm2\<lparr>bm_suspended := bmap_insert ?r (SuspendedBlock_new now b missing) (bm_suspended ?bm2)\<rparr>, Suspended fetch)
        else Some (?bm2, Accepted b))"
      using 3 known found n(1) host by (simp add: try_accept_one_block_def Let_def)
    have covered: "\<forall>a\<in>set (vb_ancestors b). ?gc < br_round a \<longrightarrow> a \<in> ?K \<or> a \<in> ?A" by auto
    have self: "?r \<notin> ?A" using b(1) by (auto simp: well_linked_def)
    show ?thesis
    proof (cases "missing = []")
      case False
      then have "?A \<noteq> {}" unfolding miss(1) [symmetric] by simp
      note s = suspend_block [OF assms(2) n(2) this _ _ _ self assms(3) refl _ covered, of now]
      show ?thesis
        unfolding run using False 3 s miss(2) by (auto simp: one_block_result_def Let_def domIff)
    next
      case True
      then have A: "?A = {}" unfolding miss(1) [symmetric] by simp
      have shape: "bm_shape bm1" using n(2) by (simp add: noted_def)
      have q: "asks ?bm2 = asks bm" "waits ?bm2 = waits bm" "missing_refs ?bm2 = missing_refs bm"
        "set (bm_missing_blocks ?bm2) = set (bm_missing_blocks bm) - {?r}" "bm_shape ?bm2"
        using n(2) shape unfolding A by (simp_all add: noted_def asks_def waits_def) (simp add: bm_shape_def)
      have "bm_inv_loop Q ?gc (insert ?r ?K) {?r} {} ?bm2"
      proof (rule bm_inv_loopI)
        show "waits ?bm2 = asks ?bm2 \<union> {}" using I(2) q by simp
        show "suspended_ok Q ?gc (insert ?r ?K) r s" if "map_of (bm_suspended ?bm2) r = Some s" for r s
          using that I(4) [of r s] miss(3) by (auto simp: suspended_ok_def)
        show "suspended_refs ?bm2 \<inter> insert ?r ?K = {}" using I(5) 3(1) miss(3) by auto
        show "missing_refs ?bm2 \<inter> insert ?r ?K \<subseteq> {?r}" unfolding q using I(6) by auto
        show "set (bm_missing_blocks ?bm2) = missing_refs ?bm2 - suspended_refs ?bm2 - insert ?r ?K"
          unfolding q I(7) using miss(3) by auto
      qed (use q(5) in simp_all)
      moreover have "\<forall>a\<in>set (vb_ancestors b). ?gc < br_round a \<longrightarrow> a \<in> ?K" using covered unfolding A by blast
      ultimately show ?thesis
        unfolding run using True 3 miss(2,3) by (simp add: one_block_result_def Let_def)
    qed
  qed
qed

section \<open>Garbage collection\<close>

text \<open>A reference that is not suspended leaves the blocks to fetch and counts as known.\<close>

lemma mark_known:
  assumes "bm_inv Q gc K bm" and "r \<notin> suspended_refs bm"
  defines "bm1 \<equiv> bm\<lparr>bm_missing_blocks := bset_remove r (bm_missing_blocks bm)\<rparr>"
  shows "bm_inv_loop Q gc (insert r K) {r} {} bm1"
proof (rule bm_inv_loopI)
  note I = bm_inv_loopD [OF assms(1) [unfolded bm_inv_def]]
  show "bm_shape bm1" using I(1) by (simp add: bm1_def bm_shape_def)
  show "waits bm1 = asks bm1 \<union> {}" using I(2) by (simp add: bm1_def waits_def asks_def)
  show "suspended_ok Q gc (insert r K) r' s" if "map_of (bm_suspended bm1) r' = Some s" for r' s
    using that I(4) [of r' s] by (auto simp: bm1_def suspended_ok_def)
  show "suspended_refs bm1 \<inter> insert r K = {}" using I(5) assms(2) by (auto simp: bm1_def)
  show "missing_refs bm1 \<inter> insert r K \<subseteq> {r}" using I(6) by (auto simp: bm1_def)
  show "set (bm_missing_blocks bm1) = missing_refs bm1 - suspended_refs bm1 - insert r K"
    using I(7) by (auto simp: bm1_def)
qed simp

text \<open>A reference at or below the garbage collection round need not stay known.\<close>

lemma forget_collected:
  assumes "bm_inv Q gc (insert r K) bm" and "br_round r \<le> gc"
  shows "bm_inv Q gc K bm"
proof -
  note I = bm_inv_loopD [OF assms(1) [unfolded bm_inv_def]]
  show ?thesis
    unfolding bm_inv_def
  proof (rule bm_inv_loopI)
    show "suspended_ok Q gc K r' s" if "map_of (bm_suspended bm) r' = Some s" for r' s
      using I(4) [OF that] assms(2) by (auto simp: suspended_ok_def)
    show "set (bm_missing_blocks bm) = missing_refs bm - suspended_refs bm - K" using I(6,7) by auto
  qed (use I in auto)
qed

lemma ordered_after_collected:
  "ordered_after gc (insert r K) bs \<Longrightarrow> br_round r \<le> gc \<Longrightarrow> ordered_after gc K bs"
proof (induction bs arbitrary: K)
  case (Cons b bs)
  then have "ordered_after gc (insert r (insert (reference b) K)) bs" by (simp add: insert_commute)
  then have "ordered_after gc (insert (reference b) K) bs" using Cons.IH Cons.prems(2) by blast
  then show ?case using Cons.prems by auto
qed simp

text \<open>The missing ancestor of the lowest round is not suspended, so the assertion of the garbage
  collection holds.\<close>

lemma first_missing_not_suspended:
  assumes "bm_inv Q gc K bm" and "bm_missing_ancestors bm = (r, cs) # rest" and "\<And>b. Q b \<Longrightarrow> block_linked c b"
  shows "r \<notin> suspended_refs bm"
proof
  note I = bm_inv_loopD [OF assms(1) [unfolded bm_inv_def]]
  assume "r \<in> suspended_refs bm"
  then obtain s where s: "map_of (bm_suspended bm) r = Some s" by auto
  note ok = I(4) [OF s, unfolded suspended_ok_def]
  then obtain a where a: "a \<in> set (sus_missing s)" by (cases "sus_missing s") auto
  then have "a \<in> set (vb_ancestors (sus_block s))" using ok by auto
  then have less: "br_round a < br_round r" using ok assms(3) [of "sus_block s"] by (auto simp: block_linked_def well_linked_def)
  have "(r, a) \<in> waits bm" using s a by (auto simp: waits_def)
  then have "a \<in> missing_refs bm" using I(2) by (auto simp: asks_def)
  then have "a \<in> fst ` set ((r, cs) # rest)" using assms(2) by (simp add: dom_map_of_conv_image_fst)
  moreover have "bmap_wf ((r, cs) # rest)" using I(1) assms(2) by (simp add: bm_shape_def)
  ultimately have "r \<le> a" by (auto simp: bmap_wf_def)
  then show False using less by (auto simp: less_eq_block_ref_def ref_tuple_def)
qed

end
