(* ===== verification/Block_Acceptance.thy ===== *)
theory Block_Acceptance
  imports Block_Manager_Lemmas
begin

text \<open>
  The block manager together with the DAG state: every operation of the manager is a sequence of
  view steps, so all results on reachable views hold for a validator that receives blocks in any
  order, and what is suspended is exactly what still misses causal history.
\<close>

section \<open>Blocks from peers\<close>

definition verified_by :: "crypto \<Rightarrow> signed_block_verifier \<Rightarrow> verified_block \<Rightarrow> bool" where
  "verified_by cr v b \<longleftrightarrow> (\<exists>sb serialized rejected. verify_and_vote cr v sb serialized = Some (Inr (b, rejected)))"

text \<open>A block of another authority that passed verification. Rounds below the maximum leave room
  for the threshold clock.\<close>

definition peer_block :: "crypto \<Rightarrow> signed_block_verifier \<Rightarrow> verified_block \<Rightarrow> bool" where
  "peer_block cr v b \<longleftrightarrow> verified_by cr v b \<and> vb_author b \<noteq> own_index (sbv_context v) \<and> vb_round b < u32_max"

lemma peer_block_linked:
  assumes "committee_wf (ctx_committee (sbv_context v))" and "peer_block cr v b"
  shows "block_linked (ctx_committee (sbv_context v)) b"
  using assms(2) verified_links [OF assms(1)] by (auto simp: peer_block_def verified_by_def block_linked_def)

text \<open>A validator without the v3 scoring data that holds a valid view.\<close>

definition node_ok :: "crypto \<Rightarrow> signed_block_verifier \<Rightarrow> dag_state \<Rightarrow> bool" where
  "node_ok cr v d \<longleftrightarrow> view_ok d \<and> ds_context d = sbv_context v \<and> \<not> enable_v3 (protocol_config (sbv_context v))"

definition manager_ok :: "crypto \<Rightarrow> signed_block_verifier \<Rightarrow> block_manager \<times> dag_state \<Rightarrow> bool" where
  "manager_ok cr v = (\<lambda>(bm, d). node_ok cr v d \<and> bm_context bm = sbv_context v
     \<and> bm_inv (peer_block cr v) (gc_round d) (known_refs d) bm)"

lemma node_okD:
  assumes "node_ok cr v d"
  shows "view_ok d" and "ds_context d = sbv_context v" and "committee_wf (ctx_committee (sbv_context v))"
    and "\<And>b. peer_block cr v b \<Longrightarrow> block_linked (ds_committee d) b"
proof -
  show v: "view_ok d" and c: "ds_context d = sbv_context v" using assms by (simp_all add: node_ok_def)
  show w: "committee_wf (ctx_committee (sbv_context v))" using view_okD(3) [OF v] c by simp
  show "peer_block cr v b \<Longrightarrow> block_linked (ds_committee d) b" for b using peer_block_linked [OF w] c by simp
qed

section \<open>Handing blocks to the DAG state\<close>

definition node_extends :: "crypto \<Rightarrow> signed_block_verifier \<Rightarrow> dag_state \<Rightarrow> dag_state \<Rightarrow> block_ref set \<Rightarrow> bool" where
  "node_extends cr v d d' R \<longleftrightarrow> node_ok cr v d' \<and> (view_step cr v)\<^sup>*\<^sup>* d d' \<and> gc_round d' = gc_round d
     \<and> known_refs d' = known_refs d \<union> R \<and> committed_refs d' = committed_refs d \<and> ds_last_commit d' = ds_last_commit d
     \<and> (commits_ok d \<longrightarrow> commits_ok d')"

lemma node_extends_refl: "node_ok cr v d \<Longrightarrow> node_extends cr v d d {}"
  by (simp add: node_extends_def)

lemma node_extends_trans: "node_extends cr v d1 d2 R \<Longrightarrow> node_extends cr v d2 d3 R' \<Longrightarrow> node_extends cr v d1 d3 (R \<union> R')"
  by (auto simp: node_extends_def)

lemma accept_block_extends:
  assumes "node_ok cr v d" and "peer_block cr v b" and "reference b \<notin> known_refs d"
    and "\<forall>a\<in>set (vb_ancestors b). gc_round d < br_round a \<longrightarrow> a \<in> known_refs d"
  shows "\<exists>d'. accept_block now b d = Some d' \<and> node_extends cr v d d' {reference b}"
proof -
  note n = node_okD [OF assms(1)] and wf = view_okD(1) [OF node_okD(1) [OF assms(1)]]
  have b: "well_linked (ds_committee d) b" "vb_author b < committee_size (ds_committee d)" "0 < vb_round b"
    using n(4) [OF assms(2)] by (simp_all add: block_linked_def)
  from assms(2) obtain sb ser rej where ver: "verify_and_vote cr v sb ser = Some (Inr (b, rej))"
    and own: "vb_author b \<noteq> own_index (ds_context d)" "vb_round b < u32_max"
    using n(2) by (auto simp: peer_block_def verified_by_def)
  have "\<exists>d'. accept_block now b d = Some d'"
    by (rule accept_block_total [OF wf b(3) own(2) b(2)]) (use own assms(1) n(2) in \<open>simp_all add: node_ok_def\<close>)
  then obtain d' where d': "accept_block now b d = Some d'" by blast
  have anc: "\<forall>a\<in>set (vb_ancestors b). gc_round d < br_round a \<longrightarrow> contains_block d a = Some True"
    using assms(4) b(1) contains_block_eq [OF wf] by (auto simp: well_linked_def domIff)
  have step: "view_step cr v d d'" by (rule view_step.accept [OF ver anc d'])
  note acc = accept_block_lookup [OF wf d' b(2)]
  have "view_ok d' \<and> gc_round d' = gc_round d \<and> ds_context d' = ds_context d"
    using assms(4) by (intro view_ok_accept [OF n(1) d' b(1,2)]) auto
  moreover have "known_refs d' = insert (reference b) (known_refs d)" using acc assms(3) by (auto simp: domIff)
  ultimately show ?thesis
    using d' step acc assms(1) n(2) accept_block_committed [OF wf d' b(2)] commits_ok_accept [OF n(1) _ d' b(2)]
    by (intro exI [of _ d']) (auto simp: node_extends_def node_ok_def)
qed

lemma accept_blocks_extends:
  assumes "node_ok cr v d" and "\<forall>b\<in>set bs. peer_block cr v b" and "ordered_after (gc_round d) (known_refs d) bs"
  shows "\<exists>d'. accept_blocks now bs d = Some d' \<and> node_extends cr v d d' (reference ` set bs)"
  using assms
proof (induction bs arbitrary: d)
  case Nil
  then show ?case by (simp add: accept_blocks_def node_extends_refl)
next
  case (Cons b bs)
  from accept_block_extends [of cr v d b now] Cons.prems obtain d1 where
    1: "accept_block now b d = Some d1" "node_extends cr v d d1 {reference b}" by auto
  then have "node_ok cr v d1" "gc_round d1 = gc_round d" "known_refs d1 = insert (reference b) (known_refs d)"
    by (simp_all add: node_extends_def)
  with Cons.IH [of d1] Cons.prems(2,3) obtain d' where
    2: "accept_blocks now bs d1 = Some d'" "node_extends cr v d1 d' (reference ` set bs)" by auto
  show ?case
    using 1(1) 2(1) node_extends_trans [OF 1(2) 2(2)] by (intro exI [of _ d']) (simp add: accept_blocks_def)
qed

section \<open>Accepting a block with its suspended children\<close>

lemma accept_with_children_correct:
  assumes "node_ok cr v d" and "bm_context bm = sbv_context v" and "ordered_after (gc_round d) (known_refs d) bs"
    and "\<forall>b\<in>set bs. peer_block cr v b"
    and "bm_inv_loop (peer_block cr v) (gc_round d) (known_refs d \<union> reference ` set bs) {r} {} bm"
    and "r \<in> known_refs d \<union> reference ` set bs"
  shows "\<exists>bm' d' us. accept_with_children now r bs (bm, d, acc) = Some (bm', d', acc @ bs @ us)
     \<and> manager_ok cr v (bm', d') \<and> node_extends cr v d d' (reference ` set (bs @ us)) \<and> (\<forall>u\<in>set us. peer_block cr v u)
     \<and> suspended_refs bm \<subseteq> suspended_refs bm' \<union> known_refs d'"
proof -
  note n = node_okD [OF assms(1)]
  have author: "peer_block cr v b \<Longrightarrow> vb_author b < committee_size (ctx_committee (bm_context bm))" for b
    using peer_block_linked [OF n(3)] assms(2) by (simp add: block_linked_def)
  from try_unsuspend_children_correct [OF assms(5,6) author] obtain bm' us where
    u: "try_unsuspend_children_blocks r bm = Some (bm', us)"
      "bm_inv (peer_block cr v) (gc_round d) (known_refs d \<union> reference ` set bs \<union> reference ` set us) bm'"
      "ordered_after (gc_round d) (known_refs d \<union> reference ` set bs) us" "\<forall>b\<in>set us. peer_block cr v b"
      "bm_context bm' = bm_context bm" "suspended_refs bm \<subseteq> suspended_refs bm' \<union> reference ` set us" by blast
  have "ordered_after (gc_round d) (known_refs d) (bs @ us)" using assms(3) u(3) by (simp add: ordered_after_append)
  moreover have "\<forall>b\<in>set (bs @ us). peer_block cr v b" using assms(4) u(4) by auto
  ultimately obtain d' where d': "accept_blocks now (bs @ us) d = Some d'"
    "node_extends cr v d d' (reference ` set (bs @ us))" using accept_blocks_extends [OF assms(1)] by blast
  then have "manager_ok cr v (bm', d')"
    using u(2,5) assms(2) by (simp add: manager_ok_def node_extends_def image_Un Un_assoc)
  moreover have "accept_with_children now r bs (bm, d, acc) = Some (bm', d', acc @ bs @ us)"
    using u(1) d'(1) by (simp add: accept_with_children_def)
  moreover have "suspended_refs bm \<subseteq> suspended_refs bm' \<union> known_refs d'" using u(6) d'(2) by (auto simp: node_extends_def)
  ultimately show ?thesis using d'(2) u(4) by blast
qed

section \<open>Receiving blocks\<close>

text \<open>Known or suspended: the blocks the node has received and kept.\<close>

definition received_refs :: "block_manager \<times> dag_state \<Rightarrow> block_ref set" where
  "received_refs = (\<lambda>(bm, d). known_refs d \<union> suspended_refs bm)"

lemma accept_one_correct:
  assumes "manager_ok cr v (bm, d)" and "peer_block cr v b"
  shows "\<exists>bm' d' new missing'. accept_one now False b (bm, d, acc, missing) = Some (bm', d', acc @ new, missing')
     \<and> manager_ok cr v (bm', d') \<and> node_extends cr v d d' (reference ` set new)
     \<and> received_refs (bm, d) \<subseteq> received_refs (bm', d') \<and> (vb_round b \<le> gc_round d \<or> reference b \<in> received_refs (bm', d'))"
proof -
  let ?Q = "peer_block cr v" and ?gc = "gc_round d" and ?K = "known_refs d" and ?r = "reference b"
  from assms(1) have node: "node_ok cr v d" and ctx: "bm_context bm = sbv_context v" and inv: "bm_inv ?Q ?gc ?K bm"
    by (simp_all add: manager_ok_def)
  note n = node_okD [OF node]
  have "vb_author b < committee_size (ctx_committee (bm_context bm))"
    using peer_block_linked [OF n(3) assms(2)] ctx by (simp add: block_linked_def)
  from received_metrics_inv [OF inv this] obtain bm0 where m: "update_block_received_metrics b bm = Some bm0"
    "bm_inv ?Q ?gc ?K bm0" "bm_context bm0 = bm_context bm" "bm_suspended bm0 = bm_suspended bm" by blast
  have ctx0: "bm_context bm0 = ds_context d" using m(3) ctx n(2) by simp
  from try_accept_one_block_correct [OF n(1) m(2) assms(2) ctx0 n(4)] obtain bm1 res where
    one: "try_accept_one_block now b d bm0 = Some (bm1, res)" "one_block_result ?Q d b bm0 bm1 res" by blast
  have ok0: "manager_ok cr v (bm0, d)" using m node ctx by (simp add: manager_ok_def)
  have ctx1: "bm_context bm1 = sbv_context v" using one(2) ctx0 n(2) by (simp add: one_block_result_def Let_def)
  show ?thesis
  proof (cases res)
    case (Accepted b')
    then have a: "b' = b" "?r \<notin> ?K" "bm_suspended bm1 = bm_suspended bm0"
      "\<forall>a\<in>set (vb_ancestors b). ?gc < br_round a \<longrightarrow> a \<in> ?K" "bm_inv_loop ?Q ?gc (insert ?r ?K) {?r} {} bm1"
      using one(2) by (simp_all add: one_block_result_def Let_def)
    from accept_with_children_correct [OF node ctx1, of "[b]" ?r now acc] a assms(2) obtain bm' d' us where
      c: "accept_with_children now ?r [b] (bm1, d, acc) = Some (bm', d', acc @ [b] @ us)" "manager_ok cr v (bm', d')"
        "node_extends cr v d d' (reference ` set ([b] @ us))" "suspended_refs bm1 \<subseteq> suspended_refs bm' \<union> known_refs d'"
      by auto
    have "received_refs (bm, d) \<subseteq> received_refs (bm', d')" "?r \<in> received_refs (bm', d')"
      using c(3,4) a(3) m(4) by (auto simp: received_refs_def node_extends_def)
    moreover have "accept_one now False b (bm, d, acc, missing) = Some (bm', d', acc @ b # us, missing)"
      using m(1) one(1) c(1) Accepted a(1) by (simp add: accept_one_def)
    ultimately show ?thesis
      using c(2,3) by (intro exI [of _ bm'] exI [of _ d'] exI [of _ "b # us"] exI [of _ missing]) simp
  next
    case (Suspended fetch)
    then have s: "bm_inv ?Q ?gc ?K bm1" "suspended_refs bm1 = insert ?r (suspended_refs bm)"
      using one(2) m(4) by (simp_all add: one_block_result_def Let_def)
    have "accept_one now False b (bm, d, acc, missing) = Some (bm1, d, acc, bset_extend missing fetch)"
      using m(1) one(1) Suspended by (simp add: accept_one_def)
    then show ?thesis
      using s node ctx1 by (intro exI [of _ bm1] exI [of _ d] exI [of _ "[]"] exI [of _ "bset_extend missing fetch"])
        (auto simp: manager_ok_def received_refs_def node_extends_refl)
  next
    case Processed
    then have "bm1 = bm0" "?r \<in> received_refs (bm0, d)"
      using one(2) by (auto simp: one_block_result_def Let_def received_refs_def)
    moreover have "accept_one now False b (bm, d, acc, missing) = Some (bm1, d, acc, missing)"
      using m(1) one(1) Processed by (simp add: accept_one_def)
    ultimately show ?thesis
      using ok0 node m(4) by (intro exI [of _ bm0] exI [of _ d] exI [of _ "[]"] exI [of _ missing])
        (simp add: received_refs_def node_extends_refl)
  next
    case Skipped
    then have "bm1 = bm0" "vb_round b \<le> ?gc" using one(2) by (simp_all add: one_block_result_def Let_def)
    moreover have "accept_one now False b (bm, d, acc, missing) = Some (bm1, d, acc, missing)"
      using m(1) one(1) Skipped by (simp add: accept_one_def)
    ultimately show ?thesis
      using ok0 node m(4) by (intro exI [of _ bm0] exI [of _ d] exI [of _ "[]"] exI [of _ missing])
        (simp add: received_refs_def node_extends_refl)
  qed
qed

lemma accept_each_correct:
  assumes "manager_ok cr v (bm, d)" and "\<forall>b\<in>set bs. peer_block cr v b"
  shows "\<exists>bm' d' new missing'. for_each (accept_one now False) bs (bm, d, acc, missing) = Some (bm', d', acc @ new, missing')
     \<and> manager_ok cr v (bm', d') \<and> node_extends cr v d d' (reference ` set new)
     \<and> received_refs (bm, d) \<subseteq> received_refs (bm', d')
     \<and> (\<forall>b\<in>set bs. vb_round b \<le> gc_round d \<or> reference b \<in> received_refs (bm', d'))"
  using assms
proof (induction bs arbitrary: bm d acc missing)
  case Nil
  then show ?case
    by (intro exI [of _ bm] exI [of _ d] exI [of _ "[]"] exI [of _ missing]) (simp add: node_extends_refl manager_ok_def)
next
  case (Cons b bs)
  from accept_one_correct [OF Cons.prems(1), of b now acc missing] Cons.prems(2) obtain bm1 d1 new1 missing1 where
    1: "accept_one now False b (bm, d, acc, missing) = Some (bm1, d1, acc @ new1, missing1)" "manager_ok cr v (bm1, d1)"
      "node_extends cr v d d1 (reference ` set new1)" "received_refs (bm, d) \<subseteq> received_refs (bm1, d1)"
      "vb_round b \<le> gc_round d \<or> reference b \<in> received_refs (bm1, d1)" by auto
  from Cons.IH [OF 1(2), of "acc @ new1" missing1] Cons.prems(2) obtain bm' d' new missing' where
    2: "for_each (accept_one now False) bs (bm1, d1, acc @ new1, missing1) = Some (bm', d', (acc @ new1) @ new, missing')"
      "manager_ok cr v (bm', d')" "node_extends cr v d1 d' (reference ` set new)"
      "received_refs (bm1, d1) \<subseteq> received_refs (bm', d')"
      "\<forall>b\<in>set bs. vb_round b \<le> gc_round d1 \<or> reference b \<in> received_refs (bm', d')" by auto
  have gc: "gc_round d1 = gc_round d" using 1(3) by (simp add: node_extends_def)
  have "\<forall>x\<in>set (b # bs). vb_round x \<le> gc_round d \<or> reference x \<in> received_refs (bm', d')"
    using 1(5) 2(4,5) unfolding gc by auto
  moreover have "node_extends cr v d d' (reference ` set (new1 @ new))"
    using node_extends_trans [OF 1(3) 2(3)] by (simp add: image_Un)
  ultimately show ?case
    using 1(1,4) 2(1,2,4) by (intro exI [of _ bm'] exI [of _ d'] exI [of _ "new1 @ new"] exI [of _ missing']) auto
qed

section \<open>Garbage collection\<close>

lemma gc_step_correct:
  assumes "manager_ok cr v (bm, d)" and "bm_missing_ancestors bm = (r, cs) # rest" and "br_round r \<le> gc_round d"
  shows "\<exists>bm' d' us. unsuspend_gc_loop now (gc_round d) bm d = unsuspend_gc_loop now (gc_round d) bm' d'
     \<and> manager_ok cr v (bm', d') \<and> node_extends cr v d d' (reference ` set us)
     \<and> received_refs (bm, d) \<subseteq> received_refs (bm', d') \<and> missing_refs bm' \<subset> missing_refs bm"
proof -
  let ?Q = "peer_block cr v" and ?gc = "gc_round d" and ?K = "known_refs d"
  let ?bm = "bm\<lparr>bm_missing_blocks := bset_remove r (bm_missing_blocks bm)\<rparr>"
  from assms(1) have node: "node_ok cr v d" and ctx: "bm_context bm = sbv_context v" and inv: "bm_inv ?Q ?gc ?K bm"
    by (simp_all add: manager_ok_def)
  note n = node_okD [OF node] and I = bm_inv_loopD [OF inv [unfolded bm_inv_def]]
  have author: "?Q b \<Longrightarrow> vb_author b < committee_size (ctx_committee (bm_context bm))" for b
    using peer_block_linked [OF n(3)] ctx by (simp add: block_linked_def)
  have r: "r \<in> missing_refs bm" using assms(2) by simp
  have notsus: "r \<notin> suspended_refs bm" by (rule first_missing_not_suspended [OF inv assms(2) n(4)])
  have host: "bm_hostname bm (br_author r) = Some ()" using I(1) r by (intro bm_hostname_total) (simp add: bm_shape_def)
  from try_unsuspend_children_correct [OF mark_known [OF inv notsus]] author obtain bm' us where
    u: "try_unsuspend_children_blocks r ?bm = Some (bm', us)" "bm_inv ?Q ?gc (insert r ?K \<union> reference ` set us) bm'"
      "ordered_after ?gc (insert r ?K) us" "\<forall>b\<in>set us. ?Q b" "bm_context bm' = bm_context bm"
      "missing_refs bm' \<subseteq> missing_refs bm" "suspended_refs bm \<subseteq> suspended_refs bm' \<union> reference ` set us" by auto
  from accept_blocks_extends [OF node u(4) ordered_after_collected [OF u(3) assms(3)], of now] obtain d' where
    d': "accept_blocks now us d = Some d'" "node_extends cr v d d' (reference ` set us)" by blast
  have "insert r ?K \<union> reference ` set us = insert r (known_refs d')" "gc_round d' = ?gc" using d'(2) by (auto simp: node_extends_def)
  then have "bm_inv ?Q (gc_round d') (known_refs d') bm'" using u(2) forget_collected assms(3) by simp
  then have ok: "manager_ok cr v (bm', d')" using d'(2) u(5) ctx by (simp add: manager_ok_def node_extends_def)
  have "r \<notin> missing_refs bm'" using bm_inv_loopD(6) [OF u(2) [unfolded bm_inv_def]] by auto
  then have less: "missing_refs bm' \<subset> missing_refs bm" using u(6) r by blast
  have "map_opt (\<lambda>b. bm_hostname bm' (vb_author b)) us = Some (map (\<lambda>_. ()) us)"
    by (rule map_opt_total) (use author u(4,5) in \<open>simp add: bm_hostname_total\<close>)
  then have "unsuspend_gc_loop now ?gc bm d = unsuspend_gc_loop now ?gc bm' d'"
    using assms(2,3) host notsus u(1) d'(1) by (simp add: unsuspend_gc_loop.simps [of now ?gc bm d] domIff)
  moreover have "received_refs (bm, d) \<subseteq> received_refs (bm', d')"
    using u(7) d'(2) by (auto simp: received_refs_def node_extends_def)
  ultimately show ?thesis using ok d'(2) less by blast
qed

lemma unsuspend_gc_loop_correct:
  assumes "manager_ok cr v (bm, d)"
  shows "\<exists>bm' d' us. unsuspend_gc_loop now (gc_round d) bm d = Some (bm', d') \<and> manager_ok cr v (bm', d')
     \<and> node_extends cr v d d' (reference ` set us) \<and> received_refs (bm, d) \<subseteq> received_refs (bm', d')
     \<and> (\<forall>a\<in>missing_refs bm'. gc_round d < br_round a)"
  using assms
proof (induction "card (missing_refs bm)" arbitrary: bm d rule: less_induct)
  case less
  have node: "node_ok cr v d" using less.prems by (simp add: manager_ok_def)
  have stop: ?case if "unsuspend_gc_loop now (gc_round d) bm d = Some (bm, d)" "\<forall>a\<in>missing_refs bm. gc_round d < br_round a"
    using that less.prems node by (intro exI [of _ bm] exI [of _ d] exI [of _ "[]"]) (simp add: node_extends_refl)
  show ?case
  proof (cases "bm_missing_ancestors bm")
    case Nil
    then show ?thesis by (intro stop) (simp_all add: unsuspend_gc_loop.simps [of now _ bm d])
  next
    case (Cons e rest)
    obtain r cs where e: "e = (r, cs)" by (cases e)
    note ma = Cons [unfolded e]
    show ?thesis
    proof (cases "gc_round d < br_round r")
      case True
      have "bmap_wf ((r, cs) # rest)"
        using less.prems ma by (simp add: manager_ok_def bm_inv_def bm_inv_loop_def bm_shape_def)
      then have "r \<le> a" if "a \<in> missing_refs bm" for a
        using that ma by (auto simp: bmap_wf_def dom_map_of_conv_image_fst)
      then have "br_round r \<le> br_round a" if "a \<in> missing_refs bm" for a
        using that by (fastforce simp: less_eq_block_ref_def ref_tuple_def)
      with True show ?thesis using ma by (intro stop) (fastforce simp: unsuspend_gc_loop.simps [of now _ bm d])+
    next
      case False
      then have "br_round r \<le> gc_round d" by simp
      from gc_step_correct [OF less.prems ma this, of now] obtain bm1 d1 us where 1: "unsuspend_gc_loop now (gc_round d) bm d = unsuspend_gc_loop now (gc_round d) bm1 d1"
        "manager_ok cr v (bm1, d1)" "node_extends cr v d d1 (reference ` set us)"
        "received_refs (bm, d) \<subseteq> received_refs (bm1, d1)" "missing_refs bm1 \<subset> missing_refs bm" by blast
      have gc: "gc_round d1 = gc_round d" using 1(3) by (simp add: node_extends_def)
      have "card (missing_refs bm1) < card (missing_refs bm)" using 1(5) by (intro psubset_card_mono) (simp_all add: finite_dom_map_of)
      from less.hyps [OF this 1(2)] obtain bm' d' us' where
        2: "unsuspend_gc_loop now (gc_round d) bm1 d1 = Some (bm', d')" "manager_ok cr v (bm', d')"
          "node_extends cr v d1 d' (reference ` set us')" "received_refs (bm1, d1) \<subseteq> received_refs (bm', d')"
          "\<forall>a\<in>missing_refs bm'. gc_round d < br_round a" unfolding gc by blast
      have "node_extends cr v d d' (reference ` set (us @ us'))" using node_extends_trans [OF 1(3) 2(3)] by (simp add: image_Un)
      then show ?thesis
        using 1(1,4) 2 by (intro exI [of _ bm'] exI [of _ d'] exI [of _ "us @ us'"]) auto
    qed
  qed
qed

section \<open>What is suspended\<close>

lemma suspended_incomplete:
  assumes "manager_ok cr v (bm, d)" and "map_of (bm_suspended bm) r = Some s"
  shows "\<exists>a\<in>set (vb_ancestors (sus_block s)). a \<in> missing_refs bm \<and> a \<notin> known_refs d"
proof -
  from assms(1) have inv: "bm_inv (peer_block cr v) (gc_round d) (known_refs d) bm" by (simp add: manager_ok_def)
  note I = bm_inv_loopD [OF inv [unfolded bm_inv_def]]
  note ok = I(4) [OF assms(2), unfolded suspended_ok_def]
  then obtain a where a: "a \<in> set (sus_missing s)" by (cases "sus_missing s") auto
  then have "(r, a) \<in> waits bm" using assms(2) by (auto simp: waits_def)
  then have "a \<in> missing_refs bm" using I(2) by (auto simp: asks_def)
  moreover have "a \<in> set (vb_ancestors (sus_block s))" using ok a by auto
  ultimately show ?thesis using I(6) by blast
qed

lemma known_complete:
  assumes "node_ok cr v d" and "dag_lookup d r = Some b" and "a \<in> set (vb_ancestors b)" and "gc_round d < br_round a"
  shows "a \<in> known_refs d \<and> br_round a < br_round r"
proof -
  have "(r, a) \<in> causal d" using assms(2,3) by (rule causalI)
  then show ?thesis using view_okD(2) [OF node_okD(1) [OF assms(1)]] assms(4) by (auto simp: dag_closed_def)
qed

text \<open>The block a node holds for a reference, accepted or suspended.\<close>

definition held_block :: "block_manager \<times> dag_state \<Rightarrow> block_ref \<rightharpoonup> verified_block" where
  "held_block = (\<lambda>(bm, d) r. case dag_lookup d r of Some b \<Rightarrow> Some b | None \<Rightarrow> map_option sus_block (map_of (bm_suspended bm) r))"

lemma known_determined:
  assumes "manager_ok cr v (bm1, d1)" and "manager_ok cr v (bm2, d2)" and "gc_round d2 = gc_round d1"
    and "\<forall>r. gc_round d1 < br_round r \<longrightarrow> held_block (bm1, d1) r = held_block (bm2, d2) r"
    and "\<forall>a\<in>missing_refs bm2. gc_round d1 < br_round a"
    and "r \<in> known_refs d1" and "gc_round d1 < br_round r"
  shows "r \<in> known_refs d2"
  using assms(6,7)
proof (induction "br_round r" arbitrary: r rule: less_induct)
  case less
  have n1: "node_ok cr v d1" using assms(1) by (simp add: manager_ok_def)
  from less.prems(1) obtain b where b: "dag_lookup d1 r = Some b" by auto
  then have held: "held_block (bm2, d2) r = Some b" using assms(4) less.prems(2) by (auto simp: held_block_def)
  show ?case
  proof (rule ccontr)
    assume unknown: "r \<notin> known_refs d2"
    then obtain s where s: "map_of (bm_suspended bm2) r = Some s" "sus_block s = b"
      using held by (auto simp: held_block_def domIff)
    from suspended_incomplete [OF assms(2) s(1)] obtain a where
      a: "a \<in> set (vb_ancestors b)" "a \<in> missing_refs bm2" "a \<notin> known_refs d2" using s(2) by auto
    then have gc: "gc_round d1 < br_round a" using assms(5) by blast
    from known_complete [OF n1 b a(1) gc] have "a \<in> known_refs d1" "br_round a < br_round r" by simp_all
    then show False using less.hyps [of a] gc a(3) by blast
  qed
qed

section \<open>Requested blocks\<close>

lemma note_requested_step:
  assumes "bm_inv Q gc K bm" and "br_author r < committee_size (ctx_committee (bm_context bm))" and "bset_wf missing"
  shows "\<exists>bm' missing'. note_requested (r \<in> K, r) (bm, missing) = Some (bm', missing') \<and> bm_inv Q gc K bm'
     \<and> bm_context bm' = bm_context bm \<and> bm_suspended bm' = bm_suspended bm \<and> bset_wf missing'
     \<and> set missing' = set missing \<union> ({r} - K - suspended_refs bm)"
proof (cases "r \<in> K \<or> is_suspended bm r \<or> r \<in> set (bm_missing_blocks bm)")
  case True
  note I = bm_inv_loopD [OF assms(1) [unfolded bm_inv_def]]
  have "r \<in> set (bm_missing_blocks bm) \<Longrightarrow> r \<notin> K \<and> r \<notin> suspended_refs bm" unfolding I(7) by simp
  then show ?thesis using True assms(1,3) by (auto simp: note_requested_def domIff)
next
  case False
  note I = bm_inv_loopD [OF assms(1) [unfolded bm_inv_def]]
  let ?m = "bm_missing_ancestors bm"
  let ?bm = "bm\<lparr>bm_missing_blocks := bset_insert r (bm_missing_blocks bm), bm_missing_ancestors := bmap_insert r [] ?m\<rparr>"
  have "r \<notin> missing_refs bm" using False unfolding I(7) by (auto simp: domIff)
  then have new: "map_of ?m r = None" by (simp add: domIff)
  then have "bm_missing_ancestors ?bm = bmap_insert r (bmap_entry [] ?m r) ?m" by (simp add: bmap_entry_def)
  then have run: "note_requested (r \<in> K, r) (bm, missing) = Some (?bm, bset_insert r missing)"
    using False assms(2) by (simp add: note_requested_def bm_hostname_total Let_def)
  have "bm_inv Q gc K ?bm"
    unfolding bm_inv_def
  proof (rule bm_inv_loopI)
    show "bm_shape ?bm" using I(1) assms(2) by (auto simp: bm_shape_def ran_def split: if_splits)
    show "waits ?bm = asks ?bm \<union> {}" using I(2) new by (auto simp: waits_def asks_def split: if_splits)
    show "suspended_ok Q gc K r' s" if "map_of (bm_suspended ?bm) r' = Some s" for r' s using that I(4) by simp
    show "suspended_refs ?bm \<inter> K = {}" using I(5) by simp
    show "missing_refs ?bm \<inter> K \<subseteq> {}" using I(6) False by auto
    show "set (bm_missing_blocks ?bm) = missing_refs ?bm - suspended_refs ?bm - K" using I(7) False by (auto simp: domIff)
  qed simp
  then show ?thesis using run False assms(3) by (auto simp: domIff)
qed

lemma note_requested_each:
  assumes "bm_inv Q gc K bm" and "\<forall>r\<in>set rs. br_author r < committee_size (ctx_committee (bm_context bm))" and "bset_wf missing"
  shows "\<exists>bm' missing'. for_each note_requested (zip (map (\<lambda>r. r \<in> K) rs) rs) (bm, missing) = Some (bm', missing')
     \<and> bm_inv Q gc K bm' \<and> bm_context bm' = bm_context bm \<and> bm_suspended bm' = bm_suspended bm \<and> bset_wf missing'
     \<and> set missing' = set missing \<union> (set rs - K - suspended_refs bm)"
  using assms
proof (induction rs arbitrary: bm missing)
  case Nil
  then show ?case by simp
next
  case (Cons r rs)
  from note_requested_step [OF Cons.prems(1) _ Cons.prems(3), of r] Cons.prems(2) obtain bm1 missing1 where
    1: "note_requested (r \<in> K, r) (bm, missing) = Some (bm1, missing1)" "bm_inv Q gc K bm1" "bm_context bm1 = bm_context bm"
      "bm_suspended bm1 = bm_suspended bm" "bset_wf missing1" "set missing1 = set missing \<union> ({r} - K - suspended_refs bm)" by auto
  from Cons.IH [OF 1(2) _ 1(5)] Cons.prems(2) 1(3) obtain bm' missing' where
    2: "for_each note_requested (zip (map (\<lambda>r. r \<in> K) rs) rs) (bm1, missing1) = Some (bm', missing')"
      "bm_inv Q gc K bm'" "bm_context bm' = bm_context bm1" "bm_suspended bm' = bm_suspended bm1" "bset_wf missing'"
      "set missing' = set missing1 \<union> (set rs - K - suspended_refs bm1)" by auto
  show ?case using 1 2 by (intro exI [of _ bm'] exI [of _ missing']) auto
qed

lemma try_find_blocks_correct:
  assumes "manager_ok cr v (bm, d)" and "\<forall>r\<in>set rs. br_author r < committee_size (ctx_committee (sbv_context v))"
  shows "\<exists>bm' missing. try_find_blocks rs d bm = Some (bm', missing) \<and> manager_ok cr v (bm', d)
     \<and> bm_suspended bm' = bm_suspended bm \<and> bset_wf missing
     \<and> set missing = {r \<in> set rs. gc_round d < br_round r \<and> r \<notin> received_refs (bm, d)}"
proof -
  from assms(1) have node: "node_ok cr v d" and ctx: "bm_context bm = sbv_context v"
    and inv: "bm_inv (peer_block cr v) (gc_round d) (known_refs d) bm" by (simp_all add: manager_ok_def)
  let ?rs = "sort_key br_round (filter (\<lambda>r. br_round r > gc_round d) rs)"
  have auth: "\<forall>r\<in>set ?rs. br_author r < committee_size (ds_committee d)" using assms(2) node_okD(2) [OF node] by auto
  have found: "contains_blocks d ?rs = Some (map (\<lambda>r. r \<in> known_refs d) ?rs)"
    using contains_blocks_eq [OF view_okD(1) [OF node_okD(1) [OF node]] auth] by (simp add: domIff)
  have auth': "\<forall>r\<in>set ?rs. br_author r < committee_size (ctx_committee (bm_context bm))" using assms(2) ctx by auto
  from note_requested_each [OF inv auth', of "[]"] obtain bm' missing where
    n: "for_each note_requested (zip (map (\<lambda>r. r \<in> known_refs d) ?rs) ?rs) (bm, []) = Some (bm', missing)"
      "bm_inv (peer_block cr v) (gc_round d) (known_refs d) bm'" "bm_context bm' = bm_context bm"
      "bm_suspended bm' = bm_suspended bm" "bset_wf missing" "set missing = set ?rs - known_refs d - suspended_refs bm" by auto
  show ?thesis
  proof (cases "filter (\<lambda>r. br_round r > gc_round d) rs = []")
    case True
    then have "{r \<in> set rs. gc_round d < br_round r \<and> r \<notin> received_refs (bm, d)} = {}" by (auto simp: filter_empty_conv)
    then show ?thesis using True assms(1) by (simp add: try_find_blocks_def Let_def)
  next
    case False
    then have "try_find_blocks rs d bm = Some (bm', missing)" using found n(1) by (simp add: try_find_blocks_def Let_def)
    then show ?thesis
      using n(2-6) node ctx by (intro exI [of _ bm'] exI [of _ missing]) (auto simp: manager_ok_def received_refs_def)
  qed
qed

section \<open>Committed blocks\<close>

lemma bset_remove_idem: "bset_remove r (bset_remove r rs) = bset_remove r rs"
  by (simp add: bset_remove_def)

lemma forget_children:
  "map_of (fold (forget_child r) as m) a = (if a \<in> set as then map_option (bset_remove r) (map_of m a) else map_of m a)"
  "bmap_wf m \<Longrightarrow> bmap_wf (fold (forget_child r) as m)"
proof -
  show "map_of (fold (forget_child r) as m) a = (if a \<in> set as then map_option (bset_remove r) (map_of m a) else map_of m a)"
    by (induction as arbitrary: m) (auto simp: forget_child_def bset_remove_idem option.map_comp comp_def split: option.splits)
  show "bmap_wf m \<Longrightarrow> bmap_wf (fold (forget_child r) as m)"
    by (induction as arbitrary: m) (auto simp: forget_child_def split: option.splits)
qed

text \<open>A committed block leaves the manager before it is accepted.\<close>

definition withdraw :: "block_ref \<Rightarrow> block_manager \<Rightarrow> block_manager" where
  "withdraw r bm = (let bm1 = bm\<lparr>bm_missing_blocks := bset_remove r (bm_missing_blocks bm)\<rparr> in
     case map_of (bm_suspended bm1) r of
       Some s \<Rightarrow> bm1\<lparr>bm_suspended := bmap_remove r (bm_suspended bm1),
         bm_missing_ancestors := fold (forget_child r) (sus_missing s) (bm_missing_ancestors bm1)\<rparr>
     | None \<Rightarrow> bm1)"

lemma withdraw_inv:
  assumes "bm_inv Q gc K bm"
  shows "bm_inv_loop Q gc (insert r K) {r} {} (withdraw r bm)" and "bm_context (withdraw r bm) = bm_context bm"
    and "suspended_refs (withdraw r bm) = suspended_refs bm - {r}"
proof -
  show "bm_context (withdraw r bm) = bm_context bm" by (simp add: withdraw_def Let_def split: option.splits)
  show dom: "suspended_refs (withdraw r bm) = suspended_refs bm - {r}"
    by (auto simp: withdraw_def Let_def domIff split: option.splits if_splits)
  note I = bm_inv_loopD [OF assms [unfolded bm_inv_def]]
  show "bm_inv_loop Q gc (insert r K) {r} {} (withdraw r bm)"
  proof (cases "map_of (bm_suspended bm) r")
    case None
    then have "withdraw r bm = bm\<lparr>bm_missing_blocks := bset_remove r (bm_missing_blocks bm)\<rparr>" by (simp add: withdraw_def)
    then show ?thesis using mark_known [OF assms, of r] None by (simp add: domIff)
  next
    case (Some s)
    let ?w = "withdraw r bm" and ?A = "set (sus_missing s)"
    have w: "bm_suspended ?w = bmap_remove r (bm_suspended bm)" "bm_received_rounds ?w = bm_received_rounds bm"
      "bm_missing_ancestors ?w = fold (forget_child r) (sus_missing s) (bm_missing_ancestors bm)"
      "bm_missing_blocks ?w = bset_remove r (bm_missing_blocks bm)" "bm_context ?w = bm_context bm"
      using Some by (simp_all add: withdraw_def Let_def)
    have miss: "missing_refs ?w = missing_refs bm" unfolding w forget_children(1) by (auto split: if_splits)
    show ?thesis
    proof (rule bm_inv_loopI)
      have "bset_wf rs" if "rs \<in> ran (map_of (bm_missing_ancestors ?w))" for rs
        using that I(1) unfolding w ran_def forget_children(1) bm_shape_def by (fastforce simp: ran_def split: if_splits)
      then show "bm_shape ?w"
        using I(1) miss unfolding bm_shape_def by (simp add: w(1,2,4,5)) (simp add: w(3) forget_children(2))
      have "waits ?w = waits bm - {r} \<times> UNIV" unfolding waits_def w(1) by (auto split: if_splits)
      moreover have "asks ?w = asks bm - {r} \<times> ?A"
        unfolding asks_def w(3) forget_children(1) by (auto simp: bset_remove_def split: if_splits)
      moreover have "waits bm \<inter> {r} \<times> UNIV = {r} \<times> ?A" using Some by (auto simp: waits_def)
      ultimately show "waits ?w = asks ?w \<union> {}" using I(2) by auto
      show "suspended_ok Q gc (insert r K) r' t" if "map_of (bm_suspended ?w) r' = Some t" for r' t
        using that I(4) [of r' t] unfolding w by (auto simp: suspended_ok_def split: if_splits)
      show "suspended_refs ?w \<inter> insert r K = {}" unfolding dom using I(5) by auto
      show "missing_refs ?w \<inter> insert r K \<subseteq> {r}" unfolding miss using I(6) by auto
      show "set (bm_missing_blocks ?w) = missing_refs ?w - suspended_refs ?w - insert r K"
        unfolding w(4) miss dom set_bset_remove I(7) by auto
    qed simp
  qed
qed

lemma accept_one_committed_correct:
  assumes "manager_ok cr v (bm, d)" and "peer_block cr v b"
    and "\<forall>a\<in>set (vb_ancestors b). gc_round d < br_round a \<longrightarrow> a \<in> known_refs d"
  shows "\<exists>bm' d' new. accept_one now True b (bm, d, acc, missing) = Some (bm', d', acc @ new, missing)
     \<and> manager_ok cr v (bm', d') \<and> node_extends cr v d d' (reference ` set new) \<and> reference b \<in> known_refs d'"
proof -
  let ?Q = "peer_block cr v" and ?gc = "gc_round d" and ?K = "known_refs d" and ?r = "reference b"
  from assms(1) have node: "node_ok cr v d" and ctx: "bm_context bm = sbv_context v" and inv: "bm_inv ?Q ?gc ?K bm"
    by (simp_all add: manager_ok_def)
  note n = node_okD [OF node] and wf = view_okD(1) [OF node_okD(1) [OF node]]
  have author: "vb_author b < committee_size (ctx_committee (bm_context bm))"
    using peer_block_linked [OF n(3) assms(2)] ctx by (simp add: block_linked_def)
  from received_metrics_inv [OF inv this] obtain bm0 where m: "update_block_received_metrics b bm = Some bm0"
    "bm_inv ?Q ?gc ?K bm0" "bm_context bm0 = bm_context bm" by blast
  have known: "contains_block d ?r = Some (?r \<in> ?K)"
    using contains_block_eq [OF wf, of ?r] author ctx n(2) by (auto simp: domIff)
  show ?thesis
  proof (cases "?r \<in> ?K")
    case True
    then have "accept_one now True b (bm, d, acc, missing) = Some (bm0, d, acc, missing)"
      using m(1) known by (simp add: accept_one_def try_accept_one_committed_block_def)
    then show ?thesis
      using True m node ctx by (intro exI [of _ bm0] exI [of _ d] exI [of _ "[]"]) (simp add: manager_ok_def node_extends_refl)
  next
    case False
    from accept_blocks_extends [OF node, of "[b]" now] assms(2,3) False obtain d1 where
      d1: "accept_blocks now [b] d = Some d1" "node_extends cr v d d1 {?r}" by auto
    then have d1': "node_ok cr v d1" "gc_round d1 = ?gc" "known_refs d1 = insert ?r ?K" by (simp_all add: node_extends_def)
    have "bm_inv_loop ?Q (gc_round d1) (known_refs d1 \<union> reference ` set []) {?r} {} (withdraw ?r bm0)"
      using withdraw_inv(1) [OF m(2), of ?r] d1' by simp
    from accept_with_children_correct [OF d1'(1) _ _ _ this, of now "acc @ [b]"] withdraw_inv(2) [OF m(2)] m(3) ctx d1'(3)
    obtain bm' d' us where
      c: "accept_with_children now ?r [] (withdraw ?r bm0, d1, acc @ [b]) = Some (bm', d', (acc @ [b]) @ us)"
        "manager_ok cr v (bm', d')" "node_extends cr v d1 d' (reference ` set us)" by auto
    have "try_accept_one_committed_block now b (bm0, d) = Some (withdraw ?r bm0, d1, Accepted b)"
      using known False d1(1) by (simp add: try_accept_one_committed_block_def withdraw_def Let_def)
    then have "accept_one now True b (bm, d, acc, missing) = Some (bm', d', acc @ b # us, missing)"
      using m(1) c(1) by (simp add: accept_one_def)
    moreover have "node_extends cr v d d' (reference ` set (b # us))" using node_extends_trans [OF d1(2) c(3)] by simp
    ultimately show ?thesis
      using c(2) by (intro exI [of _ bm'] exI [of _ d'] exI [of _ "b # us"]) (auto simp: node_extends_def)
  qed
qed

text \<open>Blocks in an order in which each has its ancestors before it.\<close>

fun history_first :: "round \<Rightarrow> block_ref set \<Rightarrow> verified_block list \<Rightarrow> bool" where
  "history_first gc K [] \<longleftrightarrow> True"
| "history_first gc K (b # bs) \<longleftrightarrow> (\<forall>a\<in>set (vb_ancestors b). gc < br_round a \<longrightarrow> a \<in> K)
     \<and> history_first gc (insert (reference b) K) bs"

lemma history_first_mono: "history_first gc K bs \<Longrightarrow> K \<subseteq> K' \<Longrightarrow> history_first gc K' bs"
  by (induction bs arbitrary: K K') (auto, meson insert_mono)

lemma accept_each_committed_correct:
  assumes "manager_ok cr v (bm, d)" and "\<forall>b\<in>set bs. peer_block cr v b" and "history_first (gc_round d) (known_refs d) bs"
  shows "\<exists>bm' d' new. for_each (accept_one now True) bs (bm, d, acc, missing) = Some (bm', d', acc @ new, missing)
     \<and> manager_ok cr v (bm', d') \<and> node_extends cr v d d' (reference ` set new) \<and> reference ` set bs \<subseteq> known_refs d'"
  using assms
proof (induction bs arbitrary: bm d acc)
  case Nil
  then show ?case by (intro exI [of _ bm] exI [of _ d] exI [of _ "[]"]) (simp add: node_extends_refl manager_ok_def)
next
  case (Cons b bs)
  from accept_one_committed_correct [OF Cons.prems(1), of b now acc missing] Cons.prems(2,3) obtain bm1 d1 new1 where
    1: "accept_one now True b (bm, d, acc, missing) = Some (bm1, d1, acc @ new1, missing)" "manager_ok cr v (bm1, d1)"
      "node_extends cr v d d1 (reference ` set new1)" "reference b \<in> known_refs d1" by auto
  have gc: "gc_round d1 = gc_round d" and sub: "insert (reference b) (known_refs d) \<subseteq> known_refs d1"
    using 1(3,4) by (auto simp: node_extends_def)
  have "history_first (gc_round d1) (known_refs d1) bs" using history_first_mono [OF _ sub] Cons.prems(3) gc by simp
  from Cons.IH [OF 1(2) _ this, of "acc @ new1"] Cons.prems(2) obtain bm' d' new where
    2: "for_each (accept_one now True) bs (bm1, d1, acc @ new1, missing) = Some (bm', d', (acc @ new1) @ new, missing)"
      "manager_ok cr v (bm', d')" "node_extends cr v d1 d' (reference ` set new)" "reference ` set bs \<subseteq> known_refs d'" by auto
  have "node_extends cr v d d' (reference ` set (new1 @ new))"
    using node_extends_trans [OF 1(3) 2(3)] by (simp add: image_Un)
  moreover have "reference ` set (b # bs) \<subseteq> known_refs d'" using 1(4) 2(3,4) by (auto simp: node_extends_def)
  ultimately show ?case
    using 1(1) 2(1,2) by (intro exI [of _ bm'] exI [of _ d'] exI [of _ "new1 @ new"]) simp
qed

section \<open>Properties\<close>

lemma new_manager_ok: "node_ok cr v d \<Longrightarrow> manager_ok cr v (BlockManager_new (sbv_context v), d)"
  by (auto simp: manager_ok_def BlockManager_new_def bm_inv_def bm_inv_loop_def bm_shape_def waits_def asks_def)

lemma sample_node_ok: "node_ok sample_crypto sample_verifier sample_dag"
  using initial_view_ok [OF _ sample_genesis_blocks, of 0] sample_committee_wf sample_cached_rounds
  by (simp add: node_ok_def sample_verifier_def sample_dag_def sample_config_def)

lemma sample_peer_block: "peer_block sample_crypto sample_verifier sample_verified_block"
proof -
  have "\<exists>rejected. verify_and_vote sample_crypto sample_verifier sample_signed_block [1, 1, 0]
      = Some (Inr (sample_verified_block, rejected))"
    using sample_signed_block_verifies
    by (simp add: verify_and_vote_def try_panic_def Let_def sample_verified_block_def vote_def sample_verifier_def
        sample_transaction_verifier_def)
  then have "verified_by sample_crypto sample_verifier sample_verified_block" unfolding verified_by_def by blast
  then show ?thesis by (simp add: peer_block_def sample_verified_fields u32_max_def sample_verifier_def)
qed

lemma sample_manager_ok: "manager_ok sample_crypto sample_verifier (BlockManager_new sample_context, sample_dag)"
  using new_manager_ok [OF sample_node_ok] by (simp add: sample_verifier_def)

text \<open>
  C9. The block manager accepts blocks in causal order and suspends only blocks with missing
  history: for verified blocks of peers, in any order and with repetitions, \<open>try_accept_blocks\<close> does
  not panic, adds to the DAG exactly the blocks it returns by steps that each find the causal
  history present, and keeps or accepts every block above the garbage collection round. A block
  stays suspended only while an ancestor is not in the DAG, and every reference to fetch is neither
  in the DAG nor suspended.
\<close>

theorem block_manager_accepts_in_causal_order:
  assumes "manager_ok cr v (bm, d)" and "\<forall>b\<in>set bs. peer_block cr v b"
  shows "\<exists>bm' d' accepted missing. try_accept_blocks now bs (bm, d) = Some (bm', d', accepted, missing)
     \<and> manager_ok cr v (bm', d') \<and> (view_step cr v)\<^sup>*\<^sup>* d d'
     \<and> known_refs d' = known_refs d \<union> reference ` set accepted
     \<and> (\<forall>b\<in>set bs. gc_round d < vb_round b \<longrightarrow> reference b \<in> known_refs d' \<or> is_suspended bm' (reference b))
     \<and> (\<forall>r s. map_of (bm_suspended bm') r = Some s \<longrightarrow> \<not> set (vb_ancestors (sus_block s)) \<subseteq> known_refs d')
     \<and> (\<forall>r\<in>set (missing_blocks bm'). r \<notin> known_refs d' \<and> \<not> is_suspended bm' r)"
proof -
  have "\<forall>b\<in>set (sort_key vb_round bs). peer_block cr v b" using assms(2) by simp
  from accept_each_correct [OF assms(1) this, of now "[]" "[]"] obtain bm' d' new missing where
    a: "for_each (accept_one now False) (sort_key vb_round bs) (bm, d, [], []) = Some (bm', d', new, missing)"
      "manager_ok cr v (bm', d')" "node_extends cr v d d' (reference ` set new)"
      "\<forall>b\<in>set bs. vb_round b \<le> gc_round d \<or> reference b \<in> received_refs (bm', d')" by auto
  have "bm_inv (peer_block cr v) (gc_round d') (known_refs d') bm'" using a(2) by (simp add: manager_ok_def)
  then have fetch: "set (bm_missing_blocks bm') = missing_refs bm' - suspended_refs bm' - known_refs d'"
    by (simp add: bm_inv_def bm_inv_loop_def)
  show ?thesis
  proof (intro exI conjI)
    show "try_accept_blocks now bs (bm, d) = Some (bm', d', new, missing)"
      using a(1) by (simp add: try_accept_blocks_def try_accept_blocks_internal_def)
    show "\<forall>b\<in>set bs. gc_round d < vb_round b \<longrightarrow> reference b \<in> known_refs d' \<or> is_suspended bm' (reference b)"
      using a(4) by (auto simp: received_refs_def)
    show "\<forall>r s. map_of (bm_suspended bm') r = Some s \<longrightarrow> \<not> set (vb_ancestors (sus_block s)) \<subseteq> known_refs d'"
      using suspended_incomplete [OF a(2)] by blast
    show "\<forall>r\<in>set (missing_blocks bm'). r \<notin> known_refs d' \<and> \<not> is_suspended bm' r"
      unfolding missing_blocks_def fetch by (auto simp: domIff)
  qed (use a(2,3) in \<open>simp_all add: node_extends_def\<close>)
qed

theorem block_manager_accepts_in_causal_order_witness:
  "\<exists>bm' d' accepted missing.
     try_accept_blocks 0 [sample_verified_block] (BlockManager_new sample_context, sample_dag) = Some (bm', d', accepted, missing)
   \<and> (view_step sample_crypto sample_verifier)\<^sup>*\<^sup>* sample_dag d'
   \<and> (reference sample_verified_block \<in> known_refs d' \<or> is_suspended bm' (reference sample_verified_block))"
proof -
  have gc: "gc_round sample_dag < vb_round sample_verified_block"
    by (simp add: sample_verified_fields gc_round_def last_commit_round_def calculate_gc_round_def sample_dag_def initial_dag_def Let_def)
  have "\<forall>b\<in>set [sample_verified_block]. peer_block sample_crypto sample_verifier b" using sample_peer_block by simp
  from block_manager_accepts_in_causal_order [OF sample_manager_ok this, of 0] gc show ?thesis by fastforce
qed

text \<open>
  C34. After a commit the manager catches up with the garbage collection round:
  \<open>try_unsuspend_blocks_for_latest_gc_round\<close> ends without panic, accepts by view steps only, loses no
  block, and afterwards a block is suspended exactly for want of ancestors above the garbage
  collection round.
\<close>

theorem gc_pass_releases_suspended_blocks:
  assumes "manager_ok cr v (bm, d)"
  shows "\<exists>bm' d'. try_unsuspend_blocks_for_latest_gc_round now (bm, d) = Some (bm', d') \<and> manager_ok cr v (bm', d')
     \<and> (view_step cr v)\<^sup>*\<^sup>* d d' \<and> gc_round d' = gc_round d
     \<and> known_refs d \<union> suspended_refs bm \<subseteq> known_refs d' \<union> suspended_refs bm'
     \<and> (\<forall>r s. map_of (bm_suspended bm') r = Some s \<longrightarrow>
          (\<exists>a\<in>set (vb_ancestors (sus_block s)). gc_round d' < br_round a \<and> a \<notin> known_refs d'))
     \<and> (\<forall>r\<in>set (missing_blocks bm'). gc_round d' < br_round r)"
proof -
  from unsuspend_gc_loop_correct [OF assms, of now] obtain bm' d' us where
    g: "unsuspend_gc_loop now (gc_round d) bm d = Some (bm', d')" "manager_ok cr v (bm', d')"
      "node_extends cr v d d' (reference ` set us)" "received_refs (bm, d) \<subseteq> received_refs (bm', d')"
      "\<forall>a\<in>missing_refs bm'. gc_round d < br_round a" by blast
  have gc: "gc_round d' = gc_round d" and steps: "(view_step cr v)\<^sup>*\<^sup>* d d'" using g(3) by (simp_all add: node_extends_def)
  have "set (bm_missing_blocks bm') \<subseteq> missing_refs bm'"
    using g(2) by (auto simp: manager_ok_def bm_inv_def bm_inv_loop_def)
  then have fetch: "\<forall>r\<in>set (missing_blocks bm'). gc_round d' < br_round r" unfolding missing_blocks_def gc using g(5) by blast
  have "\<exists>a\<in>set (vb_ancestors (sus_block s)). gc_round d' < br_round a \<and> a \<notin> known_refs d'"
    if "map_of (bm_suspended bm') r = Some s" for r s
    using suspended_incomplete [OF g(2) that] g(5) gc by auto
  moreover have "try_unsuspend_blocks_for_latest_gc_round now (bm, d) = Some (bm', d')"
    using g(1) by (simp add: try_unsuspend_blocks_for_latest_gc_round_def)
  moreover have "known_refs d \<union> suspended_refs bm \<subseteq> known_refs d' \<union> suspended_refs bm'"
    using g(4) unfolding received_refs_def by simp
  ultimately show ?thesis using g(2) gc steps fetch by (intro exI [of _ bm'] exI [of _ d'] conjI) simp_all
qed

theorem gc_pass_releases_suspended_blocks_witness:
  "\<exists>bm' d'. try_unsuspend_blocks_for_latest_gc_round 0 (BlockManager_new sample_context, sample_dag) = Some (bm', d')
     \<and> manager_ok sample_crypto sample_verifier (bm', d') \<and> gc_round d' = gc_round sample_dag"
  using gc_pass_releases_suspended_blocks [OF sample_manager_ok, of 0] by blast





end
