(* ===== verification/Core.thy ===== *)
theory Core
  imports Commit_Determinism Block_Acceptance
begin

text \<open>
  Model of \<open>consensus/src/core.rs\<close> and \<open>consensus/src/commit_observer.rs\<close>: the core thread that
  receives blocks, runs the commit rule, hands committed leaders to the linearizer and the finalizer,
  updates the leader schedule, and asks the proposer for new blocks. The trait \<open>Proposer\<close> is a
  record of operations over its own state, given the clock and what it shares with the core: the DAG state
  and the leader schedule. Channels are lists of what was sent
  with a flag that tells whether a receiver is left; a failed send is the error \<open>Shutdown\<close>, which
  ends the core, so the error carries no state. The leader schedule is the one of version 2, the
  optional schedule of version 3 is absent.
\<close>

section \<open>State\<close>

datatype core_error = Shutdown | UnexpectedCertifiedCommitIndex commit_index commit_index

type_synonym 'a core_result = "(core_error + 'a) option"

record commit_observer =
  co_context :: consensus_context
  co_interpreter :: linearizer
  co_finalizer_open :: bool
  co_sent :: "committed_sub_dag list"

record core_signals =
  sig_context :: consensus_context
  sig_open :: bool
  sig_blocks :: "extended_block list"
  sig_accepted :: "verified_block list"
  sig_new_round :: round

record 'p proposer_api =
  pr_try_new_block :: "nat \<Rightarrow> leader_schedule \<Rightarrow> bool \<Rightarrow> 'p \<times> dag_state \<Rightarrow> ('p \<times> dag_state \<times> extended_block option) option"
  pr_should_propose :: "'p \<Rightarrow> dag_state \<Rightarrow> bool"
  pr_set_propagation_delay :: "round \<Rightarrow> 'p \<Rightarrow> 'p"
  pr_set_last_known_proposed_round :: "round \<Rightarrow> 'p \<Rightarrow> 'p"
  pr_get_last_known_proposed_round :: "'p \<Rightarrow> round option"
  pr_last_proposed_round :: "'p \<Rightarrow> dag_state \<Rightarrow> round option"
  pr_last_proposed_block :: "'p \<Rightarrow> dag_state \<Rightarrow> verified_block option"
  pr_set_propagation_scores :: "reputation_scores \<Rightarrow> 'p \<Rightarrow> 'p"
  pr_notify_own_blocks_committed :: "block_ref list \<Rightarrow> round \<Rightarrow> 'p \<Rightarrow> 'p"

record 'p core =
  core_context :: consensus_context
  core_block_manager :: block_manager
  core_last_signaled_round :: round
  core_last_decided_leader :: slot
  core_leader_schedule :: leader_schedule
  core_commit_observer :: commit_observer
  core_signals :: core_signals
  core_dag_state :: dag_state
  core_proposer :: "'p option"

section \<open>Signals\<close>

definition CoreSignals_new :: "consensus_context \<Rightarrow> core_signals" where
  "CoreSignals_new ctx = \<lparr>sig_context = ctx, sig_open = True, sig_blocks = [], sig_accepted = [], sig_new_round = 0\<rparr>"

definition sig_new_block :: "extended_block \<Rightarrow> core_signals \<Rightarrow> core_error + core_signals" where
  "sig_new_block extended_block s =
     (if committee_size (ctx_committee (sig_context s)) > 1 then
        (if vb_round (eb_block extended_block) = GENESIS_ROUND then Inr s
         else if sig_open s then Inr (s\<lparr>sig_blocks := sig_blocks s @ [extended_block]\<rparr>) else Inl Shutdown)
      else Inr s)"

definition sig_new_accepted_block :: "verified_block \<Rightarrow> core_signals \<Rightarrow> core_signals" where
  "sig_new_accepted_block block s = s\<lparr>sig_accepted := sig_accepted s @ [block]\<rparr>"

definition sig_send_new_round :: "round \<Rightarrow> core_signals \<Rightarrow> core_signals" where
  "sig_send_new_round round_number s = s\<lparr>sig_new_round := round_number\<rparr>"

section \<open>The commit observer\<close>

definition CommitObserver_new :: "consensus_context \<Rightarrow> commit_observer" where
  "CommitObserver_new ctx = \<lparr>co_context = ctx, co_interpreter = Linearizer_new ctx, co_finalizer_open = True, co_sent = []\<rparr>"

definition co_handle_commit ::
    "crypto \<Rightarrow> nat \<Rightarrow> verified_block list \<Rightarrow> bool \<Rightarrow> commit_observer \<times> dag_state
       \<Rightarrow> (commit_observer \<times> dag_state \<times> committed_sub_dag list) core_result" where
  "co_handle_commit cr now committed_leaders local = (\<lambda>(co, d). do {
     (d1, sub_dags) \<leftarrow> handle_commit cr (co_interpreter co) now committed_leaders d;
     let committed_sub_dags = map (\<lambda>s. s\<lparr>csd_decided_with_local_blocks := local\<rparr>) sub_dags;
     (if \<not> co_finalizer_open co \<and> committed_sub_dags \<noteq> [] then Some (Inl Shutdown)
      else do {
        d2 \<leftarrow> add_scoring_subdags committed_sub_dags d1;
        Some (Inr (co\<lparr>co_sent := co_sent co @ committed_sub_dags\<rparr>, d2, committed_sub_dags))
      })
   })"

section \<open>Accepting blocks\<close>

definition core_accept_blocks ::
    "nat \<Rightarrow> verified_block list \<Rightarrow> 'p core \<Rightarrow> ('p core \<times> verified_block list \<times> block_ref list) option" where
  "core_accept_blocks now blocks c = do {
     (bm, d, accepted, missing) \<leftarrow> try_accept_blocks now blocks (core_block_manager c, core_dag_state c);
     Some (c\<lparr>core_block_manager := bm, core_dag_state := d,
             core_signals := fold sig_new_accepted_block accepted (core_signals c)\<rparr>, accepted, missing)
   }"

definition core_accept_committed_blocks :: "nat \<Rightarrow> verified_block list \<Rightarrow> 'p core \<Rightarrow> ('p core \<times> verified_block list) option" where
  "core_accept_committed_blocks now blocks c = do {
     (bm, d, accepted) \<leftarrow> try_accept_committed_blocks now blocks (core_block_manager c, core_dag_state c);
     Some (c\<lparr>core_block_manager := bm, core_dag_state := d,
             core_signals := fold sig_new_accepted_block accepted (core_signals c)\<rparr>, accepted)
   }"

section \<open>Committing\<close>

definition current_reputation_scores :: "'p core \<Rightarrow> reputation_scores" where
  "current_reputation_scores c = swap_scores (ls_swap_table (core_leader_schedule c))"

text \<open>The commits left in the window of the leader schedule, after updating the schedule when there are none.\<close>

definition refresh_schedule :: "'p proposer_api \<Rightarrow> rng_lib \<Rightarrow> 'p core \<Rightarrow> ('p core \<times> nat) option" where
  "refresh_schedule api rng c = do {
     commits_until_update \<leftarrow> commits_until_leader_schedule_update (core_leader_schedule c) (core_dag_state c);
     (c', n) \<leftarrow> (if commits_until_update = 0 then do {
         (ls, d) \<leftarrow> update_leader_schedule_v2 rng (core_leader_schedule c) (core_dag_state c);
         let c1 = c\<lparr>core_leader_schedule := ls, core_dag_state := d\<rparr>;
         let c2 = c1\<lparr>core_proposer := map_option (pr_set_propagation_scores api (current_reputation_scores c1)) (core_proposer c1)\<rparr>;
         n \<leftarrow> commits_until_leader_schedule_update ls d;
         Some (c2, n)
       } else Some (c, commits_until_update));
     rassert (n > 0);
     Some (c', n)
   }"

definition certified_leader :: "consensus_context \<Rightarrow> certified_commit \<Rightarrow> (decided_leader \<times> certified_commit) option" where
  "certified_leader ctx commit = do {
     leader \<leftarrow> bset_last (cc_blocks commit);
     rassert (reference leader = c_leader (tc_inner (cc_commit commit)));
     let decided = DCommit leader False;
     uc_update_metrics ctx decided;
     Some (decided, commit)
   }"

definition try_select_certified_leaders ::
    "consensus_context \<Rightarrow> certified_commit list \<Rightarrow> nat
       \<Rightarrow> ((decided_leader \<times> certified_commit) list \<times> certified_commit list) option" where
  "try_select_certified_leaders ctx certified_commits limit = do {
     rassert (limit > 0);
     (if certified_commits = [] then Some ([], [])
      else do {
        let to_commit = (if length certified_commits \<ge> limit then take limit certified_commits else certified_commits);
        let remaining = (if length certified_commits \<ge> limit then drop limit certified_commits else []);
        selected \<leftarrow> map_opt (certified_leader ctx) to_commit;
        Some (selected, remaining)
      })
   }"

text \<open>The leaders to sequence next: those of certified commits, whose blocks are accepted first, or
  those the commit rule decides, cut off at the end of the schedule window.\<close>

definition decide_next ::
    "rng_lib \<Rightarrow> nat \<Rightarrow> nat \<Rightarrow> certified_commit list \<Rightarrow> 'p core
       \<Rightarrow> ('p core \<times> certified_commit list \<times> decided_leader list \<times> bool) option" where
  "decide_next rng now commits_until_update certified_commits c = do {
     (selected, remaining) \<leftarrow> try_select_certified_leaders (core_context c) certified_commits commits_until_update;
     (c1, _) \<leftarrow> core_accept_committed_blocks now (concat (map (cc_blocks \<circ> snd) selected)) c;
     (if selected = [] then do {
        decided \<leftarrow> try_decide rng (core_committer (core_context c1) (core_leader_schedule c1)) (core_dag_state c1)
                     (core_last_decided_leader c1);
        Some (c1, remaining,
          (if length decided \<ge> commits_until_update then take commits_until_update decided else decided), True)
      } else Some (c1, remaining, map fst selected, False))
   }"

text \<open>One pass of the loop of \<open>try_commit\<close>; no sub-dags when the loop is left.\<close>

definition commit_pass ::
    "'p proposer_api \<Rightarrow> crypto \<Rightarrow> rng_lib \<Rightarrow> nat \<Rightarrow> certified_commit list \<Rightarrow> 'p core
       \<Rightarrow> ('p core \<times> certified_commit list \<times> committed_sub_dag list option) core_result" where
  "commit_pass api cr rng now certified_commits c = do {
     (c1, commits_until_update) \<leftarrow> refresh_schedule api rng c;
     (c2, remaining, decided_leaders, local) \<leftarrow> decide_next rng now commits_until_update certified_commits c1;
     (case bset_last decided_leaders of
        None \<Rightarrow> Some (Inr (c2, remaining, None))
      | Some last_decided \<Rightarrow> do {
          let c3 = c2\<lparr>core_last_decided_leader := dl_slot last_decided\<rparr>;
          let sequenced_leaders = List.map_filter into_committed_block decided_leaders;
          (if sequenced_leaders = [] then Some (Inr (c3, remaining, None))
           else do {
             handled \<leftarrow> co_handle_commit cr now sequenced_leaders local (core_commit_observer c3, core_dag_state c3);
             (case handled of
                Inl e \<Rightarrow> Some (Inl e)
              | Inr (co, d, subdags) \<Rightarrow> do {
                  (bm, d') \<leftarrow> try_unsuspend_blocks_for_latest_gc_round now (core_block_manager c3, d);
                  Some (Inr (c3\<lparr>core_commit_observer := co, core_block_manager := bm, core_dag_state := d'\<rparr>,
                             remaining, Some subdags))
                })
           })
        })
   }"

partial_function (option) commit_loop ::
    "'p proposer_api \<Rightarrow> crypto \<Rightarrow> rng_lib \<Rightarrow> nat \<Rightarrow> certified_commit list \<Rightarrow> 'p core \<Rightarrow> committed_sub_dag list
       \<Rightarrow> ('p core \<times> committed_sub_dag list) core_result" where
  "commit_loop api cr rng now certified_commits c committed_sub_dags =
     Option.bind (commit_pass api cr rng now certified_commits c) (\<lambda>r. case r of
       Inl e \<Rightarrow> Some (Inl e)
     | Inr (c', remaining, subdags) \<Rightarrow> (case subdags of
         None \<Rightarrow> Some (Inr (c', committed_sub_dags))
       | Some new \<Rightarrow> commit_loop api cr rng now remaining c' (committed_sub_dags @ new)))"

definition check_certified ::
    "committed_sub_dag \<Rightarrow> (commit_index \<times> commit_ref) list \<Rightarrow> (commit_index \<times> commit_ref) list option" where
  "check_certified sub_dag certified_map = (
     let index = cr_index (csd_commit_ref sub_dag) in
     case map_of certified_map index of
       None \<Rightarrow> Some certified_map
     | Some commit_ref \<Rightarrow> do {
         rassert (commit_ref = csd_commit_ref sub_dag);
         Some (bmap_remove index certified_map)
       })"

definition try_commit ::
    "'p proposer_api \<Rightarrow> crypto \<Rightarrow> rng_lib \<Rightarrow> nat \<Rightarrow> certified_commit list \<Rightarrow> 'p core
       \<Rightarrow> ('p core \<times> committed_sub_dag list) core_result" where
  "try_commit api cr rng now certified_commits c = do {
     let certified_map = fold (\<lambda>cc. bmap_insert (c_index (tc_inner (cc_commit cc))) (tc_reference (cc_commit cc))) certified_commits [];
     result \<leftarrow> commit_loop api cr rng now certified_commits c [];
     (case result of
        Inl e \<Rightarrow> Some (Inl e)
      | Inr (c1, committed_sub_dags) \<Rightarrow> do {
          _ \<leftarrow> for_each check_certified committed_sub_dags certified_map;
          let own = map reference (filter (\<lambda>b. vb_author b = own_index (core_context c1)) (concat (map csd_blocks committed_sub_dags)));
          Some (Inr (c1\<lparr>core_proposer := map_option (pr_notify_own_blocks_committed api own (gc_round (core_dag_state c1)))
                         (core_proposer c1)\<rparr>, committed_sub_dags))
        })
   }"

section \<open>Proposing and signalling\<close>

definition try_propose ::
    "'p proposer_api \<Rightarrow> crypto \<Rightarrow> rng_lib \<Rightarrow> nat \<Rightarrow> bool \<Rightarrow> 'p core \<Rightarrow> ('p core \<times> verified_block option) core_result" where
  "try_propose api cr rng now force c = (case core_proposer c of
     None \<Rightarrow> Some (Inr (c, None))
   | Some p \<Rightarrow> do {
       (p', d, proposed) \<leftarrow> pr_try_new_block api now (core_leader_schedule c) force (p, core_dag_state c);
       let c1 = c\<lparr>core_proposer := Some p', core_dag_state := d\<rparr>;
       (case proposed of
          None \<Rightarrow> Some (Inr (c1, None))
        | Some extended_block \<Rightarrow> (case sig_new_block extended_block (core_signals c1) of
            Inl e \<Rightarrow> Some (Inl e)
          | Inr s \<Rightarrow> do {
              result \<leftarrow> try_commit api cr rng now [] (c1\<lparr>core_signals := sig_new_accepted_block (eb_block extended_block) s\<rparr>);
              Some (case result of Inl e \<Rightarrow> Inl e | Inr (c2, _) \<Rightarrow> Inr (c2, Some (eb_block extended_block)))
            }))
     })"

definition try_signal_new_round :: "'p core \<Rightarrow> 'p core" where
  "try_signal_new_round c = (
     let new_clock_round = threshold_clock_round (core_dag_state c) in
     if new_clock_round \<le> core_last_signaled_round c then c
     else c\<lparr>core_signals := sig_send_new_round new_clock_round (core_signals c), core_last_signaled_round := new_clock_round\<rparr>)"

text \<open>\<open>?\<close> on a result with the state of the core.\<close>

definition and_then :: "('p core \<times> 'a) core_result \<Rightarrow> ('p core \<Rightarrow> 'b core_result) \<Rightarrow> 'b core_result" where
  "and_then r f = Option.bind r (\<lambda>x. case x of Inl e \<Rightarrow> Some (Inl e) | Inr (c, _) \<Rightarrow> f c)"

definition add_blocks ::
    "'p proposer_api \<Rightarrow> crypto \<Rightarrow> rng_lib \<Rightarrow> nat \<Rightarrow> verified_block list \<Rightarrow> 'p core \<Rightarrow> ('p core \<times> block_ref list) core_result" where
  "add_blocks api cr rng now blocks c = do {
     (c1, accepted, missing) \<leftarrow> core_accept_blocks now blocks c;
     (if accepted \<noteq> [] then
        and_then (try_commit api cr rng now [] c1) (\<lambda>c2.
        and_then (try_propose api cr rng now False c2) (\<lambda>c3. Some (Inr (try_signal_new_round c3, missing))))
      else Some (Inr (c1, missing)))
   }"

definition filter_new_commits :: "certified_commit list \<Rightarrow> 'p core \<Rightarrow> certified_commit list core_result" where
  "filter_new_commits commits c = (
     let last_index = last_commit_index (core_dag_state c);
         new = filter (\<lambda>cc. c_index (tc_inner (cc_commit cc)) > last_index) commits
     in case new of
       [] \<Rightarrow> Some (Inr [])
     | commit # _ \<Rightarrow> do {
         expected \<leftarrow> u32_add last_index 1;
         Some (if c_index (tc_inner (cc_commit commit)) \<noteq> expected
               then Inl (UnexpectedCertifiedCommitIndex expected (c_index (tc_inner (cc_commit commit))))
               else Inr new)
       })"

definition add_certified_commits ::
    "'p proposer_api \<Rightarrow> crypto \<Rightarrow> rng_lib \<Rightarrow> nat \<Rightarrow> certified_commits \<Rightarrow> 'p core \<Rightarrow> ('p core \<times> block_ref list) core_result" where
  "add_certified_commits api cr rng now certified_commits c = do {
     filtered \<leftarrow> filter_new_commits (ccs_commits certified_commits) c;
     commits \<leftarrow> expect_ok filtered;
     (c1, _, missing) \<leftarrow> core_accept_blocks now (ccs_votes certified_commits) c;
     and_then (try_commit api cr rng now commits c1) (\<lambda>c2.
     and_then (try_propose api cr rng now False c2) (\<lambda>c3. Some (Inr (try_signal_new_round c3, missing))))
   }"

definition check_block_refs :: "block_ref list \<Rightarrow> 'p core \<Rightarrow> ('p core \<times> block_ref list) core_result" where
  "check_block_refs block_refs c = do {
     (bm, missing) \<leftarrow> try_find_blocks block_refs (core_dag_state c) (core_block_manager c);
     Some (Inr (c\<lparr>core_block_manager := bm\<rparr>, missing))
   }"

definition new_block ::
    "'p proposer_api \<Rightarrow> crypto \<Rightarrow> rng_lib \<Rightarrow> nat \<Rightarrow> round \<Rightarrow> bool \<Rightarrow> 'p core \<Rightarrow> ('p core \<times> verified_block option) core_result" where
  "new_block api cr rng now round force c = (case core_proposer c of
     None \<Rightarrow> Some (Inr (c, None))
   | Some p \<Rightarrow> do {
       last_round \<leftarrow> pr_last_proposed_round api p (core_dag_state c);
       (if last_round < round then do {
          result \<leftarrow> try_propose api cr rng now force c;
          Some (case result of Inl e \<Rightarrow> Inl e | Inr (c1, b) \<Rightarrow> Inr (try_signal_new_round c1, b))
        } else Some (Inr (c, None)))
     })"

section \<open>Starting and configuring\<close>

definition recover_observer ::
    "'p proposer_api \<Rightarrow> crypto \<Rightarrow> rng_lib \<Rightarrow> nat \<Rightarrow> 'p core \<Rightarrow> 'p core option" where
  "recover_observer api cr rng now c = do {
     result \<leftarrow> try_commit api cr rng now [] c;
     (c1, _) \<leftarrow> expect_ok result;
     Some (try_signal_new_round c1)
   }"

definition Core_new_observer ::
    "'p proposer_api \<Rightarrow> crypto \<Rightarrow> rng_lib \<Rightarrow> nat \<Rightarrow> consensus_context \<Rightarrow> leader_schedule \<Rightarrow> block_manager \<Rightarrow> commit_observer
       \<Rightarrow> core_signals \<Rightarrow> dag_state \<Rightarrow> 'p core option" where
  "Core_new_observer api cr rng now ctx ls bm co signals d = do {
     last_decided_leader \<leftarrow> last_commit_leader d;
     recover_observer api cr rng now
       \<lparr>core_context = ctx, core_block_manager = bm, core_last_signaled_round = threshold_clock_round d,
        core_last_decided_leader = last_decided_leader, core_leader_schedule = ls, core_commit_observer = co,
        core_signals = signals, core_dag_state = d, core_proposer = None\<rparr>
   }"

definition recover_validator ::
    "'p proposer_api \<Rightarrow> crypto \<Rightarrow> rng_lib \<Rightarrow> nat \<Rightarrow> 'p core \<Rightarrow> 'p core option" where
  "recover_validator api cr rng now c = do {
     committed \<leftarrow> try_commit api cr rng now [] c;
     (c1, _) \<leftarrow> expect_ok committed;
     proposed \<leftarrow> try_propose api cr rng now True c1;
     (c2, block) \<leftarrow> expect_ok proposed;
     c3 \<leftarrow> (case block of
        Some _ \<Rightarrow> Some c2
      | None \<Rightarrow> do {
          p \<leftarrow> core_proposer c2;
          last_block \<leftarrow> pr_last_proposed_block api p (core_dag_state c2);
          rassert (pr_should_propose api p (core_dag_state c2) \<longrightarrow> vb_round last_block > GENESIS_ROUND);
          s \<leftarrow> expect_ok (sig_new_block \<lparr>eb_block = last_block, eb_excluded_ancestors = []\<rparr> (core_signals c2));
          Some (c2\<lparr>core_signals := s\<rparr>)
        });
     Some (try_signal_new_round c3)
   }"

text \<open>The proposer \<open>ValidatorProposer::new(...)\<close> is an argument. The table of the ancestors of the last
  proposed block is filled, which panics on an author outside of the committee, and then dropped.\<close>

definition Core_new_validator ::
    "'p proposer_api \<Rightarrow> crypto \<Rightarrow> rng_lib \<Rightarrow> nat \<Rightarrow> consensus_context \<Rightarrow> leader_schedule \<Rightarrow> 'p \<Rightarrow> block_manager \<Rightarrow> commit_observer
       \<Rightarrow> core_signals \<Rightarrow> dag_state \<Rightarrow> 'p core option" where
  "Core_new_validator api cr rng now ctx ls proposer bm co signals d = do {
     last_decided_leader \<leftarrow> last_commit_leader d;
     proposed \<leftarrow> get_last_proposed_block d;
     last_proposed_block \<leftarrow> proposed;
     _ \<leftarrow> for_each (\<lambda>ancestor included. vec_set included (br_author ancestor) (Some ancestor)) (vb_ancestors last_proposed_block)
            (replicate (committee_size (ctx_committee ctx)) None);
     let c = \<lparr>core_context = ctx, core_block_manager = bm, core_last_signaled_round = vb_round last_proposed_block,
              core_last_decided_leader = last_decided_leader, core_leader_schedule = ls, core_commit_observer = co,
              core_signals = signals, core_dag_state = d, core_proposer = Some proposer\<rparr>;
     recover_validator api cr rng now
       (c\<lparr>core_proposer := Some (pr_set_propagation_scores api (current_reputation_scores c) proposer)\<rparr>)
   }"

definition get_missing_blocks :: "'p core \<Rightarrow> block_ref list" where
  "get_missing_blocks c = missing_blocks (core_block_manager c)"

definition core_set_propagation_delay :: "'p proposer_api \<Rightarrow> round \<Rightarrow> 'p core \<Rightarrow> 'p core" where
  "core_set_propagation_delay api delay c = c\<lparr>core_proposer := map_option (pr_set_propagation_delay api delay) (core_proposer c)\<rparr>"

definition core_set_last_known_proposed_round :: "'p proposer_api \<Rightarrow> round \<Rightarrow> 'p core \<Rightarrow> 'p core option" where
  "core_set_last_known_proposed_round api round c = (case core_proposer c of
     None \<Rightarrow> Some c
   | Some p \<Rightarrow> do {
       rassert (pr_get_last_known_proposed_round api p = None);
       Some (c\<lparr>core_proposer := Some (pr_set_last_known_proposed_round api round p)\<rparr>)
     })"

definition core_should_propose :: "'p proposer_api \<Rightarrow> 'p core \<Rightarrow> bool" where
  "core_should_propose api c = (case core_proposer c of None \<Rightarrow> False | Some p \<Rightarrow> pr_should_propose api p (core_dag_state c))"

definition core_last_proposed_round :: "'p proposer_api \<Rightarrow> 'p core \<Rightarrow> round option option" where
  "core_last_proposed_round api c = (case core_proposer c of
     None \<Rightarrow> Some None
   | Some p \<Rightarrow> map_option Some (pr_last_proposed_round api p (core_dag_state c)))"

end
