(* ===== verification/Schedule_Replay.thy ===== *)
theory Schedule_Replay
  imports Core
begin

text \<open>
  The leader schedule as a function of the committed sub-dags: replaying the sub-dags through the
  scoring and the schedule update gives the schedule and the scoring window of the core, whatever
  the batches in which it committed them, and the result depends on the context of a node only
  through the committee and the protocol configuration.
\<close>

section \<open>Replaying sub-dags\<close>

type_synonym schedule_state = "scoring_subdag \<times> leader_schedule"

definition refresh :: "rng_lib \<Rightarrow> schedule_state \<Rightarrow> schedule_state option" where
  "refresh rng = (\<lambda>(ss, ls). do {
     n \<leftarrow> scored_subdags_count ss;
     rassert (n \<le> num_commits_per_schedule ls);
     (if n = num_commits_per_schedule ls then do {
        scores \<leftarrow> calculate_distributed_vote_scores ss;
        range \<leftarrow> ss_commit_range ss;
        table \<leftarrow> LeaderSwapTable_new rng (ls_context ls) (range_end range) scores;
        ls' \<leftarrow> update_leader_swap_table table ls;
        Some (ss_clear ss, ls')
      } else Some (ss, ls))
   })"

definition replay_step :: "rng_lib \<Rightarrow> committed_sub_dag \<Rightarrow> schedule_state \<Rightarrow> schedule_state option" where
  "replay_step rng sd st = do {
     (ss, ls) \<leftarrow> refresh rng st;
     ss' \<leftarrow> add_subdag sd ss;
     Some (ss', ls)
   }"

definition replay :: "rng_lib \<Rightarrow> consensus_context \<Rightarrow> committed_sub_dag list \<Rightarrow> schedule_state option" where
  "replay rng ctx out = for_each (replay_step rng) out (ScoringSubdag_new ctx, LeaderSchedule_new ctx LeaderSwapTable_default)"

lemma replay_snoc: "replay rng ctx (out @ [sd]) = do { st \<leftarrow> replay rng ctx out; replay_step rng sd st }"
  by (simp add: replay_def for_each_append)

section \<open>Independence of the context\<close>

definition at_context :: "consensus_context \<Rightarrow> schedule_state \<Rightarrow> schedule_state" where
  "at_context ctx = (\<lambda>(ss, ls). (ss\<lparr>ss_context := ctx\<rparr>, ls\<lparr>ls_context := ctx\<rparr>))"

lemma for_each_hom:
  assumes "\<And>x s. x \<in> set xs \<Longrightarrow> I s \<Longrightarrow> f x (h s) = map_option h (f x s)"
    and "\<And>x s s'. x \<in> set xs \<Longrightarrow> I s \<Longrightarrow> f x s = Some s' \<Longrightarrow> I s'" and "I s"
  shows "for_each f xs (h s) = map_option h (for_each f xs s)"
  using assms
proof (induction xs arbitrary: s)
  case (Cons x xs)
  show ?case
  proof (cases "f x s")
    case (Some s')
    have "I s'" using Cons.prems(2) [of x s s'] Cons.prems(3) Some by simp
    then have "for_each f xs (h s') = map_option h (for_each f xs s')"
      by (intro Cons.IH Cons.prems(1)) (auto intro: Cons.prems(2))
    then show ?thesis using Cons.prems(1) [of x s] Cons.prems(3) Some by simp
  qed (use Cons.prems in simp)
qed simp

abbreviation moved :: "consensus_context \<Rightarrow> scoring_subdag \<Rightarrow> scoring_subdag" where
  "moved ctx ss \<equiv> ss\<lparr>ss_context := ctx\<rparr>"

lemma score_ancestor_context: "score_ancestor b a s = Some s' \<Longrightarrow> ss_context s' = ss_context s"
  by (auto simp: score_ancestor_def record_vote_def distribute_vote_def panic_simps split: if_splits option.splits)

lemma score_block_context: "score_block b s = Some s' \<Longrightarrow> ss_context s' = ss_context s"
  unfolding score_block_def
  by (erule for_each_inv [where I = "\<lambda>s'. ss_context s' = ss_context s"]) (auto dest: score_ancestor_context)

lemma add_subdag_context: "add_subdag sd s = Some s' \<Longrightarrow> ss_context s' = ss_context s"
proof -
  assume "add_subdag sd s = Some s'"
  then obtain range where "for_each score_block (csd_blocks sd)
      (s\<lparr>ss_commit_range := Some range, ss_leaders := insert (csd_leader sd) (ss_leaders s)\<rparr>) = Some s'"
    by (auto simp: add_subdag_def panic_simps Let_def)
  then show ?thesis
    by (rule for_each_inv [where I = "\<lambda>s'. ss_context s' = ss_context s"]) (auto dest: score_block_context)
qed

lemma score_ancestor_moved:
  assumes "ctx_committee (ss_context s) = ctx_committee ctx"
  shows "score_ancestor b a (moved ctx s) = map_option (moved ctx) (score_ancestor b a s)"
proof -
  have vote: "record_vote b a (moved ctx s) = map_option (moved ctx) (record_vote b a s)"
    by (auto simp: record_vote_def rassert_def)
  have dist: "distribute_vote b a (moved ctx t) = map_option (moved ctx) (distribute_vote b a t)"
    if "ctx_committee (ss_context t) = ctx_committee ctx" for t
    using that by (auto simp: distribute_vote_def split: option.split Option.bind_split)
  have "ctx_committee (ss_context t) = ctx_committee ctx" if "record_vote b a s = Some t" for t
    using that assms by (auto simp: record_vote_def panic_simps split: if_splits)
  then show ?thesis
    using vote dist by (cases "record_vote b a s") (auto simp: score_ancestor_def)
qed

lemma score_block_moved:
  assumes "ctx_committee (ss_context s) = ctx_committee ctx"
  shows "score_block b (moved ctx s) = map_option (moved ctx) (score_block b s)"
  unfolding score_block_def
  by (rule for_each_hom [where I = "\<lambda>s. ctx_committee (ss_context s) = ctx_committee ctx"])
     (use assms in \<open>auto simp: score_ancestor_moved dest: score_ancestor_context\<close>)

lemma add_subdag_moved:
  assumes "ctx_committee (ss_context s) = ctx_committee ctx"
  shows "add_subdag sd (moved ctx s) = map_option (moved ctx) (add_subdag sd s)"
proof -
  have hom: "for_each score_block bs (moved ctx t) = map_option (moved ctx) (for_each score_block bs t)"
    if "ctx_committee (ss_context t) = ctx_committee ctx" for bs t
    by (rule for_each_hom [where I = "\<lambda>s. ctx_committee (ss_context s) = ctx_committee ctx"])
       (use that in \<open>auto simp: score_block_moved dest: score_block_context\<close>)
  have swap: "(moved ctx s)\<lparr>ss_commit_range := x, ss_leaders := y\<rparr> = moved ctx (s\<lparr>ss_commit_range := x, ss_leaders := y\<rparr>)" for x y
    by (cases s) simp
  have "for_each score_block bs ((moved ctx s)\<lparr>ss_commit_range := x, ss_leaders := y\<rparr>)
      = map_option (moved ctx) (for_each score_block bs (s\<lparr>ss_commit_range := x, ss_leaders := y\<rparr>))" for bs x y
    unfolding swap using assms by (intro hom) simp
  then show ?thesis using assms by (auto simp: add_subdag_def Let_def split: option.split Option.bind_split)
qed

lemma refresh_context: "refresh rng (ss, ls) = Some (ss', ls') \<Longrightarrow> ss_context ss' = ss_context ss \<and> ls_context ls' = ls_context ls
    \<and> num_commits_per_schedule ls' = num_commits_per_schedule ls"
  by (auto simp: refresh_def panic_simps ss_clear_def update_leader_swap_table_def Let_def split: if_splits)

lemma refresh_moved:
  assumes "same_rules (ss_context ss) ctx" and "same_rules (ls_context ls) ctx"
  shows "refresh rng (at_context ctx (ss, ls)) = map_option (at_context ctx) (refresh rng (ss, ls))"
proof -
  have scores: "calculate_distributed_vote_scores (moved ctx ss) = calculate_distributed_vote_scores ss"
    using assms(1) by (simp add: calculate_distributed_vote_scores_def distributed_votes_scores_def same_rules_def)
  have table: "LeaderSwapTable_new rng ctx i sc = LeaderSwapTable_new rng (ls_context ls) i sc" for i sc
    using assms(2) by (simp add: LeaderSwapTable_new_def new_inner_def same_rules_def)
  have upd: "update_leader_swap_table t (ls\<lparr>ls_context := ctx\<rparr>) = map_option (\<lambda>l. l\<lparr>ls_context := ctx\<rparr>) (update_leader_swap_table t ls)" for t
    by (auto simp: update_leader_swap_table_def Let_def rassert_def split: Option.bind_split)
  have clear: "ss_clear (moved ctx ss) = moved ctx (ss_clear ss)" by (simp add: ss_clear_def)
  show ?thesis
    by (auto simp: refresh_def at_context_def scores table upd clear scored_subdags_count_def rassert_def split: Option.bind_split option.split)
qed

lemma replay_step_moved:
  assumes "same_rules (ss_context ss) ctx" and "same_rules (ls_context ls) ctx"
  shows "replay_step rng sd (at_context ctx (ss, ls)) = map_option (at_context ctx) (replay_step rng sd (ss, ls))"
proof (cases "refresh rng (ss, ls)")
  case (Some st)
  obtain ss' ls' where st: "st = (ss', ls')" by force
  have "ctx_committee (ss_context ss') = ctx_committee ctx"
    using refresh_context [of rng ss ls ss' ls'] Some st assms(1) by (simp add: same_rules_def)
  note add_subdag_moved [OF this, of sd]
  then show ?thesis
    using refresh_moved [OF assms, of rng] Some st by (cases "add_subdag sd ss'") (simp_all add: replay_step_def at_context_def)
qed (use refresh_moved [OF assms, of rng] in \<open>simp add: replay_step_def\<close>)

lemma replay_step_context: "replay_step rng sd (ss, ls) = Some (ss', ls') \<Longrightarrow> ss_context ss' = ss_context ss \<and> ls_context ls' = ls_context ls
    \<and> num_commits_per_schedule ls' = num_commits_per_schedule ls"
  by (auto simp: replay_step_def panic_simps dest!: refresh_context add_subdag_context)

lemma replay_context:
  assumes "replay rng ctx out = Some (ss, ls)"
  shows "ss_context ss = ctx \<and> ls_context ls = ctx \<and> num_commits_per_schedule ls = CONSENSUS_COMMITS_PER_SCHEDULE"
proof -
  let ?I = "\<lambda>st. ss_context (fst st) = ctx \<and> ls_context (snd st) = ctx \<and> num_commits_per_schedule (snd st) = CONSENSUS_COMMITS_PER_SCHEDULE"
  have "?I (ss, ls)"
    using assms unfolding replay_def
    by (rule for_each_inv [where I = ?I]) (auto simp: ScoringSubdag_new_def LeaderSchedule_new_def dest: replay_step_context)
  then show ?thesis by simp
qed

lemma replay_moved:
  assumes "same_rules ctx ctx'"
  shows "replay rng ctx' out = map_option (at_context ctx') (replay rng ctx out)"
proof -
  let ?I = "\<lambda>st. same_rules (ss_context (fst st)) ctx' \<and> same_rules (ls_context (snd st)) ctx'"
  let ?init = "(ScoringSubdag_new ctx, LeaderSchedule_new ctx LeaderSwapTable_default)"
  have "at_context ctx' ?init = (ScoringSubdag_new ctx', LeaderSchedule_new ctx' LeaderSwapTable_default)"
    by (simp add: at_context_def ScoringSubdag_new_def LeaderSchedule_new_def)
  moreover have "for_each (replay_step rng) out (at_context ctx' ?init) = map_option (at_context ctx') (for_each (replay_step rng) out ?init)"
    by (rule for_each_hom [where I = ?I])
       (use assms in \<open>auto simp: replay_step_moved ScoringSubdag_new_def LeaderSchedule_new_def dest: replay_step_context\<close>)
  ultimately show ?thesis by (simp add: replay_def)
qed

text \<open>The schedule to decide with after the given sub-dags elects the same leaders at every node.\<close>

lemma elect_leader_moved:
  assumes "same_rules (ls_context ls) ctx"
  shows "elect_leader rng (ls\<lparr>ls_context := ctx\<rparr>) r o' = elect_leader rng ls r o'"
  using assms by (simp add: elect_leader_def elect_leader_stake_based_def same_rules_def)

lemma schedules_elect_same:
  assumes "same_rules ctx ctx'" and "replay rng ctx out = Some st" and "refresh rng st = Some (ss, ls)"
    and "replay rng ctx' out = Some st'" and "refresh rng st' = Some (ss', ls')"
  shows "leader_slot rng ls' = leader_slot rng ls"
proof -
  obtain s0 l0 where st: "st = (s0, l0)" by force
  note c = replay_context [OF assms(2) [unfolded st]]
  have "st' = at_context ctx' st" using replay_moved [OF assms(1), of rng out] assms(2,4) by simp
  then have "refresh rng st' = map_option (at_context ctx') (refresh rng st)"
    using refresh_moved [of s0 ctx' l0 rng] c assms(1) st by simp
  then have "ls' = ls\<lparr>ls_context := ctx'\<rparr>" using assms(3,5) by (simp add: at_context_def)
  moreover have "same_rules (ls_context ls) ctx'" using refresh_context assms(1,3) st c by fastforce
  ultimately show ?thesis by (simp add: leader_slot_def fun_eq_iff elect_leader_moved)
qed

section \<open>Batches within a schedule window\<close>

text \<open>The scoring window holds the last \<open>n\<close> of \<open>m\<close> commits.\<close>

definition window :: "nat \<Rightarrow> nat \<Rightarrow> scoring_subdag \<Rightarrow> bool" where
  "window m n ss \<longleftrightarrow> (if n = 0 then ss_commit_range ss = None
     else \<exists>f. ss_commit_range ss = Some (CommitRange f (m + 1)) \<and> f + n = m + 1)"

lemma window_count: "window m n ss \<Longrightarrow> scored_subdags_count ss = Some n"
  by (auto simp: window_def scored_subdags_count_def range_size_def checked_sub_def split: if_splits)

lemma score_block_range: "score_block b s = Some s' \<Longrightarrow> ss_commit_range s' = ss_commit_range s"
  unfolding score_block_def
  by (erule for_each_inv [where I = "\<lambda>s'. ss_commit_range s' = ss_commit_range s"])
     (auto simp: score_ancestor_def record_vote_def distribute_vote_def panic_simps split: if_splits option.splits)

lemma add_subdag_window:
  assumes "window m n ss" and "add_subdag sd ss = Some ss'" and "cr_index (csd_commit_ref sd) = m + 1" and "m + 1 < u32_max"
  shows "window (m + 1) (n + 1) ss'"
proof -
  from assms(2) obtain range where range: "(case ss_commit_range ss of None \<Rightarrow> Some (CommitRange_new (m + 1) (m + 1))
      | Some r \<Rightarrow> extend_to (m + 1) r) = Some range"
    and run: "for_each score_block (csd_blocks sd)
      (ss\<lparr>ss_commit_range := Some range, ss_leaders := insert (csd_leader sd) (ss_leaders ss)\<rparr>) = Some ss'"
    unfolding add_subdag_def assms(3) Let_def panic_simps by blast
  have "ss_commit_range ss' = Some range"
    by (rule for_each_inv [OF run, where I = "\<lambda>s. ss_commit_range s = Some range"]) (auto dest: score_block_range)
  note ss' = this
  have sat: "u32_saturating_add (m + 1) 1 = m + 2" using assms(4) by (simp add: u32_saturating_add_def)
  show ?thesis
  proof (cases "n = 0")
    case True
    then have "range = CommitRange (m + 1) (m + 2)"
      using range assms(1) sat by (simp add: window_def CommitRange_new_def)
    then show ?thesis using ss' True by (simp add: window_def)
  next
    case False
    then obtain f where f: "ss_commit_range ss = Some (CommitRange f (m + 1))" "f + n = m + 1"
      using assms(1) by (auto simp: window_def)
    then have "range = CommitRange f (m + 2)"
      using range sat by (simp add: extend_to_def rassert_def Let_def)
    then show ?thesis using ss' f(2) by (simp add: window_def)
  qed
qed

lemma refresh_window:
  assumes "window m n ss" and "refresh rng (ss, ls) = Some (ss', ls')" and "0 < num_commits_per_schedule ls"
  shows "\<exists>n'<num_commits_per_schedule ls. window m n' ss'"
proof (cases "n = num_commits_per_schedule ls")
  case True
  then have "ss' = ss_clear ss" using assms(2) window_count [OF assms(1)] by (auto simp: refresh_def panic_simps)
  then have "window m 0 ss'" by (simp add: window_def ss_clear_def)
  then show ?thesis using assms(3) by blast
next
  case False
  then have "ss' = ss" "n < num_commits_per_schedule ls"
    using assms(2) window_count [OF assms(1)] by (auto simp: refresh_def panic_simps)
  then show ?thesis using assms(1) by blast
qed

lemma refresh_inside:
  "window m n ss \<Longrightarrow> n < num_commits_per_schedule ls \<Longrightarrow> refresh rng (ss, ls) = Some (ss, ls)"
  using window_count [of m n ss] by (simp add: refresh_def rassert_def)

lemma replay_window:
  assumes "replay rng ctx out = Some (ss, ls)" and "\<And>k. k < length out \<Longrightarrow> cr_index (csd_commit_ref (out ! k)) = k + 1"
    and "length out < u32_max"
  shows "\<exists>n\<le>CONSENSUS_COMMITS_PER_SCHEDULE. window (length out) n ss"
  using assms
proof (induction out arbitrary: ss ls rule: rev_induct)
  case Nil
  then show ?case by (auto simp: replay_def window_def ScoringSubdag_new_def)
next
  case (snoc sd out)
  from snoc.prems(1) obtain ss0 ls0 ss1 where st: "replay rng ctx out = Some (ss0, ls0)"
    "refresh rng (ss0, ls0) = Some (ss1, ls)" "add_subdag sd ss1 = Some ss"
    by (auto simp: replay_snoc replay_step_def panic_simps)
  have idx: "\<And>k. k < length out \<Longrightarrow> cr_index (csd_commit_ref (out ! k)) = k + 1" "cr_index (csd_commit_ref sd) = length out + 1"
    using snoc.prems(2) [of k for k] snoc.prems(2) [of "length out"] by (auto simp: nth_append) (metis less_SucI)
  from snoc.IH [OF st(1) idx(1)] snoc.prems(3) obtain n where "window (length out) n ss0" by auto
  from refresh_window [OF this st(2)] replay_context [OF st(1)] obtain n' where
    n': "n' < CONSENSUS_COMMITS_PER_SCHEDULE" "window (length out) n' ss1" by (auto simp: CONSENSUS_COMMITS_PER_SCHEDULE_def)
  from add_subdag_window [OF n'(2) st(3) idx(2)] snoc.prems(3) have "window (length out + 1) (n' + 1) ss" by simp
  then show ?case using n'(1) by (intro exI [of _ "n' + 1"]) simp
qed

text \<open>Committing a batch that fits in the window leaves the schedule alone.\<close>

lemma replay_batch:
  assumes "replay rng ctx out = Some st" and "refresh rng st = Some (ss, ls)" and "window (length out) n ss"
    and "n + length sds \<le> num_commits_per_schedule ls" and "add_subdags sds ss = Some ss'"
    and "\<And>j. j < length sds \<Longrightarrow> cr_index (csd_commit_ref (sds ! j)) = length out + j + 1"
    and "length out + length sds < u32_max" and "j \<le> length sds"
  shows "\<exists>ssj stj. add_subdags (take j sds) ss = Some ssj \<and> window (length out + j) (n + j) ssj
     \<and> replay rng ctx (out @ take j sds) = Some stj \<and> (0 < j \<longrightarrow> stj = (ssj, ls))
     \<and> (n + j < num_commits_per_schedule ls \<longrightarrow> refresh rng stj = Some (ssj, ls))"
  using assms(8)
proof (induction j)
  case 0
  then show ?case using assms(1-3) by (simp add: add_subdags_def)
next
  case (Suc j)
  then obtain ssj stj where IH: "add_subdags (take j sds) ss = Some ssj" "window (length out + j) (n + j) ssj"
    "replay rng ctx (out @ take j sds) = Some stj" "n + j < num_commits_per_schedule ls \<longrightarrow> refresh rng stj = Some (ssj, ls)" by auto
  have j: "j < length sds" "n + j < num_commits_per_schedule ls" using Suc.prems assms(4) by auto
  have "sds = take j sds @ sds ! j # drop (Suc j) sds" using j(1) by (rule id_take_nth_drop)
  then have "add_subdags sds ss = do { s \<leftarrow> add_subdag (sds ! j) ssj; for_each add_subdag (drop (Suc j) sds) s }"
    using IH(1) for_each_append [of add_subdag "take j sds" "sds ! j # drop (Suc j) sds" ss] by (simp add: add_subdags_def)
  then obtain s where s: "add_subdag (sds ! j) ssj = Some s" using assms(5) by (cases "add_subdag (sds ! j) ssj") auto
  have take: "take (Suc j) sds = take j sds @ [sds ! j]" using j(1) by (rule take_Suc_conv_app_nth)
  have "window (length out + j + 1) (n + j + 1) s"
    using add_subdag_window [OF IH(2) s assms(6) [OF j(1)]] assms(7) j(1) by simp
  moreover have "add_subdags (take (Suc j) sds) ss = Some s" using IH(1) s by (simp add: take add_subdags_def for_each_append)
  moreover have "replay rng ctx (out @ take (Suc j) sds) = Some (s, ls)"
    using IH(3,4) j(2) s replay_snoc [of rng ctx "out @ take j sds" "sds ! j"] by (simp add: take replay_step_def)
  ultimately show ?case using refresh_inside [of "length out + j + 1" "n + j + 1" s ls rng] by auto
qed

end
