(* ===== verification/Core_Invariant.thy ===== *)
theory Core_Invariant
  imports Schedule_Replay
begin

text \<open>
  The invariant of a node that receives blocks and commits. It ties the state of the core to two
  sequences: the decided leaders, and the committed sub-dags sent to the finalizer. For every entry
  of the sequences it records that an earlier view of the node justified it.
\<close>

section \<open>What the steps leave unchanged\<close>

lemma add_commit_scoring: "add_commit now c d = Some d' \<Longrightarrow> ds_scoring_subdag d' = ds_scoring_subdag d"
  by (auto simp: add_commit_def record_commit_def panic_simps split: option.splits if_splits)

lemma accept_block_scoring:
  assumes "accept_block now b d = Some d'" and "\<not> enable_v3 (protocol_config (ds_context d))"
  shows "ds_scoring_subdag d' = ds_scoring_subdag d"
  using assms
  by (auto simp: accept_block_def update_block_metadata_def insert_recent_def update_v3_info_def Let_def panic_simps split: if_splits)

lemma flush_scoring:
  assumes "flush d = Some d'"
  shows "ds_scoring_subdag d' = ds_scoring_subdag d"
proof -
  have step: "ds_scoring_subdag y = ds_scoring_subdag x" if "evict_authority a x = Some y" for a x y
    using that by (auto simp: evict_authority_def panic_simps Let_def case_prod_beta)
  have evict: "ds_scoring_subdag y = ds_scoring_subdag x" if "for_each evict_authority as x = Some y" for as x y
    by (rule for_each_inv [OF that, where I = "\<lambda>z. ds_scoring_subdag z = ds_scoring_subdag x"]) (auto dest: step)
  show ?thesis
    using assms by (auto simp: flush_def Let_def panic_simps evict_round_info_def split: if_splits dest!: evict)
qed

lemma view_step_grows:
  assumes "view_step cr v d d'" and "node_ok cr v d"
  shows "dag_lookup d \<subseteq>\<^sub>m dag_lookup d' \<and> ds_scoring_subdag d' = ds_scoring_subdag d \<and> node_ok cr v d'"
proof -
  note ok = node_okD [OF assms(2)]
  have v3: "\<not> enable_v3 (protocol_config (ds_context d))" using assms(2) by (simp add: node_ok_def)
  have "node_ok cr v d'" using view_ok_step [OF assms(1) ok(1,2)] assms(2) by (simp add: node_ok_def)
  moreover have "dag_lookup d \<subseteq>\<^sub>m dag_lookup d' \<and> ds_scoring_subdag d' = ds_scoring_subdag d"
    using assms(1)
  proof cases
    case (accept sb serialized b rejected now)
    have "vb_author b < committee_size (ds_committee d)"
      using verified_links(3) [OF ok(3) accept(1)] ok(2) by simp
    then have "dag_lookup d' = (if dag_lookup d (reference b) = None then (dag_lookup d)(reference b \<mapsto> b) else dag_lookup d)"
      using accept_block_lookup [OF view_okD(1) [OF ok(1)] accept(3)] by blast
    then show ?thesis using accept_block_scoring [OF accept(3) v3] by (auto simp: map_le_def)
  next
    case (commit commit now)
    from add_commit_fields [OF commit(2)] have "dag_lookup d' = dag_lookup d"
      by (auto simp: dag_lookup_def fun_eq_iff cong: option.case_cong)
    then show ?thesis using add_commit_scoring [OF commit(2)] by simp
  next
    case flush
    then have "dag_lookup d' = dag_lookup d" using flush_correct [OF view_okD(1) [OF ok(1)]] by auto
    then show ?thesis using flush_scoring [OF flush] by simp
  qed
  ultimately show ?thesis by blast
qed

lemma view_steps_grow:
  assumes "(view_step cr v)\<^sup>*\<^sup>* d d'" and "node_ok cr v d"
  shows "dag_lookup d \<subseteq>\<^sub>m dag_lookup d' \<and> ds_scoring_subdag d' = ds_scoring_subdag d"
  using assms(1)
proof (induction rule: rtranclp_induct)
  case (step y z)
  have "node_ok cr v y" using step(1)
    by (induction rule: rtranclp_induct) (use assms(2) view_step_grows in blast)+
  then show ?case using step(3) view_step_grows [OF step(2)] by (metis map_le_trans)
qed simp

section \<open>Committing a batch of leaders\<close>

text \<open>A sub-dag was produced by committing its leader in an earlier view, after the sub-dags before it.\<close>

definition commit_event ::
    "crypto \<Rightarrow> consensus_context \<Rightarrow> (block_ref \<rightharpoonup> verified_block) \<Rightarrow> committed_sub_dag list \<Rightarrow> nat \<Rightarrow> bool" where
  "commit_event cr ctx D out k \<longleftrightarrow> (\<exists>d l d1 c. view_ok d \<and> commits_ok d \<and> ds_context d = ctx \<and> dag_lookup d \<subseteq>\<^sub>m D
     \<and> committed_as d (take k out) \<and> leader_ready d l \<and> last_commit_round d < vb_round l
     \<and> collect_sub_dag_and_commit cr (Linearizer_new ctx) l d = Some (d1, out ! k, c))"

lemma map_opt_id_known: "map_opt id xs = Some ys \<Longrightarrow> None \<notin> set xs"
  by (induction xs arbitrary: ys) (auto split: Option.bind_splits)

lemma collect_parents_known:
  assumes "view_ok d" and "commits_ok d" and "dag_lookup d (reference l) = Some l" and "last_commit_round d < vb_round l"
    and "collect_sub_dag_and_commit cr lin l d = Some r"
  shows "leader_ready d l" and "last_commit_index d < u32_max"
proof -
  from assms(5) obtain d1 bs ts where lin: "linearize_sub_dag dag_store_api l d = Some (d1, bs)"
    and ts: "calculate_commit_timestamp (lin_context lin) dag_store_api d1 l (last_commit_timestamp_ms d) = Some ts"
    and idx: "last_commit_index d + 1 \<le> u32_max"
    by (auto simp: collect_sub_dag_and_commit_def panic_simps Let_def)
  show "last_commit_index d < u32_max" using idx by simp
  have gc: "gc_round d < vb_round l" using gc_round_le [of d] assms(4) by simp
  moreover have "reference l \<notin> committed_refs d" using assms(2,4) by (fastforce simp: commits_ok_def)
  ultimately have "same_dag d d1"
    using linearize_exact [OF assms(1) _ assms(3)] assms(2) lin by (auto simp: commits_ok_def)
  then have look: "dag_lookup d1 = dag_lookup d" using same_dag_view_ok(3) assms(1) by blast
  have refs: "filter_opt (\<lambda>a. do { parent_round \<leftarrow> checked_sub (vb_round l) 1; Some (br_round a = parent_round) }) (vb_ancestors l)
      = Some (filter (\<lambda>a. br_round a + 1 = vb_round l) (vb_ancestors l))"
    using gc by (intro filter_opt_total) (auto simp: checked_sub_def)
  from ts obtain bs where "map_opt id (map (dag_lookup d) (filter (\<lambda>a. br_round a + 1 = vb_round l) (vb_ancestors l))) = Some bs"
    unfolding calculate_commit_timestamp_def refs dag_store.get_blocks_law Option.bind.bind_lunit look panic_simps by blast
  then have "dag_lookup d a \<noteq> None" if "a \<in> set (vb_ancestors l)" "br_round a + 1 = vb_round l" for a
    using map_opt_id_known that by force
  then show "leader_ready d l" using assms(3) by (auto simp: leader_ready_def parents_known_def)
qed

lemma committed_as_snoc:
  assumes "committed_as d out" and "commit_follows d l sd c" and "ds_last_commit d' = Some c"
    and "committed_refs d' = committed_refs d \<union> sub_dag_refs d (reference l)" and "gc_round d \<le> gc_round d'"
  shows "committed_as d' (out @ [sd])"
proof -
  note f = assms(2) [unfolded commit_follows_def]
  have refs: "set (map reference (csd_blocks sd)) = sub_dag_refs d (reference l)" using f by simp
  have "r \<in> committed_refs d' \<longleftrightarrow> r \<in> set (sub_dag_blocks (out @ [sd]))" if "gc_round d' < br_round r" for r
    using that assms(1,4,5) refs by (auto simp: committed_as_def)
  then show ?thesis
    using assms(1,3) f
    by (simp add: committed_as_def last_commit_index_def last_commit_digest_def last_commit_timestamp_ms_def
        last_commit_round_def out_digest_def out_timestamp_def out_round_def tc_reference_def)
qed

definition batch_committed ::
    "crypto \<Rightarrow> consensus_context \<Rightarrow> committed_sub_dag list \<Rightarrow> dag_state \<Rightarrow> verified_block list \<Rightarrow> dag_state \<Rightarrow> committed_sub_dag list \<Rightarrow> bool" where
  "batch_committed cr ctx out d ls d' sds \<longleftrightarrow> view_ok d' \<and> commits_ok d' \<and> ds_context d' = ctx \<and> dag_lookup d' = dag_lookup d
     \<and> gc_round d \<le> gc_round d' \<and> committed_as d' (out @ sds) \<and> ds_scoring_subdag d' = ds_scoring_subdag d
     \<and> map csd_leader sds = map reference ls \<and> (\<forall>sd\<in>set sds. csd_decided_with_local_blocks sd)
     \<and> (\<forall>k<length sds. cr_index (csd_commit_ref (sds ! k)) = length out + k + 1)
     \<and> (\<forall>k<length sds. commit_event cr ctx (dag_lookup d) (out @ sds) (length out + k))"

lemma commit_leader_run:
  assumes "view_ok d" and "commits_ok d" and "ds_context d = ctx" and "committed_as d out"
    and "dag_lookup d (reference l) = Some l" and "last_commit_round d < vb_round l" and "\<forall>c. \<exists>bs. bcs_commit cr c = Inr bs"
    and "commit_leader cr (Linearizer_new ctx) now l (d, acc) = Some (d', acc')"
  shows "\<exists>sd. acc' = acc @ [sd] \<and> batch_committed cr ctx out d [l] d' [sd] \<and> last_commit_round d' = vb_round l"
proof -
  from assms(8) obtain d1 sd c d2 where col: "collect_sub_dag_and_commit cr (Linearizer_new ctx) l d = Some (d1, sd, c)"
    and add: "add_commit now c d1 = Some d2" and out: "d' = d2" "acc' = acc @ [sd]"
    by (auto simp: commit_leader_def panic_simps)
  note ready = collect_parents_known [OF assms(1,2,5,6) col]
  have lin: "lin_context (Linearizer_new ctx) = ds_context d" using assms(3) by (simp add: Linearizer_new_def)
  from commit_leader_correct [OF assms(1,2) ready(1) assms(6) ready(2) assms(7) lin, of now acc] obtain e sd' c' where
    e: "commit_leader cr (Linearizer_new ctx) now l (d, acc) = Some (e, acc @ [sd'])" "commit_follows d l sd' c'" "view_ok e" "commits_ok e"
      "ds_context e = ds_context d" "dag_lookup e = dag_lookup d" "ds_last_commit e = Some c'"
      "committed_refs e = committed_refs d \<union> sub_dag_refs d (reference l)" by blast
  have same: "e = d'" "sd' = sd" using e(1) assms(8) out by auto
  note f = e(2) [unfolded commit_follows_def]
  have round: "last_commit_round d' = vb_round l" using e(7) f same by (simp add: last_commit_round_def)
  have gc: "gc_round d \<le> gc_round d'"
    using round assms(6) e(5) same by (simp add: gc_round_def calculate_gc_round_def)
  have com: "committed_as d' (out @ [sd])" using committed_as_snoc [OF assms(4) e(2,7,8)] gc same by simp
  have "same_dag d d1" using collect_correct [OF assms(1,2) ready(1) assms(6) ready(2) assms(7) lin] col by auto
  then have "ds_scoring_subdag d1 = ds_scoring_subdag d" by (auto simp: same_dag_def)
  then have score: "ds_scoring_subdag d' = ds_scoring_subdag d" using add_commit_scoring [OF add] out by simp
  have flag: "csd_decided_with_local_blocks sd"
    using col by (auto simp: collect_sub_dag_and_commit_def panic_simps Let_def CommittedSubDag_new_def)
  have "commit_event cr ctx (dag_lookup d) (out @ [sd]) (length out)"
    unfolding commit_event_def using assms(1-4,6) ready(1) col by (intro exI [of _ d] exI [of _ l] exI [of _ d1] exI [of _ c]) simp
  moreover have "cr_index (csd_commit_ref sd) = length out + 1" using f same assms(4) by (simp add: committed_as_def tc_reference_def)
  ultimately show ?thesis
    using out(2) e(3-6) same gc com score flag f round assms(3) by (auto simp: batch_committed_def)
qed

lemma commit_event_mono:
  assumes "commit_event cr ctx D out k" and "D \<subseteq>\<^sub>m D'" and "k < length out"
  shows "commit_event cr ctx D' (out @ later) k"
proof -
  have "take k (out @ later) = take k out" "(out @ later) ! k = out ! k" using assms(3) by (simp_all add: nth_append)
  then show ?thesis using assms(1,2) map_le_trans unfolding commit_event_def by fastforce
qed

lemma commit_leaders_run:
  assumes "view_ok d" and "commits_ok d" and "ds_context d = ctx" and "committed_as d out"
    and "\<forall>l\<in>set ls. dag_lookup d (reference l) = Some l \<and> last_commit_round d < vb_round l"
    and "sorted_wrt (\<lambda>l l'. vb_round l < vb_round l') ls" and "\<forall>c. \<exists>bs. bcs_commit cr c = Inr bs"
    and "for_each (commit_leader cr (Linearizer_new ctx) now) ls (d, acc) = Some (d', acc')"
  shows "\<exists>sds. acc' = acc @ sds \<and> batch_committed cr ctx out d ls d' sds
     \<and> last_commit_round d' = (if ls = [] then last_commit_round d else vb_round (last ls))"
  using assms
proof (induction ls arbitrary: d out acc)
  case Nil
  then show ?case by (simp add: batch_committed_def)
next
  case (Cons l ls)
  from Cons.prems(8) obtain d1 acc1 where 1: "commit_leader cr (Linearizer_new ctx) now l (d, acc) = Some (d1, acc1)"
    "for_each (commit_leader cr (Linearizer_new ctx) now) ls (d1, acc1) = Some (d', acc')" by (auto simp: panic_simps)
  from commit_leader_run [OF Cons.prems(1-4) _ _ Cons.prems(7) 1(1)] Cons.prems(5) obtain sd where
    sd: "acc1 = acc @ [sd]" "batch_committed cr ctx out d [l] d1 [sd]" "last_commit_round d1 = vb_round l" by auto
  note b = sd(2) [unfolded batch_committed_def]
  have "\<forall>x\<in>set ls. dag_lookup d1 (reference x) = Some x \<and> last_commit_round d1 < vb_round x"
    using Cons.prems(5,6) b sd(3) by auto
  with Cons.IH [of d1 "out @ [sd]" acc1] b Cons.prems(6,7) 1(2) obtain sds where
    sds: "acc' = acc1 @ sds" "batch_committed cr ctx (out @ [sd]) d1 ls d' sds"
      "last_commit_round d' = (if ls = [] then last_commit_round d1 else vb_round (last ls))" by auto
  note b' = sds(2) [unfolded batch_committed_def]
  have "cr_index (csd_commit_ref ((sd # sds) ! k)) = length out + k + 1" if "k < length (sd # sds)" for k
    using that b b' by (cases k) auto
  moreover have "commit_event cr ctx (dag_lookup d) (out @ sd # sds) (length out + k)" if "k < length (sd # sds)" for k
  proof (cases k)
    case 0
    then show ?thesis using b commit_event_mono [of cr ctx "dag_lookup d" "out @ [sd]" "length out" "dag_lookup d" sds] by simp
  next
    case (Suc j)
    then show ?thesis using b b' that by (auto dest!: spec [of _ j])
  qed
  ultimately have "batch_committed cr ctx out d (l # ls) d' (sd # sds)" using b b' by (auto simp: batch_committed_def)
  then show ?case using sds(1,3) sd by auto
qed

end
