(* ===== verification/Core_Steps.thy ===== *)
theory Core_Steps
  imports Core_Invariant
begin

text \<open>
  The invariant of a node and that it is kept by receiving blocks, by flushing, and by the passes of
  the commit loop.
\<close>

section \<open>The invariant\<close>

type_synonym decision_log = "(slot \<times> verified_block option) list"

definition log_blocks :: "decision_log \<Rightarrow> verified_block list" where
  "log_blocks L = List.map_filter snd L"

lemma log_blocks_simps [simp]:
  "log_blocks [] = []" "log_blocks (e # L) = (case snd e of None \<Rightarrow> log_blocks L | Some b \<Rightarrow> b # log_blocks L)"
  "log_blocks (L @ L') = log_blocks L @ log_blocks L'"
  by (simp_all add: log_blocks_def map_filter_simps map_filter_def split: option.split)

text \<open>The entry of a round was decided in an earlier view, with the schedule that follows from the
  sub-dags committed before it.\<close>

definition decision_event ::
    "rng_lib \<Rightarrow> consensus_context \<Rightarrow> (block_ref \<rightharpoonup> verified_block) \<Rightarrow> committed_sub_dag list \<Rightarrow> decision_log \<Rightarrow> nat \<Rightarrow> bool" where
  "decision_event rng ctx D out L i \<longleftrightarrow> (\<exists>d st ss ls run s. view_ok d \<and> ds_context d = ctx \<and> dag_lookup d \<subseteq>\<^sub>m D
     \<and> replay rng ctx (take (length (log_blocks (take i L))) out) = Some st \<and> refresh rng st = Some (ss, ls)
     \<and> run_ok d (leader_slot rng ls) run \<and> run (Suc i) = Some s
     \<and> ((\<exists>b. s = Commit b \<and> L ! i = (leader_slot rng ls (Suc i), Some b))
        \<or> (\<exists>sl. s = Skip sl \<and> L ! i = (leader_slot rng ls (Suc i), None))))"

definition schedule_ok ::
    "rng_lib \<Rightarrow> consensus_context \<Rightarrow> committed_sub_dag list \<Rightarrow> scoring_subdag \<Rightarrow> leader_schedule \<Rightarrow> bool" where
  "schedule_ok rng ctx out ss ls \<longleftrightarrow> (\<exists>st. replay rng ctx out = Some st \<and> (st = (ss, ls) \<or> refresh rng st = Some (ss, ls)))"

definition history_ok ::
    "crypto \<Rightarrow> rng_lib \<Rightarrow> consensus_context \<Rightarrow> (block_ref \<rightharpoonup> verified_block) \<Rightarrow> committed_sub_dag list \<Rightarrow> decision_log \<Rightarrow> bool" where
  "history_ok cr rng ctx D out L \<longleftrightarrow> length out < u32_max
     \<and> (\<forall>k<length out. cr_index (csd_commit_ref (out ! k)) = k + 1)
     \<and> map csd_leader out = map reference (log_blocks L)
     \<and> (\<forall>i<length L. decision_event rng ctx D out L i) \<and> (\<forall>k<length out. commit_event cr ctx D out k)"

definition core_ok :: "crypto \<Rightarrow> signed_block_verifier \<Rightarrow> rng_lib \<Rightarrow> decision_log \<Rightarrow> 'p core \<Rightarrow> bool" where
  "core_ok cr v rng L c \<longleftrightarrow> (let d = core_dag_state c; out = co_sent (core_commit_observer c) in
     manager_ok cr v (core_block_manager c, d) \<and> commits_ok d \<and> core_context c = sbv_context v
   \<and> co_interpreter (core_commit_observer c) = Linearizer_new (sbv_context v)
   \<and> committed_as d out \<and> schedule_ok rng (sbv_context v) out (ds_scoring_subdag d) (core_leader_schedule c)
   \<and> slot_round (core_last_decided_leader c) = length L \<and> last_commit_round d \<le> length L
   \<and> history_ok cr rng (sbv_context v) (dag_lookup d) out L)"

lemma decision_event_mono:
  assumes "decision_event rng ctx D out L i" and "D \<subseteq>\<^sub>m D'" and "i < length L"
    and "length (log_blocks (take i L)) \<le> length out"
  shows "decision_event rng ctx D' (out @ out') (L @ L') i"
proof -
  have "take i (L @ L') = take i L" "(L @ L') ! i = L ! i" "take (length (log_blocks (take i L))) (out @ out') = take (length (log_blocks (take i L))) out"
    using assms(3,4) by (simp_all add: nth_append)
  then show ?thesis using assms(1,2) map_le_trans unfolding decision_event_def by fastforce
qed

lemma log_prefix_length: "map csd_leader out = map reference (log_blocks L) \<Longrightarrow> length (log_blocks (take i L)) \<le> length out"
proof -
  assume "map csd_leader out = map reference (log_blocks L)"
  then have "length out = length (log_blocks L)" by (metis length_map)
  also have "log_blocks L = log_blocks (take i L) @ log_blocks (drop i L)" by (metis append_take_drop_id log_blocks_simps(3))
  finally show ?thesis by simp
qed

lemma history_ok_mono:
  assumes "history_ok cr rng ctx D out L" and "D \<subseteq>\<^sub>m D'"
  shows "history_ok cr rng ctx D' out L"
proof -
  note h = assms(1) [unfolded history_ok_def]
  have "decision_event rng ctx D' out L i" if "i < length L" for i
    using decision_event_mono [OF _ assms(2) that, of rng ctx out "[]" "[]"] h that log_prefix_length [of out L i] by simp
  moreover have "commit_event cr ctx D' out k" if "k < length out" for k
    using commit_event_mono [OF _ assms(2) that, of cr ctx "[]"] h that by simp
  ultimately show ?thesis using h by (simp add: history_ok_def)
qed

section \<open>Growth of the view\<close>

definition grown :: "dag_state \<Rightarrow> dag_state \<Rightarrow> bool" where
  "grown d d' \<longleftrightarrow> dag_lookup d \<subseteq>\<^sub>m dag_lookup d' \<and> ds_scoring_subdag d' = ds_scoring_subdag d \<and> ds_last_commit d' = ds_last_commit d
     \<and> gc_round d' = gc_round d \<and> (\<forall>r. gc_round d < br_round r \<longrightarrow> (r \<in> committed_refs d' \<longleftrightarrow> r \<in> committed_refs d)) \<and> commits_ok d'"

lemma node_extends_grown:
  assumes "node_extends cr v d d' R" and "node_ok cr v d" and "commits_ok d"
  shows "grown d d'"
  using assms view_steps_grow [of cr v d d'] by (auto simp: node_extends_def grown_def)

lemma committed_as_grown:
  assumes "committed_as d out" and "grown d d'"
  shows "committed_as d' out" and "last_commit_round d' = last_commit_round d"
  using assms
  by (auto simp: committed_as_def grown_def last_commit_index_def last_commit_digest_def last_commit_timestamp_ms_def last_commit_round_def)

lemma core_ok_grown:
  assumes "core_ok cr v rng L c" and "grown (core_dag_state c) d'" and "manager_ok cr v (bm', d')"
    and "core_dag_state c' = d'" and "core_block_manager c' = bm'" and "core_context c' = core_context c"
    and "core_commit_observer c' = core_commit_observer c" and "core_leader_schedule c' = core_leader_schedule c"
    and "core_last_decided_leader c' = core_last_decided_leader c"
  shows "core_ok cr v rng L c'"
proof -
  let ?d = "core_dag_state c" and ?out = "co_sent (core_commit_observer c)"
  note ok = assms(1) [unfolded core_ok_def Let_def]
  have "committed_as d' ?out" "last_commit_round d' = last_commit_round ?d"
    using committed_as_grown [OF _ assms(2)] ok by blast+
  moreover have "history_ok cr rng (sbv_context v) (dag_lookup d') ?out L"
    using history_ok_mono ok assms(2) by (auto simp: grown_def)
  ultimately show ?thesis using ok assms(2-9) by (simp add: core_ok_def grown_def)
qed

lemma receive_keeps_ok:
  assumes "core_ok cr v rng L c" and "\<forall>b\<in>set bs. peer_block cr v b" and "core_accept_blocks now bs c = Some (c', accepted, missing)"
  shows "core_ok cr v rng L c'"
proof -
  let ?bm = "core_block_manager c" and ?d = "core_dag_state c"
  note ok = assms(1) [unfolded core_ok_def Let_def]
  from assms(3) obtain bm d acc miss where run: "try_accept_blocks now bs (?bm, ?d) = Some (bm, d, acc, miss)"
    and c': "c' = c\<lparr>core_block_manager := bm, core_dag_state := d,
             core_signals := fold sig_new_accepted_block accepted (core_signals c)\<rparr>"
    by (auto simp: core_accept_blocks_def panic_simps)
  have "\<forall>b\<in>set (sort_key vb_round bs). peer_block cr v b" using assms(2) by simp
  with accept_each_correct [of cr v ?bm ?d "sort_key vb_round bs" now "[]" "[]"] ok run obtain R where
    "manager_ok cr v (bm, d)" "node_extends cr v ?d d R"
    by (fastforce simp: try_accept_blocks_def try_accept_blocks_internal_def)
  moreover have "node_ok cr v ?d" using ok by (simp add: manager_ok_def)
  ultimately have "manager_ok cr v (bm, d)" "grown ?d d" using node_extends_grown ok by blast+
  then show ?thesis using core_ok_grown [OF assms(1), of d bm c'] c' by simp
qed

lemma flush_keeps_ok:
  assumes "core_ok cr v rng L c" and "flush (core_dag_state c) = Some d'"
  shows "core_ok cr v rng L (c\<lparr>core_dag_state := d'\<rparr>)"
proof -
  let ?d = "core_dag_state c"
  note ok = assms(1) [unfolded core_ok_def Let_def]
  have node: "node_ok cr v ?d" using ok by (simp add: manager_ok_def)
  note view = node_okD(1) [OF node]
  from flush_correct [OF view_okD(1) [OF view]] assms(2) have f: "dag_lookup d' = dag_lookup ?d" "gc_round d' = gc_round ?d"
    "ds_context d' = ds_context ?d" "\<And>r. gc_round ?d < br_round r \<Longrightarrow> map_of (ds_recent_blocks d') r = map_of (ds_recent_blocks ?d) r" by auto
  have "view_ok d'" using view_ok_flush [OF view assms(2)] by simp
  then have "manager_ok cr v (core_block_manager c, d')"
    using ok f by (simp add: manager_ok_def node_ok_def)
  moreover have "grown ?d d'"
    using f flush_last_commit [OF assms(2)] flush_scoring [OF assms(2)] commits_ok_flush [OF view _ assms(2)] ok
    by (simp add: grown_def committed_refs_def is_committed_def)
  ultimately show ?thesis using core_ok_grown [OF assms(1), of d' "core_block_manager c" "c\<lparr>core_dag_state := d'\<rparr>"] by simp
qed

text \<open>A validator adds its own block directly, when no suspended block waits for it.\<close>

lemma bm_inv_fresh:
  assumes "bm_inv Q gc K bm" and "r \<notin> missing_refs bm" and "r \<notin> suspended_refs bm"
  shows "bm_inv Q gc (insert r K) bm"
proof -
  note I = bm_inv_loopD [OF assms(1) [unfolded bm_inv_def]]
  show ?thesis
    unfolding bm_inv_def
  proof (rule bm_inv_loopI)
    show "suspended_ok Q gc (insert r K) r' s" if "map_of (bm_suspended bm) r' = Some s" for r' s
      using I(4) [OF that] by (auto simp: suspended_ok_def)
    show "set (bm_missing_blocks bm) = missing_refs bm - suspended_refs bm - insert r K" using I(7) assms(2) by auto
  qed (use I assms in auto)
qed

lemma own_block_keeps_ok:
  assumes "core_ok cr v rng L c" and "verified_by cr v b" and "accept_block now b (core_dag_state c) = Some d'"
    and "\<forall>a\<in>set (vb_ancestors b). gc_round (core_dag_state c) < br_round a \<longrightarrow> contains_block (core_dag_state c) a = Some True"
    and "reference b \<notin> missing_refs (core_block_manager c)" and "reference b \<notin> suspended_refs (core_block_manager c)"
  shows "core_ok cr v rng L (c\<lparr>core_dag_state := d'\<rparr>)"
proof -
  let ?d = "core_dag_state c"
  note ok = assms(1) [unfolded core_ok_def Let_def]
  have node: "node_ok cr v ?d" using ok by (simp add: manager_ok_def)
  from assms(2) obtain sb ser rej where ver: "verify_and_vote cr v sb ser = Some (Inr (b, rej))" by (auto simp: verified_by_def)
  have step: "view_step cr v ?d d'" by (rule view_step.accept [OF ver assms(4,3)])
  note g = view_step_grows [OF step node]
  have author: "vb_author b < committee_size (ds_committee ?d)"
    using verified_links(3) [OF node_okD(3) [OF node] ver] node_okD(2) [OF node] by simp
  note wf = view_okD(1) [OF node_okD(1) [OF node]]
  note acc = accept_block_lookup [OF wf assms(3) author]
  have gc: "gc_round d' = gc_round ?d" using acc by (simp add: gc_round_def last_commit_round_def calculate_gc_round_def)
  have refs: "known_refs d' = insert (reference b) (known_refs ?d)" using acc by auto
  have "bm_inv (peer_block cr v) (gc_round ?d) (known_refs d') (core_block_manager c)"
    unfolding refs using ok assms(5,6) by (intro bm_inv_fresh) (auto simp: manager_ok_def)
  then have "manager_ok cr v (core_block_manager c, d')" using ok g gc by (simp add: manager_ok_def)
  moreover have "grown ?d d'"
    using g acc gc accept_block_committed [OF wf assms(3) author] commits_ok_accept [OF node_okD(1) [OF node] _ assms(3) author] ok
    by (simp add: grown_def)
  ultimately show ?thesis using core_ok_grown [OF assms(1), of d' "core_block_manager c" "c\<lparr>core_dag_state := d'\<rparr>"] by simp
qed

section \<open>Updating the schedule\<close>

lemma scoring_only:
  assumes "d' = d\<lparr>ds_scoring_subdag := ss, ds_commit_info_to_write := ci\<rparr>"
  shows "dag_lookup d' = dag_lookup d" and "gc_round d' = gc_round d" and "committed_refs d' = committed_refs d"
    and "ds_last_commit d' = ds_last_commit d" and "ds_context d' = ds_context d" and "view_ok d' = view_ok d"
    and "last_commit_round d' = last_commit_round d"
proof -
  show look: "dag_lookup d' = dag_lookup d" using assms by (simp add: dag_lookup_def fun_eq_iff cong: option.case_cong)
  show gc: "gc_round d' = gc_round d" and "last_commit_round d' = last_commit_round d"
    using assms by (simp_all add: gc_round_def last_commit_round_def calculate_gc_round_def)
  show "committed_refs d' = committed_refs d" using assms by (simp add: committed_refs_def is_committed_def)
  show "ds_last_commit d' = ds_last_commit d" "ds_context d' = ds_context d" using assms by simp_all
  have "causal d' = causal d" using look by (simp add: causal_def)
  then show "view_ok d' = view_ok d"
    using assms look gc by (simp add: view_ok_def dag_closed_def dag_wf_def recent_wf_def cache_wf_def)
qed

lemma update_schedule_refresh:
  assumes "update_leader_schedule_v2 rng ls d = Some (ls', d')"
    and "scored_subdags_count (ds_scoring_subdag d) = Some (num_commits_per_schedule ls)"
  shows "refresh rng (ds_scoring_subdag d, ls) = Some (ds_scoring_subdag d', ls')"
    and "\<exists>ss ci. d' = d\<lparr>ds_scoring_subdag := ss, ds_commit_info_to_write := ci\<rparr>"
proof -
  from assms(1) obtain scores range lc table where
    u: "calculate_distributed_vote_scores (ds_scoring_subdag d) = Some scores" "ss_commit_range (ds_scoring_subdag d) = Some range"
      "LeaderSwapTable_new rng (ls_context ls) (range_end range) scores = Some table" "update_leader_swap_table table ls = Some ls'"
    and d': "d' = d\<lparr>ds_scoring_subdag := ss_clear (ds_scoring_subdag d), ds_commit_info_to_write := ds_commit_info_to_write d @
       [(tc_reference lc, \<lparr>ci_committed_rounds = ds_last_committed_rounds d, ci_reputation_scores = scores\<rparr>)]\<rparr>"
    by (auto simp: update_leader_schedule_v2_def calculate_scoring_subdag_scores_def scoring_subdag_commit_range_def
        add_commit_info_def clear_scoring_subdag_def panic_simps)
  show "refresh rng (ds_scoring_subdag d, ls) = Some (ds_scoring_subdag d', ls')"
    using u d' assms(2) by (simp add: refresh_def rassert_def)
  show "\<exists>ss ci. d' = d\<lparr>ds_scoring_subdag := ss, ds_commit_info_to_write := ci\<rparr>" using d' by blast
qed

definition same_node :: "'p core \<Rightarrow> 'p core \<Rightarrow> bool" where
  "same_node c c' \<longleftrightarrow> core_context c' = core_context c \<and> core_block_manager c' = core_block_manager c
     \<and> core_last_decided_leader c' = core_last_decided_leader c \<and> core_commit_observer c' = core_commit_observer c"

lemma refresh_schedule_spec:
  assumes "refresh_schedule api rng c = Some (c', n)"
  shows "refresh rng (ds_scoring_subdag (core_dag_state c), core_leader_schedule c)
       = Some (ds_scoring_subdag (core_dag_state c'), core_leader_schedule c')
     \<and> (\<exists>ss ci. core_dag_state c' = (core_dag_state c)\<lparr>ds_scoring_subdag := ss, ds_commit_info_to_write := ci\<rparr>)
     \<and> (\<exists>k. scored_subdags_count (ds_scoring_subdag (core_dag_state c')) = Some k
          \<and> k + n = num_commits_per_schedule (core_leader_schedule c')) \<and> 0 < n \<and> same_node c c'"
proof -
  let ?d = "core_dag_state c" and ?ls = "core_leader_schedule c"
  have until: "\<exists>k. scored_subdags_count (ds_scoring_subdag d) = Some k \<and> k + m = num_commits_per_schedule ls"
    if "commits_until_leader_schedule_update ls d = Some m" for ls d m
    using that by (auto simp: commits_until_leader_schedule_update_def scoring_subdags_count_def panic_simps checked_sub_def split: if_splits)
  from assms obtain m where m: "commits_until_leader_schedule_update ?ls ?d = Some m" and n: "0 < n"
    by (auto simp: refresh_schedule_def panic_simps)
  show ?thesis
  proof (cases "m = 0")
    case True
    from assms m True obtain ls d where u: "update_leader_schedule_v2 rng ?ls ?d = Some (ls, d)"
      "commits_until_leader_schedule_update ls d = Some n" "core_leader_schedule c' = ls" "core_dag_state c' = d" "same_node c c'"
      by (auto simp: refresh_schedule_def panic_simps Let_def same_node_def)
    have "scored_subdags_count (ds_scoring_subdag ?d) = Some (num_commits_per_schedule ?ls)" using until [OF m] True by auto
    from update_schedule_refresh [OF u(1) this] u(3-5) until [OF u(2)] n show ?thesis by simp
  next
    case False
    then have c': "c' = c" "n = m" using assms m by (auto simp: refresh_schedule_def panic_simps)
    from until [OF m] obtain k where k: "scored_subdags_count (ds_scoring_subdag ?d) = Some k" "k + m = num_commits_per_schedule ?ls" by blast
    then have "refresh rng (ds_scoring_subdag ?d, ?ls) = Some (ds_scoring_subdag ?d, ?ls)" using False by (simp add: refresh_def rassert_def)
    moreover have "\<exists>ss ci. ?d = ?d\<lparr>ds_scoring_subdag := ss, ds_commit_info_to_write := ci\<rparr>"
      by (intro exI [of _ "ds_scoring_subdag ?d"] exI [of _ "ds_commit_info_to_write ?d"]) simp
    ultimately show ?thesis using k c' n by (simp add: same_node_def)
  qed
qed

text \<open>After the update the schedule is the one to decide with, and the window has room for \<open>n\<close> commits.\<close>

definition ready_window :: "rng_lib \<Rightarrow> consensus_context \<Rightarrow> committed_sub_dag list \<Rightarrow> scoring_subdag \<Rightarrow> leader_schedule \<Rightarrow> nat \<Rightarrow> bool" where
  "ready_window rng ctx out ss ls n \<longleftrightarrow> (\<exists>st m. replay rng ctx out = Some st \<and> refresh rng st = Some (ss, ls)
     \<and> window (length out) m ss \<and> m + n = num_commits_per_schedule ls \<and> 0 < n)"

lemma refresh_ready:
  assumes "schedule_ok rng ctx out ss ls" and "refresh rng (ss, ls) = Some (ss1, ls1)"
    and "\<forall>k<length out. cr_index (csd_commit_ref (out ! k)) = k + 1" and "length out < u32_max"
  shows "\<exists>st m. replay rng ctx out = Some st \<and> refresh rng st = Some (ss1, ls1) \<and> window (length out) m ss1"
proof -
  from assms(1) obtain s0 l0 where st: "replay rng ctx out = Some (s0, l0)" "(s0, l0) = (ss, ls) \<or> refresh rng (s0, l0) = Some (ss, ls)"
    by (auto simp: schedule_ok_def)
  from replay_window [OF st(1)] assms(3,4) obtain m0 where m0: "window (length out) m0 s0" by auto
  have pos: "0 < num_commits_per_schedule l0" using replay_context [OF st(1)] by (simp add: CONSENSUS_COMMITS_PER_SCHEDULE_def)
  have "refresh rng (s0, l0) = Some (ss1, ls1)"
  proof (cases "(s0, l0) = (ss, ls)")
    case False
    then have r: "refresh rng (s0, l0) = Some (ss, ls)" using st(2) by blast
    from refresh_window [OF m0 r pos] obtain m where "m < num_commits_per_schedule ls" "window (length out) m ss"
      using refresh_context [OF r] by auto
    then have "refresh rng (ss, ls) = Some (ss, ls)" by (intro refresh_inside)
    then show ?thesis using r assms(2) by simp
  qed (use assms(2) in simp)
  moreover from refresh_window [OF m0 this pos] obtain m where "window (length out) m ss1" by blast
  ultimately show ?thesis using st(1) by blast
qed

lemma refresh_schedule_keeps_ok:
  assumes "core_ok cr v rng L c" and "refresh_schedule api rng c = Some (c', n)"
  shows "core_ok cr v rng L c'"
    and "ready_window rng (sbv_context v) (co_sent (core_commit_observer c')) (ds_scoring_subdag (core_dag_state c')) (core_leader_schedule c') n"
proof -
  let ?d = "core_dag_state c" and ?d' = "core_dag_state c'" and ?out = "co_sent (core_commit_observer c)"
  note ok = assms(1) [unfolded core_ok_def Let_def] and spec = refresh_schedule_spec [OF assms(2)]
  from spec obtain ss ci where d': "?d' = ?d\<lparr>ds_scoring_subdag := ss, ds_commit_info_to_write := ci\<rparr>" by blast
  note same = scoring_only [OF d']
  have h: "\<forall>k<length ?out. cr_index (csd_commit_ref (?out ! k)) = k + 1" "length ?out < u32_max" using ok by (simp_all add: history_ok_def)
  from refresh_ready [OF _ _ h] ok spec obtain st m where
    st: "replay rng (sbv_context v) ?out = Some st" "refresh rng st = Some (ds_scoring_subdag ?d', core_leader_schedule c')"
      "window (length ?out) m (ds_scoring_subdag ?d')" by blast
  have out: "co_sent (core_commit_observer c') = ?out" using spec by (simp add: same_node_def)
  have "m + n = num_commits_per_schedule (core_leader_schedule c')" using window_count [OF st(3)] spec by auto
  then show "ready_window rng (sbv_context v) (co_sent (core_commit_observer c')) (ds_scoring_subdag ?d') (core_leader_schedule c') n"
    unfolding ready_window_def out using st spec by blast
  have "manager_ok cr v (core_block_manager c', ?d')"
    using ok same spec by (simp add: manager_ok_def node_ok_def same_node_def)
  moreover have "commits_ok ?d'" using ok same by (simp add: commits_ok_def)
  moreover have "committed_as ?d' ?out"
    using ok same by (simp add: committed_as_def last_commit_index_def last_commit_digest_def last_commit_timestamp_ms_def)
  moreover have "schedule_ok rng (sbv_context v) ?out (ds_scoring_subdag ?d') (core_leader_schedule c')"
    using st by (auto simp: schedule_ok_def)
  ultimately show "core_ok cr v rng L c'"
    using ok same spec out by (simp add: core_ok_def same_node_def)
qed

section \<open>Deciding and committing\<close>

text \<open>Decided leaders of consecutive rounds, with the blocks of the view.\<close>

definition decided_from :: "dag_state \<Rightarrow> round \<Rightarrow> decision_log \<Rightarrow> bool" where
  "decided_from d r M \<longleftrightarrow> (\<forall>i<length M. slot_round (fst (M ! i)) = r + i
     \<and> (\<forall>b. snd (M ! i) = Some b \<longrightarrow> vb_round b = r + i \<and> dag_lookup d (reference b) = Some b))"

lemma decided_from_Cons: "decided_from d r (e # M) \<longleftrightarrow> slot_round (fst e) = r
    \<and> (\<forall>b. snd e = Some b \<longrightarrow> vb_round b = r \<and> dag_lookup d (reference b) = Some b) \<and> decided_from d (Suc r) M"
  by (auto simp: decided_from_def less_Suc_eq_0_disj)

lemma decided_blocks:
  assumes "decided_from d r M"
  shows "\<forall>b\<in>set (log_blocks M). dag_lookup d (reference b) = Some b \<and> r \<le> vb_round b \<and> vb_round b < r + length M"
    and "sorted_wrt (\<lambda>b b'. vb_round b < vb_round b') (log_blocks M)"
proof -
  have "(\<forall>b\<in>set (log_blocks M). dag_lookup d (reference b) = Some b \<and> r \<le> vb_round b \<and> vb_round b < r + length M)
      \<and> sorted_wrt (\<lambda>b b'. vb_round b < vb_round b') (log_blocks M)"
    using assms
  proof (induction M arbitrary: r)
    case (Cons e M)
    have "decided_from d (Suc r) M" using Cons.prems by (simp add: decided_from_Cons)
    note IH = Cons.IH [OF this]
    show ?case
    proof (cases "snd e")
      case None
      then show ?thesis using IH by fastforce
    next
      case (Some b)
      then have "vb_round b = r" "dag_lookup d (reference b) = Some b" using Cons.prems by (simp_all add: decided_from_Cons)
      then show ?thesis using IH Some by fastforce
    qed
  qed simp
  then show "\<forall>b\<in>set (log_blocks M). dag_lookup d (reference b) = Some b \<and> r \<le> vb_round b \<and> vb_round b < r + length M"
    "sorted_wrt (\<lambda>b b'. vb_round b < vb_round b') (log_blocks M)" by blast+
qed

lemma try_decide_log:
  assumes "view_ok d" and "num_leaders_per_round (protocol_config (ds_context d)) = Some 1"
    and "last_commit_round d \<le> slot_round ld" and "try_decide rng (core_committer (ds_context d) ls) d ld = Some ds"
  shows "\<exists>run. run_ok d (leader_slot rng ls) run
     \<and> (\<forall>i<length ds. \<exists>s. run (Suc (slot_round ld) + i) = Some s
          \<and> ((\<exists>b. s = Commit b \<and> outcome (ds ! i) = (leader_slot rng ls (Suc (slot_round ld) + i), Some b))
             \<or> (\<exists>sl. s = Skip sl \<and> outcome (ds ! i) = (leader_slot rng ls (Suc (slot_round ld) + i), None))))
     \<and> decided_from d (Suc (slot_round ld)) (map outcome ds)"
proof -
  from try_decide_run [OF assms(1-3) assms(4) [unfolded core_committer_pipelined [OF assms(2)]]] obtain run where
    run: "run_ok d (leader_slot rng ls) run"
      "\<forall>i<length ds. \<exists>st direct. run (Suc (slot_round ld) + i) = Some st \<and> into_decided_leader direct st = Some (ds ! i)" by blast
  have entry: "\<exists>s. run (Suc (slot_round ld) + i) = Some s
          \<and> ((\<exists>b. s = Commit b \<and> outcome (ds ! i) = (leader_slot rng ls (Suc (slot_round ld) + i), Some b))
             \<or> (\<exists>sl. s = Skip sl \<and> outcome (ds ! i) = (leader_slot rng ls (Suc (slot_round ld) + i), None)))"
    if "i < length ds" for i
  proof -
    from run(2) that obtain st direct where st: "run (Suc (slot_round ld) + i) = Some st" "into_decided_leader direct st = Some (ds ! i)" by blast
    from decided_outcome [OF run(1) this] st(1) show ?thesis by (intro exI [of _ st]) simp
  qed
  have "slot_round (fst (outcome (ds ! i))) = Suc (slot_round ld) + i
      \<and> (\<forall>b. snd (outcome (ds ! i)) = Some b \<longrightarrow> vb_round b = Suc (slot_round ld) + i \<and> dag_lookup d (reference b) = Some b)"
    if i: "i < length ds" for i
  proof -
    let ?r = "Suc (slot_round ld) + i"
    from entry [OF i] obtain s where s: "run ?r = Some s" and
      o: "(\<exists>b. s = Commit b \<and> outcome (ds ! i) = (leader_slot rng ls ?r, Some b)) \<or> (\<exists>sl. s = Skip sl \<and> outcome (ds ! i) = (leader_slot rng ls ?r, None))" by blast
    have r: "slot_round (leader_slot rng ls ?r) = ?r" using run(1) s by (auto simp: run_ok_def)
    show ?thesis using o r s run_ok_commit(1) [OF run(1), of ?r] at_slot_round by (fastforce simp: at_slot_def)
  qed
  then have "decided_from d (Suc (slot_round ld)) (map outcome ds)" by (simp add: decided_from_def)
  then show ?thesis using run(1) entry by blast
qed

end
