(* ===== verification/Core_Agreement.thy ===== *)
theory Core_Agreement
  imports Core_Steps
begin

text \<open>
  The commit loop keeps the invariant of a node, and two nodes that satisfy it have sent sequences of
  committed sub-dags to their finalizers of which one is a prefix of the other.
\<close>

section \<open>A pass of the commit loop\<close>

text \<open>The decisions of a batch extend the history.\<close>

lemma batch_history:
  assumes "history_ok cr rng ctx D out L" and "ready_window rng ctx out ss ls n"
    and "view_ok d" and "ds_context d = ctx" and "dag_lookup d = D" and "run_ok d (leader_slot rng ls) run" and "length M \<le> n"
    and "\<And>j. j < length M \<Longrightarrow> \<exists>s. run (Suc (length L) + j) = Some s
          \<and> ((\<exists>b. s = Commit b \<and> M ! j = (leader_slot rng ls (Suc (length L) + j), Some b))
             \<or> (\<exists>sl. s = Skip sl \<and> M ! j = (leader_slot rng ls (Suc (length L) + j), None)))"
    and "add_subdags sds ss = Some ss'" and "map csd_leader sds = map reference (log_blocks M)"
    and "\<forall>k<length sds. cr_index (csd_commit_ref (sds ! k)) = length out + k + 1"
    and "\<forall>k<length sds. commit_event cr ctx D (out @ sds) (length out + k)" and "length out + length sds < u32_max"
  shows "history_ok cr rng ctx D (out @ sds) (L @ M)" and "schedule_ok rng ctx (out @ sds) ss' ls"
proof -
  note h = assms(1) [unfolded history_ok_def]
  from assms(2) obtain st m where st: "replay rng ctx out = Some st" "refresh rng st = Some (ss, ls)" "window (length out) m ss"
    "m + n = num_commits_per_schedule ls" by (auto simp: ready_window_def)
  have len: "length sds = length (log_blocks M)" "length out = length (log_blocks L)"
    using assms(10) h by (metis length_map)+
  have short: "length (log_blocks K) \<le> length K" for K :: decision_log
    by (induction K) (auto split: option.split)
  have room: "m + length sds \<le> num_commits_per_schedule ls" using short [of M] len(1) st(4) assms(7) by simp
  have idx: "j < length sds \<Longrightarrow> cr_index (csd_commit_ref (sds ! j)) = length out + j + 1" for j using assms(11) by simp
  have batch: "\<exists>ssj stj. add_subdags (take j sds) ss = Some ssj \<and> replay rng ctx (out @ take j sds) = Some stj
      \<and> (0 < j \<longrightarrow> stj = (ssj, ls)) \<and> (m + j < num_commits_per_schedule ls \<longrightarrow> refresh rng stj = Some (ssj, ls))" if "j \<le> length sds" for j
    using replay_batch [OF st(1-3) room assms(9) _ assms(13) that] idx by blast
  from batch [of "length sds"] assms(9) st(1,2) show "schedule_ok rng ctx (out @ sds) ss' ls"
    by (cases "sds = []") (auto simp: schedule_ok_def add_subdags_def)
  have new: "decision_event rng ctx D (out @ sds) (L @ M) (length L + j)" if j: "j < length M" for j
  proof -
    let ?p = "length (log_blocks (take j M))"
    have p: "?p \<le> j" "?p \<le> length sds"
      using short [of "take j M"] log_prefix_length [OF assms(10), of j] j by simp_all
    from batch [OF p(2)] obtain ssp stp where b: "replay rng ctx (out @ take ?p sds) = Some stp"
      "m + ?p < num_commits_per_schedule ls \<longrightarrow> refresh rng stp = Some (ssp, ls)" by blast
    have "m + ?p < num_commits_per_schedule ls" using p(1) j assms(7) st(4) by simp
    moreover have "take (length (log_blocks (take (length L + j) (L @ M)))) (out @ sds) = out @ take ?p sds" using len(2) by simp
    moreover have "(L @ M) ! (length L + j) = M ! j" by simp
    ultimately show ?thesis
      using assms(3-6) assms(8) [of j] b j unfolding decision_event_def
      by (intro exI [of _ d] exI [of _ stp] exI [of _ ssp] exI [of _ ls] exI [of _ run]) auto
  qed
  have old: "decision_event rng ctx D (out @ sds) (L @ M) i" if "i < length L" for i
    using decision_event_mono [OF _ map_le_refl that] h that log_prefix_length [of out L i] by blast
  have "decision_event rng ctx D (out @ sds) (L @ M) i" if "i < length (L @ M)" for i
    using old new [of "i - length L"] that by (cases "i < length L") auto
  moreover have "commit_event cr ctx D (out @ sds) k" if "k < length (out @ sds)" for k
    using commit_event_mono [OF _ map_le_refl, of cr ctx D out k sds] h assms(12) [rule_format, of "k - length out"] that
    by (cases "k < length out") auto
  moreover have "cr_index (csd_commit_ref ((out @ sds) ! k)) = k + 1" if "k < length (out @ sds)" for k
    using h assms(11) [rule_format, of "k - length out"] that by (cases "k < length out") (auto simp: nth_append)
  moreover have "map csd_leader (out @ sds) = map reference (log_blocks (L @ M))" using h assms(10) by simp
  ultimately show "history_ok cr rng ctx D (out @ sds) (L @ M)" using assms(13) by (simp add: history_ok_def)
qed

lemma bm_inv_gc:
  assumes "bm_inv Q gc K bm" and "gc \<le> gc'"
  shows "bm_inv Q gc' K bm"
proof -
  note I = bm_inv_loopD [OF assms(1) [unfolded bm_inv_def]]
  have "suspended_ok Q gc' K r s" if "map_of (bm_suspended bm) r = Some s" for r s
    using I(4) [OF that] assms(2) by (auto simp: suspended_ok_def)
  then show ?thesis unfolding bm_inv_def using I by (intro bm_inv_loopI) auto
qed

text \<open>A run that justifies the decisions of a batch in the current view.\<close>

definition batch_decided :: "rng_lib \<Rightarrow> leader_schedule \<Rightarrow> dag_state \<Rightarrow> nat \<Rightarrow> decision_log \<Rightarrow> bool" where
  "batch_decided rng ls d k M \<longleftrightarrow> decided_from d (Suc k) M \<and> (\<exists>run. run_ok d (leader_slot rng ls) run
     \<and> (\<forall>j<length M. \<exists>s. run (Suc k + j) = Some s
          \<and> ((\<exists>b. s = Commit b \<and> M ! j = (leader_slot rng ls (Suc k + j), Some b))
             \<or> (\<exists>sl. s = Skip sl \<and> M ! j = (leader_slot rng ls (Suc k + j), None)))))"

lemma co_handle_commit_spec:
  assumes "co_handle_commit cr now leaders True (co, d) = Some (Inr (co', d', sds))"
    and "\<And>d1 sub. for_each (commit_leader cr (co_interpreter co) now) leaders (d, []) = Some (d1, sub) \<Longrightarrow> \<forall>sd\<in>set sub. csd_decided_with_local_blocks sd"
  shows "\<exists>d1 ss. for_each (commit_leader cr (co_interpreter co) now) leaders (d, []) = Some (d1, sds)
     \<and> add_subdags sds (ds_scoring_subdag d1) = Some ss \<and> d' = d1\<lparr>ds_scoring_subdag := ss\<rparr>
     \<and> co' = co\<lparr>co_sent := co_sent co @ sds\<rparr>"
proof -
  have eq: "handle_commit cr (co_interpreter co) now leaders d = for_each (commit_leader cr (co_interpreter co) now) leaders (d, [])"
    by (simp add: handle_commit_def)
  from assms(1) obtain d1 sub ss where 1: "for_each (commit_leader cr (co_interpreter co) now) leaders (d, []) = Some (d1, sub)"
    "sds = map (\<lambda>s. s\<lparr>csd_decided_with_local_blocks := True\<rparr>) sub" "add_subdags sds (ds_scoring_subdag d1) = Some ss"
    "d' = d1\<lparr>ds_scoring_subdag := ss\<rparr>" "co' = co\<lparr>co_sent := co_sent co @ sds\<rparr>"
    by (auto simp: co_handle_commit_def eq add_scoring_subdags_def panic_simps Let_def split: if_splits)
  have "s\<lparr>csd_decided_with_local_blocks := True\<rparr> = s" if "s \<in> set sub" for s using assms(2) [OF 1(1)] that by simp
  then have "sds = sub" unfolding 1(2) by (intro map_idI) simp
  then show ?thesis using 1 by blast
qed

lemma pass_commits:
  assumes "core_ok cr v rng L c" and "\<forall>x. \<exists>bs. bcs_commit cr x = Inr bs"
    and "ready_window rng (sbv_context v) (co_sent (core_commit_observer c)) (ds_scoring_subdag (core_dag_state c)) (core_leader_schedule c) n"
    and "batch_decided rng (core_leader_schedule c) (core_dag_state c) (length L) M" and "length M \<le> n"
    and "co_handle_commit cr now (log_blocks M) True (core_commit_observer c, core_dag_state c) = Some (Inr (co', d', sds))"
    and "length (co_sent co') < u32_max"
  shows "manager_ok cr v (core_block_manager c, d') \<and> commits_ok d' \<and> co_interpreter co' = Linearizer_new (sbv_context v)
     \<and> committed_as d' (co_sent co') \<and> schedule_ok rng (sbv_context v) (co_sent co') (ds_scoring_subdag d') (core_leader_schedule c)
     \<and> last_commit_round d' \<le> length L + length M \<and> history_ok cr rng (sbv_context v) (dag_lookup d') (co_sent co') (L @ M)"
proof -
  let ?d = "core_dag_state c" and ?out = "co_sent (core_commit_observer c)" and ?ls = "core_leader_schedule c" and ?ctx = "sbv_context v"
  note ok = assms(1) [unfolded core_ok_def Let_def]
  have node: "view_ok ?d" "ds_context ?d = ?ctx" using ok by (auto simp: manager_ok_def node_ok_def)
  have lin: "co_interpreter (core_commit_observer c) = Linearizer_new ?ctx" using ok by blast
  note M = decided_blocks [of ?d "Suc (length L)" M]
  have from_M: "decided_from ?d (Suc (length L)) M" using assms(4) by (simp add: batch_decided_def)
  have leaders: "\<forall>l\<in>set (log_blocks M). dag_lookup ?d (reference l) = Some l \<and> last_commit_round ?d < vb_round l"
    using M(1) [OF from_M] ok by fastforce
  have run: "\<exists>sds'. sub = sds' \<and> batch_committed cr ?ctx ?out ?d (log_blocks M) d1 sds'
      \<and> last_commit_round d1 = (if log_blocks M = [] then last_commit_round ?d else vb_round (last (log_blocks M)))"
    if "for_each (commit_leader cr (co_interpreter (core_commit_observer c)) now) (log_blocks M) (?d, []) = Some (d1, sub)" for d1 sub
    using commit_leaders_run [OF node(1) _ node(2) _ leaders M(2) [OF from_M] assms(2) that [unfolded lin]] ok by auto
  from co_handle_commit_spec [OF assms(6)] run obtain d1 ss where
    1: "for_each (commit_leader cr (co_interpreter (core_commit_observer c)) now) (log_blocks M) (?d, []) = Some (d1, sds)"
      "add_subdags sds (ds_scoring_subdag d1) = Some ss" "d' = d1\<lparr>ds_scoring_subdag := ss\<rparr>"
      "co' = (core_commit_observer c)\<lparr>co_sent := ?out @ sds\<rparr>" by (fastforce simp: batch_committed_def)
  from run [OF 1(1)] have b: "batch_committed cr ?ctx ?out ?d (log_blocks M) d1 sds"
    and round: "last_commit_round d1 = (if log_blocks M = [] then last_commit_round ?d else vb_round (last (log_blocks M)))" by auto
  note b' = b [unfolded batch_committed_def]
  have d': "d' = d1\<lparr>ds_scoring_subdag := ss, ds_commit_info_to_write := ds_commit_info_to_write d1\<rparr>" using 1(3) by simp
  note same = scoring_only [OF d']
  have sent: "co_sent co' = ?out @ sds" using 1(4) by simp
  from assms(4) obtain run where run: "run_ok ?d (leader_slot rng ?ls) run"
    "\<And>j. j < length M \<Longrightarrow> \<exists>s. run (Suc (length L) + j) = Some s
          \<and> ((\<exists>b. s = Commit b \<and> M ! j = (leader_slot rng ?ls (Suc (length L) + j), Some b))
             \<or> (\<exists>sl. s = Skip sl \<and> M ! j = (leader_slot rng ?ls (Suc (length L) + j), None)))"
    unfolding batch_decided_def by blast
  have hist: "history_ok cr rng ?ctx (dag_lookup ?d) (?out @ sds) (L @ M)" "schedule_ok rng ?ctx (?out @ sds) ss ?ls"
    by (rule batch_history [where cr = cr, OF _ assms(3) node refl run(1) assms(5) run(2)]; use ok b' 1(2) assms(7) sent in simp)+
  have gc: "gc_round ?d \<le> gc_round d'" using b' same by simp
  have "bm_inv (peer_block cr v) (gc_round d') (known_refs d') (core_block_manager c)"
    using bm_inv_gc [OF _ gc] ok b' same by (simp add: manager_ok_def)
  then have "manager_ok cr v (core_block_manager c, d')" using ok b' same by (simp add: manager_ok_def node_ok_def)
  moreover have "commits_ok d'" using b' same(1-3) scoring_only [OF d'] unfolding commits_ok_def by metis
  moreover have "committed_as d' (?out @ sds)"
    using b' same by (simp add: committed_as_def last_commit_index_def last_commit_digest_def last_commit_timestamp_ms_def)
  moreover have "last_commit_round d' \<le> length L + length M"
    using M(1) [OF from_M] ok round same last_in_set [of "log_blocks M"] by fastforce
  moreover have "ds_scoring_subdag d' = ss" using 1(3) by simp
  ultimately show ?thesis using hist same b' sent lin 1(4) by simp
qed

lemma accept_no_blocks: "core_accept_committed_blocks now [] c = Some (c', accepted) \<Longrightarrow> c' = c"
  by (auto simp: core_accept_committed_blocks_def try_accept_committed_blocks_def try_accept_blocks_internal_def panic_simps)

lemma decide_next_local:
  assumes "decide_next rng now n [] c = Some (c2, rest, ds, local)" and "core_ok cr v rng L c"
    and "num_leaders_per_round (protocol_config (sbv_context v)) = Some 1"
  shows "c2 = c \<and> rest = [] \<and> local \<and> length ds \<le> n
     \<and> batch_decided rng (core_leader_schedule c) (core_dag_state c) (length L) (map outcome ds)"
proof -
  let ?d = "core_dag_state c" and ?ls = "core_leader_schedule c"
  note ok = assms(2) [unfolded core_ok_def Let_def]
  have ctx: "view_ok ?d" "ds_context ?d = sbv_context v" using ok by (auto simp: manager_ok_def node_ok_def)
  from assms(1) obtain c1 acc ds0 where run: "core_accept_committed_blocks now [] c = Some (c1, acc)"
    "try_decide rng (core_committer (core_context c1) (core_leader_schedule c1)) (core_dag_state c1) (core_last_decided_leader c1) = Some ds0"
    "c2 = c1" "rest = []" "local" "ds = (if length ds0 \<ge> n then take n ds0 else ds0)"
    by (auto simp: decide_next_def try_select_certified_leaders_def panic_simps split: if_splits)
  have c1: "c1 = c" by (rule accept_no_blocks [OF run(1)])
  have ld: "slot_round (core_last_decided_leader c) = length L" and ctx': "core_context c = ds_context ?d" using ok ctx by simp_all
  have one: "num_leaders_per_round (protocol_config (ds_context ?d)) = Some 1" using assms(3) ctx by simp
  have le: "last_commit_round ?d \<le> slot_round (core_last_decided_leader c)" using ok by simp
  from try_decide_log [OF ctx(1) one le run(2) [unfolded c1 ctx']] obtain run0 where
    r: "run_ok ?d (leader_slot rng ?ls) run0"
      "\<forall>i<length ds0. \<exists>s. run0 (Suc (length L) + i) = Some s
          \<and> ((\<exists>b. s = Commit b \<and> outcome (ds0 ! i) = (leader_slot rng ?ls (Suc (length L) + i), Some b))
             \<or> (\<exists>sl. s = Skip sl \<and> outcome (ds0 ! i) = (leader_slot rng ?ls (Suc (length L) + i), None)))"
      "decided_from ?d (Suc (length L)) (map outcome ds0)" unfolding ld by blast
  have len: "length ds \<le> length ds0" "length ds \<le> n" and nth: "\<And>i. i < length ds \<Longrightarrow> ds ! i = ds0 ! i" using run(6) by auto
  have "decided_from ?d (Suc (length L)) (map outcome ds)" 
    using r(3) less_le_trans [OF _ len(1)] nth unfolding decided_from_def by (metis length_map nth_map)
  moreover have "\<forall>j<length (map outcome ds). \<exists>s. run0 (Suc (length L) + j) = Some s
          \<and> ((\<exists>b. s = Commit b \<and> map outcome ds ! j = (leader_slot rng ?ls (Suc (length L) + j), Some b))
             \<or> (\<exists>sl. s = Skip sl \<and> map outcome ds ! j = (leader_slot rng ?ls (Suc (length L) + j), None)))"
    using r(2) len(1) nth by simp
  ultimately show ?thesis using run(3-5) c1 len(2) r(1) unfolding batch_decided_def by blast
qed

lemma sequenced_leaders: "List.map_filter into_committed_block ds = log_blocks (map outcome ds)"
  by (induction ds) (auto simp: map_filter_simps outcome_def split: option.split)

lemma core_ok_cong:
  assumes "core_ok cr v rng L c" and "core_context c' = core_context c" and "core_dag_state c' = core_dag_state c"
    and "core_block_manager c' = core_block_manager c" and "core_commit_observer c' = core_commit_observer c"
    and "core_leader_schedule c' = core_leader_schedule c" and "core_last_decided_leader c' = core_last_decided_leader c"
  shows "core_ok cr v rng L c'"
  using assms by (simp add: core_ok_def)

lemma pass_skips:
  assumes "core_ok cr v rng L c" and "slot_round s = length L + length M" and "log_blocks M = []"
    and "ready_window rng (sbv_context v) (co_sent (core_commit_observer c)) (ds_scoring_subdag (core_dag_state c)) (core_leader_schedule c) n"
    and "batch_decided rng (core_leader_schedule c) (core_dag_state c) (length L) M" and "length M \<le> n"
  shows "core_ok cr v rng (L @ M) (c\<lparr>core_last_decided_leader := s\<rparr>)"
proof -
  let ?d = "core_dag_state c" and ?ls = "core_leader_schedule c" and ?out = "co_sent (core_commit_observer c)" and ?ctx = "sbv_context v"
  note ok = assms(1) [unfolded core_ok_def Let_def]
  have node: "view_ok ?d" "ds_context ?d = ?ctx" using ok by (auto simp: manager_ok_def node_ok_def)
  from assms(5) obtain run where run: "run_ok ?d (leader_slot rng ?ls) run"
    "\<And>j. j < length M \<Longrightarrow> \<exists>s. run (Suc (length L) + j) = Some s
          \<and> ((\<exists>b. s = Commit b \<and> M ! j = (leader_slot rng ?ls (Suc (length L) + j), Some b))
             \<or> (\<exists>sl. s = Skip sl \<and> M ! j = (leader_slot rng ?ls (Suc (length L) + j), None)))"
    unfolding batch_decided_def by blast
  have "history_ok cr rng ?ctx (dag_lookup ?d) (?out @ []) (L @ M)"
    by (rule batch_history [OF _ assms(4) node refl run(1) assms(6) run(2)])
       (use ok assms(3) in \<open>simp_all add: add_subdags_def history_ok_def\<close>)
  then show ?thesis using ok assms(2) by (simp add: core_ok_def)
qed

lemma pass_handled:
  assumes "core_ok cr v rng L c" and "\<forall>x. \<exists>bs. bcs_commit cr x = Inr bs" and "slot_round s = length L + length M"
    and "ready_window rng (sbv_context v) (co_sent (core_commit_observer c)) (ds_scoring_subdag (core_dag_state c)) (core_leader_schedule c) n"
    and "batch_decided rng (core_leader_schedule c) (core_dag_state c) (length L) M" and "length M \<le> n"
    and "co_handle_commit cr now (log_blocks M) True (core_commit_observer c, core_dag_state c) = Some (Inr (co', d, sds))"
    and "try_unsuspend_blocks_for_latest_gc_round now (core_block_manager c, d) = Some (bm, d')"
    and "length (co_sent co') < u32_max"
  shows "core_ok cr v rng (L @ M) (c\<lparr>core_last_decided_leader := s, core_commit_observer := co', core_block_manager := bm, core_dag_state := d'\<rparr>)"
proof -
  let ?c = "c\<lparr>core_last_decided_leader := s, core_commit_observer := co', core_dag_state := d\<rparr>"
  note p = pass_commits [OF assms(1,2,4-7,9)]
  have ok: "core_ok cr v rng (L @ M) ?c" using p assms(1,3) by (simp add: core_ok_def Let_def)
  have m: "manager_ok cr v (core_block_manager c, d)" using p by blast
  from unsuspend_gc_loop_correct [OF m, of now] assms(8) have
    u: "manager_ok cr v (bm, d')" "\<exists>us. node_extends cr v d d' (reference ` set us)"
    by (auto simp: try_unsuspend_blocks_for_latest_gc_round_def)
  have "grown d d'" using u(2) node_extends_grown m p by (auto simp: manager_ok_def)
  then show ?thesis by (intro core_ok_grown [OF ok _ u(1)]) simp_all
qed

lemma not_Inl: "(\<forall>x. y \<noteq> Inl x) \<longleftrightarrow> (\<exists>z. y = Inr z)"
  by (cases y) auto

lemma commit_pass_keeps_ok:
  assumes "core_ok cr v rng L c" and "\<forall>x. \<exists>bs. bcs_commit cr x = Inr bs"
    and "num_leaders_per_round (protocol_config (sbv_context v)) = Some 1"
    and "commit_pass api cr rng now [] c = Some (Inr (c', rest, sub))" and "length (co_sent (core_commit_observer c')) < u32_max"
  shows "rest = [] \<and> (\<exists>M. core_ok cr v rng (L @ M) c')"
proof -
  from assms(4) obtain c1 n c2 rest2 ds local where r: "refresh_schedule api rng c = Some (c1, n)"
    and nxt: "decide_next rng now n [] c1 = Some (c2, rest2, ds, local)"
    by (auto simp: commit_pass_def panic_simps)
  note ok1 = refresh_schedule_keeps_ok [OF assms(1) r]
  from decide_next_local [OF nxt ok1(1) assms(3)] have n: "c2 = c1" "rest2 = []" "local" "length (map outcome ds) \<le> n"
    "batch_decided rng (core_leader_schedule c1) (core_dag_state c1) (length L) (map outcome ds)" by simp_all
  note pass = assms(4) [unfolded commit_pass_def r Option.bind.bind_lunit prod.case nxt n(1-3)]
  show ?thesis
  proof (cases "ds = []")
    case True
    then have "c' = c1" "rest = []" using pass n(2) by (simp_all add: bset_last_def)
    then show ?thesis using ok1(1) by (intro conjI exI [of _ "[]"]) simp_all
  next
    case ne: False
    let ?s = "dl_slot (last ds)" and ?M = "map outcome ds"
    have "decided_from (core_dag_state c1) (Suc (length L)) ?M" using n(5) by (simp add: batch_decided_def)
    then have s: "slot_round ?s = length L + length ?M"
      using ne by (auto simp: decided_from_def outcome_def last_conv_nth dest: spec [of _ "length ds - 1"])
    show ?thesis
    proof (cases "log_blocks ?M = []")
      case True
      then have "c' = c1\<lparr>core_last_decided_leader := ?s\<rparr>" "rest = []"
        using pass ne n(2) by (simp_all add: bset_last_def sequenced_leaders)
      then show ?thesis using pass_skips [OF ok1(1) s True ok1(2) n(5,4)] by blast
    next
      case False
      with pass ne n(2,3) obtain co d sds bm d' where
        h: "co_handle_commit cr now (log_blocks ?M) True (core_commit_observer c1, core_dag_state c1) = Some (Inr (co, d, sds))"
          "try_unsuspend_blocks_for_latest_gc_round now (core_block_manager c1, d) = Some (bm, d')"
          "c' = c1\<lparr>core_last_decided_leader := ?s, core_commit_observer := co, core_block_manager := bm, core_dag_state := d'\<rparr>" "rest = []"
        by (auto simp: bset_last_def sequenced_leaders panic_simps not_Inl split: sum.split_asm)
      have "length (co_sent co) < u32_max" using assms(5) h(3) by simp
      then show ?thesis using pass_handled [OF ok1(1) assms(2) s ok1(2) n(5,4) h(1,2)] h(3,4) by blast
    qed
  qed
qed

lemma commit_pass_sent:
  assumes "commit_pass api cr rng now [] c = Some (Inr (c', rest, sub))"
  shows "rest = [] \<and> prefix (co_sent (core_commit_observer c)) (co_sent (core_commit_observer c'))"
proof -
  from assms obtain c1 n c2 rest2 ds local where r: "refresh_schedule api rng c = Some (c1, n)"
    and nxt: "decide_next rng now n [] c1 = Some (c2, rest2, ds, local)"
    by (auto simp: commit_pass_def panic_simps)
  have same: "core_commit_observer c1 = core_commit_observer c" using refresh_schedule_spec [OF r] by (simp add: same_node_def)
  have c2: "c2 = c1" "rest2 = []"
    using nxt accept_no_blocks by (auto simp: decide_next_def try_select_certified_leaders_def panic_simps split: if_splits)
  note pass = assms [unfolded commit_pass_def r Option.bind.bind_lunit prod.case nxt c2]
  then show ?thesis using same
    by (auto simp: bset_last_def co_handle_commit_def not_Inl Let_def panic_simps split: sum.split_asm if_splits)
qed

section \<open>The commit loop\<close>

lemma commit_loop_induct [consumes 1, case_names stop step]:
  fixes P :: "'p core \<Rightarrow> 'p core \<Rightarrow> bool"
  assumes "commit_loop api cr rng now [] c acc = Some (Inr (c', sds))"
    and stop: "\<And>c c1. commit_pass api cr rng now [] c = Some (Inr (c1, [], None)) \<Longrightarrow> P c c1"
    and step: "\<And>c c1 new c'. commit_pass api cr rng now [] c = Some (Inr (c1, [], Some new)) \<Longrightarrow> P c1 c' \<Longrightarrow> P c c'"
  shows "P c c'"
proof -
  let ?Q = "\<lambda>api' cr' rng' now' (cs :: certified_commit list) c (acc :: committed_sub_dag list) (y :: core_error + 'p core \<times> committed_sub_dag list). api' = api \<longrightarrow> cr' = cr \<longrightarrow> rng' = rng \<longrightarrow> now' = now \<longrightarrow> cs = []
    \<longrightarrow> (\<forall>c' sds. y = Inr (c', sds) \<longrightarrow> P c c')"
  have "?Q api cr rng now [] c acc (Inr (c', sds))"
  proof (rule commit_loop.raw_induct [where P = ?Q, OF _ assms(1)])
    fix loop api' cr' rng' now' cs c acc y
    assume IH: "\<And>api' cr' rng' now' cs c acc y. loop api' cr' rng' now' cs c acc = Some y \<Longrightarrow> ?Q api' cr' rng' now' cs c acc y"
      and body: "commit_pass api' cr' rng' now' cs c \<bind> case_sum (\<lambda>e. Some (Inl e)) (\<lambda>(c', remaining, subdags). case subdags of
         None \<Rightarrow> Some (Inr (c', acc)) | Some new \<Rightarrow> loop api' cr' rng' now' remaining c' (acc @ new)) = Some y"
    have "P c c'" if eqs: "api' = api" "cr' = cr" "rng' = rng" "now' = now" "cs = []" "y = Inr (c', sds)" for c' sds
    proof -
      from body eqs obtain c1 rest sub where p: "commit_pass api cr rng now [] c = Some (Inr (c1, rest, sub))"
        and cont: "(case sub of None \<Rightarrow> Some (Inr (c1, acc)) | Some new \<Rightarrow> loop api cr rng now rest c1 (acc @ new)) = Some y"
        by (auto simp: panic_simps not_Inl split: sum.split_asm)
      have rest: "rest = []" using commit_pass_sent [OF p] by simp
      show "P c c'"
      proof (cases sub)
        case None
        then show ?thesis using cont eqs(6) rest p stop by simp
      next
        case (Some new)
        then have "loop api cr rng now [] c1 (acc @ new) = Some (Inr (c', sds))" using cont eqs(6) rest by simp
        from IH [OF this] have "P c1 c'" by simp
        then show ?thesis using step p Some rest by blast
      qed
    qed
    then show "?Q api' cr' rng' now' cs c acc y" by blast
  qed
  then show ?thesis by simp
qed

lemma try_commit_keeps_ok:
  assumes "core_ok cr v rng L c" and "\<forall>x. \<exists>bs. bcs_commit cr x = Inr bs"
    and "num_leaders_per_round (protocol_config (sbv_context v)) = Some 1"
    and "try_commit api cr rng now [] c = Some (Inr (c', sds))" and "length (co_sent (core_commit_observer c')) < u32_max"
  shows "\<exists>M. core_ok cr v rng (L @ M) c'" and "prefix (co_sent (core_commit_observer c)) (co_sent (core_commit_observer c'))"
proof -
  let ?sent = "\<lambda>c. co_sent (core_commit_observer c)"
  from assms(4) obtain c1 p where loop: "commit_loop api cr rng now [] c [] = Some (Inr (c1, sds))"
    and c': "c' = c1\<lparr>core_proposer := p\<rparr>"
    by (auto simp: try_commit_def Let_def panic_simps not_Inl split: sum.split_asm)
  from loop have "prefix (?sent c) (?sent c1)
      \<and> (\<forall>L. core_ok cr v rng L c \<longrightarrow> length (?sent c1) < u32_max \<longrightarrow> (\<exists>M. core_ok cr v rng (L @ M) c1))"
  proof (induction rule: commit_loop_induct)
    case (stop c c1)
    then show ?case using commit_pass_sent [OF stop] commit_pass_keeps_ok [OF _ assms(2,3) stop] by blast
  next
    case (step c c1 new c')
    have sent: "prefix (?sent c) (?sent c')" using commit_pass_sent [OF step(1)] step(2) by (meson prefix_order.trans)
    have "\<exists>M. core_ok cr v rng (L @ M) c'" if ok: "core_ok cr v rng L c" and short: "length (?sent c') < u32_max" for L
    proof -
      have "length (?sent c1) < u32_max" using step(2) short prefix_length_le [of "?sent c1" "?sent c'"] by simp
      then obtain M where "core_ok cr v rng (L @ M) c1" using commit_pass_keeps_ok [OF ok assms(2,3) step(1)] by blast
      then obtain M' where "core_ok cr v rng ((L @ M) @ M') c'" using step(2) short by blast
      then show ?thesis by (intro exI [of _ "M @ M'"]) simp
    qed
    then show ?case using sent by blast
  qed
  then obtain M where M: "core_ok cr v rng (L @ M) c1" and pre: "prefix (?sent c) (?sent c1)" using assms(1,5) c' by auto
  show "\<exists>M. core_ok cr v rng (L @ M) c'" by (rule exI, rule core_ok_cong [OF M]) (simp_all add: c')
  show "prefix (?sent c) (?sent c')" using pre by (simp add: c')
qed

end
