(* ===== verification/Node_Agreement.thy ===== *)
theory Node_Agreement
  imports Core_Agreement
begin

text \<open>
  Two nodes of one epoch. Their decision logs agree entry by entry, because the schedule of each entry is
  a function of the sub-dags before it and the views of the nodes are consistent; the sub-dags they send to
  their finalizers are then equal one by one. The second part is the life of a node: it starts from an empty
  store and receives blocks, accepts its own, flushes and commits in any order.
\<close>

section \<open>Histories agree\<close>

lemma views_consistent_sub:
  assumes "views_consistent F d d'" and "dag_lookup e \<subseteq>\<^sub>m dag_lookup d" and "dag_lookup e' \<subseteq>\<^sub>m dag_lookup d'"
    and "ds_committee e = ds_committee d" and "ds_committee e' = ds_committee d'"
  shows "views_consistent F e e'"
proof -
  have up: "dag_lookup e r = Some b \<Longrightarrow> dag_lookup d r = Some b" "dag_lookup e' r = Some b \<Longrightarrow> dag_lookup d' r = Some b" for r b
    using assms(2,3) by (auto simp: map_le_def dom_def)
  have "b = b'" if "dag_lookup e r = Some b" "dag_lookup e' r = Some b'" for r b b'
    using views_consistent_block [OF assms(1)] up that by blast
  moreover have "r = r'" if "dag_lookup e r \<noteq> None" "dag_lookup e' r' \<noteq> None" "slot_of_ref r = slot_of_ref r'" "br_author r \<notin> F" for r r'
    using assms(1) that up unfolding views_consistent_def by (metis option.exhaust option.distinct(1))
  ultimately show ?thesis using assms(1,4,5) by (simp add: views_consistent_def)
qed

lemma decision_agree:
  assumes "views_consistent F d1 d2" and "faulty_ok (ds_committee d1) F" and "same_rules (ds_context d1) (ds_context d2)"
    and "decision_event rng (ds_context d1) (dag_lookup d1) out1 L1 i" and "decision_event rng (ds_context d2) (dag_lookup d2) out2 L2 i"
    and "take (length (log_blocks (take i L1))) out1 = take (length (log_blocks (take i L2))) out2"
  shows "L1 ! i = L2 ! i"
proof -
  from assms(4) obtain e1 st1 ss1 ls1 run1 s1 where 1: "view_ok e1" "ds_context e1 = ds_context d1" "dag_lookup e1 \<subseteq>\<^sub>m dag_lookup d1"
    "replay rng (ds_context d1) (take (length (log_blocks (take i L1))) out1) = Some st1" "refresh rng st1 = Some (ss1, ls1)"
    "run_ok e1 (leader_slot rng ls1) run1" "run1 (Suc i) = Some s1"
    "(\<exists>b. s1 = Commit b \<and> L1 ! i = (leader_slot rng ls1 (Suc i), Some b)) \<or> (\<exists>sl. s1 = Skip sl \<and> L1 ! i = (leader_slot rng ls1 (Suc i), None))"
    unfolding decision_event_def by (elim exE conjE) (rule that)
  from assms(5) obtain e2 st2 ss2 ls2 run2 s2 where 2: "view_ok e2" "ds_context e2 = ds_context d2" "dag_lookup e2 \<subseteq>\<^sub>m dag_lookup d2"
    "replay rng (ds_context d2) (take (length (log_blocks (take i L1))) out1) = Some st2" "refresh rng st2 = Some (ss2, ls2)"
    "run_ok e2 (leader_slot rng ls2) run2" "run2 (Suc i) = Some s2"
    "(\<exists>b. s2 = Commit b \<and> L2 ! i = (leader_slot rng ls2 (Suc i), Some b)) \<or> (\<exists>sl. s2 = Skip sl \<and> L2 ! i = (leader_slot rng ls2 (Suc i), None))"
    unfolding decision_event_def assms(6) [symmetric] by (elim exE conjE) (rule that)
  have leader: "leader_slot rng ls2 = leader_slot rng ls1" by (rule schedules_elect_same [OF assms(3) 1(4,5) 2(4,5)])
  have cons: "views_consistent F e1 e2" by (rule views_consistent_sub [OF assms(1) 1(3) 2(3)]) (simp_all add: 1(2) 2(2))
  have faulty: "faulty_ok (ds_committee e1) F" using assms(2) 1(2) by simp
  note run2 = 2(6) [unfolded leader]
  have commits: "b = b'" if "s1 = Commit b" "s2 = Commit b'" for b b'
    using commits_agree [OF 1(1) 2(1) cons faulty 1(6) run2] 1(7) 2(7) that by blast
  have mixed: "\<not> (s1 = Commit b \<and> s2 = Skip sl)" "\<not> (s2 = Commit b \<and> s1 = Skip sl)" for b sl
    using no_conflict [OF 1(1) 2(1) cons faulty 1(6) run2, of "Suc i"] 1(7) 2(7) by auto
  show ?thesis using 1(8) 2(8) [unfolded leader] commits mixed by fastforce
qed

lemma commit_agree:
  assumes "views_consistent F d1 d2" and "same_rules (ds_context d1) (ds_context d2)"
    and "commit_event cr (ds_context d1) (dag_lookup d1) out1 k" and "commit_event cr (ds_context d2) (dag_lookup d2) out2 k"
    and "take k out1 = take k out2" and "csd_leader (out1 ! k) = csd_leader (out2 ! k)"
  shows "out1 ! k = out2 ! k"
proof -
  from assms(3) obtain e1 l1 f1 c1 where 1: "view_ok e1" "commits_ok e1" "ds_context e1 = ds_context d1" "dag_lookup e1 \<subseteq>\<^sub>m dag_lookup d1"
    "committed_as e1 (take k out1)" "leader_ready e1 l1" "last_commit_round e1 < vb_round l1"
    "collect_sub_dag_and_commit cr (Linearizer_new (ds_context d1)) l1 e1 = Some (f1, out1 ! k, c1)"
    unfolding commit_event_def by (elim exE conjE) (rule that)
  from assms(4) obtain e2 l2 f2 c2 where 2: "view_ok e2" "commits_ok e2" "ds_context e2 = ds_context d2" "dag_lookup e2 \<subseteq>\<^sub>m dag_lookup d2"
    "committed_as e2 (take k out1)" "leader_ready e2 l2" "last_commit_round e2 < vb_round l2"
    "collect_sub_dag_and_commit cr (Linearizer_new (ds_context d2)) l2 e2 = Some (f2, out2 ! k, c2)"
    unfolding commit_event_def assms(5) [symmetric] by (elim exE conjE) (rule that)
  have cons: "views_consistent F e1 e2" by (rule views_consistent_sub [OF assms(1) 1(4) 2(4)]) (simp_all add: 1(3) 2(3))
  have leader: "csd_leader sd = reference l" if "collect_sub_dag_and_commit cr lin l d = Some (d', sd, c)" for lin l d d' sd c
    using that by (auto simp: collect_sub_dag_and_commit_def CommittedSubDag_new_def Let_def panic_simps)
  have "reference l1 = reference l2" using leader [OF 1(8)] leader [OF 2(8)] assms(6) by simp
  then have l: "l2 = l1" using views_consistent_block [OF cons, of "reference l1" l1 l2] 1(6) 2(6) by (simp add: leader_ready_def)
  have rules: "same_rules (ds_context e1) (ds_context e2)" using assms(2) 1(3) 2(3) by simp
  from collect_agree [OF 1(1) 2(1) cons rules 1(5) 2(5) 1(6) 2(6) [unfolded l] 1(7) 1(2) 2(2) _ _ 1(8), of "Linearizer_new (ds_context d2)"]
  obtain g where "collect_sub_dag_and_commit cr (Linearizer_new (ds_context d2)) l1 e2 = Some (g, out1 ! k, c1)"
    using 1(3) 2(3) by (auto simp: Linearizer_new_def)
  then show ?thesis using 2(8) l by simp
qed

lemma histories_agree:
  assumes "views_consistent F d1 d2" and "faulty_ok (ds_committee d1) F" and "same_rules (ds_context d1) (ds_context d2)"
    and "history_ok cr rng (ds_context d1) (dag_lookup d1) out1 L1" and "history_ok cr rng (ds_context d2) (dag_lookup d2) out2 L2"
    and "i \<le> length L1" and "i \<le> length L2"
  shows "take i L1 = take i L2
     \<and> take (length (log_blocks (take i L1))) out1 = take (length (log_blocks (take i L1))) out2"
  using assms(6,7)
proof (induction i)
  case (Suc i)
  let ?k = "length (log_blocks (take i L1))"
  have lt: "i < length L1" "i < length L2" using Suc.prems by simp_all
  have IH: "take i L1 = take i L2" "take ?k out1 = take ?k out2" using Suc.IH Suc.prems by (meson Suc_leD)+
  note h = assms(4,5) [unfolded history_ok_def]
  have entry: "L1 ! i = L2 ! i" using decision_agree [OF assms(1-3), of rng out1 L1 i out2 L2] h lt IH by simp
  then have logs: "take (Suc i) L1 = take (Suc i) L2" using IH lt by (simp add: take_Suc_conv_app_nth)
  show ?case
  proof (cases "snd (L1 ! i)")
    case None
    then have "log_blocks (take (Suc i) L1) = log_blocks (take i L1)" using lt by (simp add: take_Suc_conv_app_nth)
    then show ?thesis using logs IH(2) by simp
  next
    case (Some b)
    have kth: "?k < length out \<and> csd_leader (out ! ?k) = reference b"
      if "map csd_leader out = map reference (log_blocks L)" "i < length L" "take i L = take i L1" "snd (L ! i) = Some b" for out L
    proof -
      have "log_blocks L = log_blocks (take i L1) @ b # log_blocks (drop (Suc i) L)"
        using that(2-4) id_take_nth_drop [of i L] by (metis log_blocks_simps(2,3) option.case(2))
      then have "map csd_leader out = map reference (log_blocks (take i L1)) @ reference b # map reference (log_blocks (drop (Suc i) L))"
        using that(1) by simp
      then show ?thesis by (metis length_append length_map less_add_same_cancel1 list.size(4) nth_append_length nth_map zero_less_Suc add_Suc_right)
    qed
    have k1: "?k < length out1" "csd_leader (out1 ! ?k) = reference b" using kth [of out1 L1] h lt Some by simp_all
    have k2: "?k < length out2" "csd_leader (out2 ! ?k) = reference b" using kth [of out2 L2] h lt Some entry IH by simp_all
    have "out1 ! ?k = out2 ! ?k" using commit_agree [OF assms(1,3), of cr out1 ?k out2] h k1 k2 IH(2) by simp
    moreover have "length (log_blocks (take (Suc i) L1)) = Suc ?k" using lt Some by (simp add: take_Suc_conv_app_nth)
    ultimately show ?thesis using logs IH(2) k1(1) k2(1) by (simp add: take_Suc_conv_app_nth)
  qed
qed simp

lemma shorter_history_prefix:
  assumes "views_consistent F d1 d2" and "faulty_ok (ds_committee d1) F" and "same_rules (ds_context d1) (ds_context d2)"
    and "history_ok cr rng (ds_context d1) (dag_lookup d1) out1 L1" and "history_ok cr rng (ds_context d2) (dag_lookup d2) out2 L2"
    and "length L1 \<le> length L2"
  shows "prefix out1 out2"
proof -
  have "length out1 = length (log_blocks L1)" using assms(4) unfolding history_ok_def by (metis length_map)
  then have "out1 = take (length out1) out2" using histories_agree [OF assms(1-5), of "length L1"] assms(6) by simp
  then show ?thesis by (metis take_is_prefix)
qed

lemma same_rules_sym: "same_rules ctx ctx' \<Longrightarrow> same_rules ctx' ctx"
  by (simp add: same_rules_def)

lemma cores_agree:
  assumes "core_ok cr v1 rng L1 c1" and "core_ok cr v2 rng L2 c2" and "same_rules (sbv_context v1) (sbv_context v2)"
    and "views_consistent F (core_dag_state c1) (core_dag_state c2)" and "faulty_ok (ctx_committee (sbv_context v1)) F"
  shows "prefix (co_sent (core_commit_observer c1)) (co_sent (core_commit_observer c2))
     \<or> prefix (co_sent (core_commit_observer c2)) (co_sent (core_commit_observer c1))"
proof -
  have ctx: "ds_context (core_dag_state c1) = sbv_context v1" "ds_context (core_dag_state c2) = sbv_context v2"
    using assms(1,2) by (auto simp: core_ok_def Let_def manager_ok_def node_ok_def)
  have h: "history_ok cr rng (ds_context (core_dag_state c1)) (dag_lookup (core_dag_state c1)) (co_sent (core_commit_observer c1)) L1"
    "history_ok cr rng (ds_context (core_dag_state c2)) (dag_lookup (core_dag_state c2)) (co_sent (core_commit_observer c2)) L2"
    using assms(1,2) ctx by (simp_all add: core_ok_def Let_def)
  have rules: "same_rules (ds_context (core_dag_state c1)) (ds_context (core_dag_state c2))" using assms(3) ctx by simp
  have f: "faulty_ok (ds_committee (core_dag_state c1)) F" "faulty_ok (ds_committee (core_dag_state c2)) F"
    using assms(3,5) ctx by (simp_all add: same_rules_def)
  show ?thesis
  proof (cases "length L1 \<le> length L2")
    case True
    then show ?thesis using shorter_history_prefix [OF assms(4) f(1) rules h] by blast
  next
    case False
    then show ?thesis
      using shorter_history_prefix [OF views_consistent_sym [OF assms(4)] f(2) same_rules_sym [OF rules] h(2,1)] by simp
  qed
qed

section \<open>The life of a node\<close>

text \<open>Steps that touch neither the blocks nor the commits of the DAG state.\<close>

lemma bookkeeping_keeps_ok:
  assumes "core_ok cr v rng L c" and "same_blocks (core_dag_state c) d'" and "committed_refs d' = committed_refs (core_dag_state c)"
    and "ds_last_commit d' = ds_last_commit (core_dag_state c)" and "ds_scoring_subdag d' = ds_scoring_subdag (core_dag_state c)"
    and "ds_threshold_clock d' = ds_threshold_clock (core_dag_state c)"
    and "ds_last_committed_rounds d' = ds_last_committed_rounds (core_dag_state c)"
  shows "core_ok cr v rng L (c\<lparr>core_dag_state := d'\<rparr>)"
proof -
  let ?d = "core_dag_state c"
  note ok = assms(1) [unfolded core_ok_def Let_def]
  have view: "view_ok ?d" and node: "node_ok cr v ?d" and co: "commits_ok ?d" using ok by (auto simp: manager_ok_def node_ok_def)
  have look: "dag_lookup d' = dag_lookup ?d" by (rule same_blocks_lookup [OF assms(2)])
  have ctx: "ds_context d' = ds_context ?d" and cached: "cache_view d' = cache_view ?d" using assms(2) by (simp_all add: same_blocks_def)
  have gc: "gc_round d' = gc_round ?d" "last_commit_round d' = last_commit_round ?d"
    using assms(4) ctx by (simp_all add: gc_round_def last_commit_round_def calculate_gc_round_def)
  have wf: "dag_wf d'" using view_okD(1) [OF view] assms(6,7)
    by (intro same_blocks_wf [OF assms(2)]) (simp_all add: dag_wf_def)
  have "(map_of (ds_recent_blocks d') r = None) = (map_of (ds_recent_blocks ?d) r = None)" for r
    using cache_view_None [of d' r] cache_view_None [of ?d r] cached by simp
  then have "view_ok d'" using view wf look gc ctx by (simp add: view_ok_def dag_closed_def causal_def)
  then have m: "manager_ok cr v (core_block_manager c, d')" using ok look gc ctx by (simp add: manager_ok_def node_ok_def)
  have "commits_ok d'" using co look gc assms(3) by (simp add: commits_ok_def)
  then have "grown ?d d'" using look gc assms(3-5) by (simp add: grown_def)
  then show ?thesis using core_ok_grown [OF assms(1) _ m, of "c\<lparr>core_dag_state := d'\<rparr>"] by simp
qed

lemma link_targets_annotates:
  assumes "link_targets gc m ts l = Some (m', l')"
  shows "(\<forall>r. map_option bi_block (map_of m' r) = map_option bi_block (map_of m r)
       \<and> map_option bi_committed (map_of m' r) = map_option bi_committed (map_of m r)) \<and> (bmap_wf m \<longrightarrow> bmap_wf m')"
  using assms
proof (induction gc m ts l arbitrary: m' l' rule: link_targets.induct)
  case (2 gc m r ts l)
  then show ?case by (force split: if_splits option.split_asm)
qed simp

lemma link_keeps_ok:
  assumes "core_ok cr v rng L c" and "link_causal_history r (core_dag_state c) = Some (d', new)"
  shows "core_ok cr v rng L (c\<lparr>core_dag_state := d'\<rparr>)"
proof -
  let ?d = "core_dag_state c"
  from assms(2) obtain m where m: "link_targets (gc_round ?d) (ds_recent_blocks ?d) [r] [] = Some (m, new)" "d' = ?d\<lparr>ds_recent_blocks := m\<rparr>"
    by (auto simp: link_causal_history_def panic_simps)
  note a = link_targets_annotates [OF m(1)]
  show ?thesis
    by (rule bookkeeping_keeps_ok [OF assms(1)])
       (use a m(2) in \<open>simp_all add: same_blocks_def cache_view_def fun_eq_iff committed_refs_def is_committed_def\<close>)
qed

lemma take_votes_keeps_ok:
  assumes "core_ok cr v rng L c" and "take_commit_votes n (core_dag_state c) = (d', votes)"
  shows "core_ok cr v rng L (c\<lparr>core_dag_state := d'\<rparr>)"
  by (rule bookkeeping_keeps_ok [OF assms(1)])
     (use assms(2) in \<open>auto simp: take_commit_votes_def same_blocks_def cache_view_def fun_eq_iff committed_refs_def is_committed_def\<close>)

text \<open>What a node does, in any order. It receives verified blocks of peers, adds an own block that
  follows known blocks and that nobody referred to before it was made, takes commit votes into a block and
  marks the history a block includes, flushes, and runs the commit loop on its own decisions.\<close>

inductive node_step :: "'p proposer_api \<Rightarrow> crypto \<Rightarrow> signed_block_verifier \<Rightarrow> rng_lib \<Rightarrow> 'p core \<Rightarrow> 'p core \<Rightarrow> bool"
    for api cr v rng where
  receive: "\<forall>b\<in>set blocks. peer_block cr v b \<Longrightarrow> core_accept_blocks now blocks c = Some (c', accepted, missing) \<Longrightarrow>
     node_step api cr v rng c c'"
| own: "verified_by cr v b \<Longrightarrow> accept_block now b (core_dag_state c) = Some d' \<Longrightarrow>
     \<forall>a\<in>set (vb_ancestors b). gc_round (core_dag_state c) < br_round a \<longrightarrow> contains_block (core_dag_state c) a = Some True \<Longrightarrow>
     reference b \<notin> missing_refs (core_block_manager c) \<Longrightarrow> reference b \<notin> suspended_refs (core_block_manager c) \<Longrightarrow>
     node_step api cr v rng c (c\<lparr>core_dag_state := d'\<rparr>)"
| votes: "take_commit_votes n (core_dag_state c) = (d', votes) \<Longrightarrow> node_step api cr v rng c (c\<lparr>core_dag_state := d'\<rparr>)"
| link: "link_causal_history r (core_dag_state c) = Some (d', new) \<Longrightarrow> node_step api cr v rng c (c\<lparr>core_dag_state := d'\<rparr>)"
| flush: "flush (core_dag_state c) = Some d' \<Longrightarrow> node_step api cr v rng c (c\<lparr>core_dag_state := d'\<rparr>)"
| commit: "try_commit api cr rng now [] c = Some (Inr (c', sub_dags)) \<Longrightarrow> length (co_sent (core_commit_observer c')) < u32_max \<Longrightarrow>
     node_step api cr v rng c c'"
| signal: "node_step api cr v rng c (c\<lparr>core_proposer := p, core_signals := s, core_last_signaled_round := r\<rparr>)"

text \<open>The start on an empty store, for an observer or a validator.\<close>

definition node_start :: "crypto \<Rightarrow> signed_block_verifier \<Rightarrow> rng_lib \<Rightarrow> 'p core \<Rightarrow> bool" where
  "node_start cr v rng c \<longleftrightarrow> (\<exists>now. DagState_new cr now (sbv_context v) MemStore_new = Some (core_dag_state c))
     \<and> from_store rng (sbv_context v) (core_dag_state c) = Some (core_leader_schedule c)
     \<and> last_commit_leader (core_dag_state c) = Some (core_last_decided_leader c)
     \<and> core_context c = sbv_context v \<and> core_block_manager c = BlockManager_new (sbv_context v)
     \<and> core_commit_observer c = CommitObserver_new (sbv_context v)"

lemma node_step_keeps_ok:
  assumes "node_step api cr v rng c c'" and "core_ok cr v rng L c" and "\<forall>x. \<exists>bs. bcs_commit cr x = Inr bs"
    and "num_leaders_per_round (protocol_config (sbv_context v)) = Some 1"
  shows "\<exists>M. core_ok cr v rng (L @ M) c' \<and> prefix (co_sent (core_commit_observer c)) (co_sent (core_commit_observer c'))"
proof -
  have quiet: "\<exists>M. core_ok cr v rng (L @ M) c' \<and> prefix (co_sent (core_commit_observer c)) (co_sent (core_commit_observer c'))"
    if "core_ok cr v rng L c'" "core_commit_observer c' = core_commit_observer c"
    using that by (intro exI [of _ "[]"]) simp
  show ?thesis
    using assms(1)
  proof cases
    case (receive blocks now accepted missing)
    have "core_commit_observer c' = core_commit_observer c"
      using receive(2) by (auto simp: core_accept_blocks_def panic_simps)
    then show ?thesis using quiet receive_keeps_ok [OF assms(2) receive] by blast
  next
    case (own b now d')
    then show ?thesis using quiet own_block_keeps_ok [OF assms(2) own(2,3,4,5,6)] by simp
  next
    case (votes n d' votes)
    then show ?thesis using quiet take_votes_keeps_ok [OF assms(2) votes(2)] by simp
  next
    case (link r d' new)
    then show ?thesis using quiet link_keeps_ok [OF assms(2) link(2)] by simp
  next
    case (flush d')
    then show ?thesis using quiet flush_keeps_ok [OF assms(2) flush(2)] by simp
  next
    case (commit now sub_dags)
    then show ?thesis using try_commit_keeps_ok [OF assms(2-4) commit] by blast
  next
    case (signal p s r)
    then show ?thesis using quiet core_ok_cong [OF assms(2), of c'] by simp
  qed
qed

lemma first_genesis:
  assumes "dag_wf d" and "bset_first (ds_genesis d) = Some (r, b)"
  shows "br_round r = 0"
proof -
  have "map_of (ds_genesis d) r = Some b" using assms(2) by (auto simp: bset_first_def split: list.splits)
  then show ?thesis using assms(1) by (simp add: dag_wf_def)
qed

lemma start_ok:
  assumes "node_start cr v rng c" and "committee_wf (ctx_committee (sbv_context v))"
    and "0 < as_u32 (dag_state_cached_rounds (ctx_parameters (sbv_context v)))" and "\<not> enable_v3 (protocol_config (sbv_context v))"
  shows "core_ok cr v rng [] c"
proof -
  let ?ctx = "sbv_context v" and ?d = "core_dag_state c"
  note s = assms(1) [unfolded node_start_def]
  from s obtain now where new: "DagState_new cr now ?ctx MemStore_new = Some ?d" by blast
  from new obtain gs where gs: "genesis_blocks cr ?ctx = Some gs"
    by (cases "genesis_blocks cr ?ctx") (auto simp: DagState_new_def)
  have d: "?d = initial_dag now ?ctx gs" using DagState_new_fresh [OF assms(2) gs] new by simp
  have view: "view_ok ?d" using initial_view_ok [OF assms(2) gs assms(3)] d by simp
  have ctx: "ds_context ?d = ?ctx" and lc: "ds_last_commit ?d = None" and recent: "ds_recent_blocks ?d = []"
    and scoring: "ds_scoring_subdag ?d = ScoringSubdag_new ?ctx" by (simp_all add: d initial_dag_def Let_def)
  have zero: "last_commit_round ?d = 0" "committed_refs ?d = {}" using lc recent
    by (simp_all add: last_commit_round_def committed_refs_def is_committed_def)
  have "commits_ok ?d" using zero by (simp add: commits_ok_def commit_closed_def)
  moreover have "manager_ok cr v (core_block_manager c, ?d)"
    using new_manager_ok [of cr v ?d] view ctx assms(4) s by (simp add: node_ok_def)
  moreover have "committed_as ?d []"
    using zero lc by (simp add: committed_as_def last_commit_index_def last_commit_digest_def last_commit_timestamp_ms_def
        out_digest_def out_timestamp_def out_round_def)
  moreover have "core_leader_schedule c = LeaderSchedule_new ?ctx LeaderSwapTable_default"
    using s by (auto simp: from_store_def recover_last_commit_info_def d initial_dag_def Let_def panic_simps read_last_commit_info_def MemStore_new_def bset_last_def)
  then have "schedule_ok rng ?ctx [] (ds_scoring_subdag ?d) (core_leader_schedule c)"
    using scoring by (simp add: schedule_ok_def replay_def)
  moreover have "slot_round (core_last_decided_leader c) = 0"
    using s lc first_genesis [OF view_okD(1) [OF view]] 
    by (fastforce simp: last_commit_leader_def slot_of_ref_def dest: sym [of _ "core_last_decided_leader c"])
  ultimately show ?thesis using s zero by (simp add: core_ok_def CommitObserver_new_def history_ok_def u32_max_def)
qed

lemma node_run_ok:
  assumes "node_start cr v rng s" and "(node_step api cr v rng)\<^sup>*\<^sup>* s c" and "committee_wf (ctx_committee (sbv_context v))"
    and "0 < as_u32 (dag_state_cached_rounds (ctx_parameters (sbv_context v)))" and "\<not> enable_v3 (protocol_config (sbv_context v))"
    and "\<forall>x. \<exists>bs. bcs_commit cr x = Inr bs" and "num_leaders_per_round (protocol_config (sbv_context v)) = Some 1"
  shows "\<exists>L. core_ok cr v rng L c"
  using assms(2)
proof (induction rule: rtranclp_induct)
  case base
  then show ?case using start_ok [OF assms(1,3-5)] by blast
next
  case (step c c')
  then show ?case using node_step_keeps_ok [OF step(2) _ assms(6,7)] by blast
qed

text \<open>
  C1. Total order: take two nodes of one epoch that start from an empty store and, in any order and
  interleaving, receive verified blocks, add their own blocks, flush and run the commit loop, each with its
  own proposer. If blocks are determined by their references and only authorities of at most \<open>f\<close>
  stake equivocate, then the committed sub-dags one of them has sent to its finalizer, with their commit
  references, blocks and timestamps, are a prefix of those the other has sent. The leader schedules the
  nodes compute along the way are part of the runs.
\<close>

theorem nodes_commit_same_sequence:
  assumes "committee_wf (ctx_committee (sbv_context v1))" and "same_rules (sbv_context v1) (sbv_context v2)"
    and "0 < as_u32 (dag_state_cached_rounds (ctx_parameters (sbv_context v1)))"
    and "0 < as_u32 (dag_state_cached_rounds (ctx_parameters (sbv_context v2)))"
    and "\<not> enable_v3 (protocol_config (sbv_context v1))" and "num_leaders_per_round (protocol_config (sbv_context v1)) = Some 1"
    and "\<forall>x. \<exists>bs. bcs_commit cr x = Inr bs"
    and "node_start cr v1 rng s1" and "(node_step api1 cr v1 rng)\<^sup>*\<^sup>* s1 c1"
    and "node_start cr v2 rng s2" and "(node_step api2 cr v2 rng)\<^sup>*\<^sup>* s2 c2"
    and "views_consistent F (core_dag_state c1) (core_dag_state c2)" and "faulty_ok (ctx_committee (sbv_context v1)) F"
  shows "prefix (co_sent (core_commit_observer c1)) (co_sent (core_commit_observer c2))
     \<or> prefix (co_sent (core_commit_observer c2)) (co_sent (core_commit_observer c1))"
proof -
  obtain L1 where 1: "core_ok cr v1 rng L1 c1" using node_run_ok [OF assms(8,9,1,3,5,7,6)] by blast
  have two: "committee_wf (ctx_committee (sbv_context v2))" "\<not> enable_v3 (protocol_config (sbv_context v2))"
    "num_leaders_per_round (protocol_config (sbv_context v2)) = Some 1" using assms(1,2,5,6) by (simp_all add: same_rules_def)
  obtain L2 where 2: "core_ok cr v2 rng L2 c2" using node_run_ok [OF assms(10,11) two(1) assms(4) two(2) assms(7) two(3)] by blast
  show ?thesis by (rule cores_agree [OF 1 2 assms(2,12,13)])
qed

lemma view_step_genesis:
  assumes "view_step cr v d d'" and "node_ok cr v d" and "br_round r = 0"
  shows "dag_lookup d' r = dag_lookup d r"
  using assms(1)
proof cases
  case (accept sb serialized b rejected now)
  note ok = node_okD [OF assms(2)] and b = verified_links [OF node_okD(3) [OF assms(2)] accept(1)]
  have "dag_lookup d' = (if dag_lookup d (reference b) = None then (dag_lookup d)(reference b \<mapsto> b) else dag_lookup d)"
    using accept_block_lookup [OF view_okD(1) [OF ok(1)] accept(3)] b(3) ok(2) by simp
  moreover have "r \<noteq> reference b" using b assms(3) by auto
  ultimately show ?thesis by simp
next
  case (commit commit now)
  from add_commit_fields [OF commit(2)] show ?thesis by (auto simp: dag_lookup_def cong: option.case_cong)
next
  case flush
  then show ?thesis using flush_correct [OF view_okD(1) [OF node_okD(1) [OF assms(2)]]] by auto
qed

lemma view_steps_genesis:
  assumes "(view_step cr v)\<^sup>*\<^sup>* d d'" and "node_ok cr v d" and "br_round r = 0"
  shows "dag_lookup d' r = dag_lookup d r"
proof -
  from assms(1) have "node_ok cr v d' \<and> dag_lookup d' r = dag_lookup d r"
    by (induction rule: rtranclp_induct) (use assms(2,3) view_step_grows view_step_genesis in fastforce)+
  then show ?thesis by simp
qed

definition sample_core :: "unit core" where
  "sample_core = \<lparr>core_context = sample_context, core_block_manager = BlockManager_new sample_context, core_last_signaled_round = 0,
     core_last_decided_leader = Slot 0 0, core_leader_schedule = LeaderSchedule_new sample_context LeaderSwapTable_default,
     core_commit_observer = CommitObserver_new sample_context, core_signals = CoreSignals_new sample_context,
     core_dag_state = sample_dag, core_proposer = None\<rparr>"

lemma sample_last_leader: "last_commit_leader sample_dag = Some (Slot 0 0)"
proof -
  define g where "g a = new_verified sample_crypto (SignedBlock_new_genesis (V2 (genesis_block_v2 sample_context a))) [0, of_nat a, 0]" for a
  have upt: "[0..<4] = [0, 1, 2, 3::nat]" by (simp add: upt_rec)
  have gs: "sample_genesis = [g 0, g 1, g 2, g 3]"
    unfolding sample_genesis_def upt g_def by (simp only: list.map)
  have g: "vb_round (g a) = 0" "vb_author (g a) = a" for a
    by (simp_all add: g_def new_verified_def SignedBlock_new_genesis_def genesis_block_v2_def vb_inner_def GENESIS_ROUND_def)
  have lt: "reference (g a) < reference (g b) \<longleftrightarrow> a < b" if "a \<noteq> b" for a b
    using that by (auto simp: block_ref_less_iff g)
  have ne: "reference (g a) = reference (g b) \<longleftrightarrow> a = b" for a b
    using g(2) [of a] g(2) [of b] by (metis br_author_reference)
  show ?thesis
    by (simp add: last_commit_leader_def sample_dag_def gs slot_of_ref_def lt ne bset_first_def g)
qed

definition idle_proposer :: "unit proposer_api" where
  "idle_proposer = \<lparr>pr_try_new_block = (\<lambda>_ _ _ (p, d). Some (p, d, None)), pr_should_propose = (\<lambda>_ _. False),
     pr_set_propagation_delay = (\<lambda>_ p. p), pr_set_last_known_proposed_round = (\<lambda>_ p. p), pr_get_last_known_proposed_round = (\<lambda>_. None),
     pr_last_proposed_round = (\<lambda>_ _. None), pr_last_proposed_block = (\<lambda>_ _. None), pr_set_propagation_scores = (\<lambda>_ p. p),
     pr_notify_own_blocks_committed = (\<lambda>_ _ p. p)\<rparr>"

lemma sample_core_starts: "node_start sample_crypto sample_verifier last_rng sample_core"
proof -
  have "ds_scoring_subdag sample_dag = ScoringSubdag_new sample_context" "ds_store sample_dag = MemStore_new"
    by (simp_all add: sample_dag_def initial_dag_def Let_def)
  then have "from_store last_rng sample_context sample_dag = Some (LeaderSchedule_new sample_context LeaderSwapTable_default)"
    by (simp add: from_store_def recover_last_commit_info_def read_last_commit_info_def scoring_subdags_count_def
        scored_subdags_count_def MemStore_new_def bset_last_def ScoringSubdag_new_def)
  then show ?thesis using sample_dag_new sample_last_leader by (auto simp: node_start_def sample_core_def sample_verifier_def)
qed

lemma sample_receives:
  "\<exists>c. node_step api sample_crypto sample_verifier last_rng sample_core c
     \<and> (reference sample_verified_block \<in> known_refs (core_dag_state c) \<or> is_suspended (core_block_manager c) (reference sample_verified_block))
     \<and> views_consistent {} (core_dag_state sample_core) (core_dag_state c)"
proof -
  let ?b = sample_verified_block and ?v = sample_verifier
  have peer: "\<forall>b\<in>set (sort_key vb_round [?b]). peer_block sample_crypto ?v b" using sample_peer_block by simp
  from accept_each_correct [OF sample_manager_ok peer, of 0 "[]" "[]"] obtain bm d new missing where
    a: "for_each (accept_one 0 False) (sort_key vb_round [?b]) (BlockManager_new sample_context, sample_dag, [], []) = Some (bm, d, new, missing)"
      "node_extends sample_crypto ?v sample_dag d (reference ` set new)"
      "vb_round ?b \<le> gc_round sample_dag \<or> reference ?b \<in> received_refs (bm, d)" by auto
  have run: "core_accept_blocks 0 [?b] sample_core = Some (sample_core\<lparr>core_block_manager := bm, core_dag_state := d,
      core_signals := fold sig_new_accepted_block new (core_signals sample_core)\<rparr>, new, missing)"
    using a(1) by (simp add: core_accept_blocks_def try_accept_blocks_def try_accept_blocks_internal_def sample_core_def)
  have step: "node_step api sample_crypto ?v last_rng sample_core (sample_core\<lparr>core_block_manager := bm, core_dag_state := d,
      core_signals := fold sig_new_accepted_block new (core_signals sample_core)\<rparr>)"
    by (rule node_step.receive [OF _ run]) (use sample_peer_block in simp)
  have ext: "(view_step sample_crypto ?v)\<^sup>*\<^sup>* sample_dag d" "ds_context d = ds_context sample_dag"
    using a(2) node_okD(2) [OF sample_node_ok] by (simp_all add: node_extends_def node_ok_def)
  have same: "dag_lookup d r = dag_lookup sample_dag r" if "br_round r = 0" for r
    by (rule view_steps_genesis [OF ext(1) sample_node_ok that])
  have "views_consistent {} (core_dag_state sample_core) d"
    using sample_genesis_lookup sample_genesis_unique same ext(2) 
    by (fastforce simp: views_consistent_def slot_of_ref_def sample_core_def)
  moreover have "gc_round sample_dag < vb_round ?b"
    by (simp add: sample_verified_fields gc_round_def last_commit_round_def calculate_gc_round_def sample_dag_def)
  ultimately show ?thesis using step a(3) by (intro exI conjI) (auto simp: received_refs_def)
qed

theorem nodes_commit_same_sequence_witness:
  "\<exists>c. node_step idle_proposer sample_crypto sample_verifier last_rng sample_core c
     \<and> (reference sample_verified_block \<in> known_refs (core_dag_state c) \<or> is_suspended (core_block_manager c) (reference sample_verified_block))
     \<and> (prefix (co_sent (core_commit_observer sample_core)) (co_sent (core_commit_observer c))
        \<or> prefix (co_sent (core_commit_observer c)) (co_sent (core_commit_observer sample_core)))"
proof -
  from sample_receives obtain c where c: "node_step idle_proposer sample_crypto sample_verifier last_rng sample_core c"
    "reference sample_verified_block \<in> known_refs (core_dag_state c) \<or> is_suspended (core_block_manager c) (reference sample_verified_block)"
    "views_consistent {} (core_dag_state sample_core) (core_dag_state c)" by blast
  have bcs: "\<forall>x. \<exists>bs. bcs_commit sample_crypto x = Inr bs" by (simp add: sample_crypto_def)
  have f: "faulty_ok (ctx_committee (sbv_context sample_verifier)) {}" by (simp add: faulty_ok_def stake_of_def)
  have steps: "(node_step idle_proposer sample_crypto sample_verifier last_rng)\<^sup>*\<^sup>* sample_core c" using c(1) by (rule r_into_rtranclp)
  have refl: "(node_step idle_proposer sample_crypto sample_verifier last_rng)\<^sup>*\<^sup>* sample_core sample_core" by simp
  show ?thesis
    using nodes_commit_same_sequence [OF _ _ _ _ _ _ bcs sample_core_starts refl sample_core_starts steps c(3) f]
      c(1,2) sample_committee_wf sample_cached_rounds
    by (auto simp: same_rules_def sample_verifier_def sample_config_def)
qed

end
