(* ===== verification/Quorum_Scan.thy ===== *)
theory Quorum_Scan
  imports Committer_Safety "HOL-Library.Multiset"
begin

text \<open>
  Stake-weighted order statistics: several parts of the code attach to each authority a number (a
  round, a commit index), sort the pairs of number and stake, and add up stakes until they reach a
  quorum. This theory holds the shared scan and what the number it stops at means in terms of the
  stake of the authorities below and above it.
\<close>

section \<open>The scan\<close>

fun quorum_scan :: "stake \<Rightarrow> (nat \<times> stake) list \<Rightarrow> stake \<Rightarrow> nat option option" where
  "quorum_scan q [] acc = Some None"
| "quorum_scan q ((x, stake) # rest) acc = do {
     acc' \<leftarrow> u64_add acc stake;
     (if acc' \<ge> q then Some (Some x) else quorum_scan q rest acc')
   }"

definition stake_pairs :: "committee \<Rightarrow> nat list \<Rightarrow> (nat \<times> stake) list" where
  "stake_pairs c xs = map (\<lambda>(x, (_, authority)). (x, auth_stake authority)) (zip xs (authorities c))"

abbreviation pair_stake :: "(nat \<times> stake) list \<Rightarrow> stake" where
  "pair_stake ps \<equiv> sum_list (map snd ps)"

text \<open>The stake of the authorities whose number satisfies a predicate.\<close>

definition stake_where :: "committee \<Rightarrow> nat list \<Rightarrow> (nat \<Rightarrow> bool) \<Rightarrow> stake" where
  "stake_where c xs P = stake_of c {i \<in> members c. P (xs ! i)}"

lemma stake_pairs_eq:
  assumes "length xs = committee_size c"
  shows "stake_pairs c xs = map (\<lambda>i. (xs ! i, stake_at c i)) [0..<committee_size c]"
  using assms
  by (intro nth_equalityI)
     (auto simp: stake_pairs_def authorities_def committee_size_def stake_at_def nth_enumerate_eq)

lemma pair_stake_filter:
  assumes "length xs = committee_size c"
  shows "pair_stake (filter (\<lambda>p. P (fst p)) (stake_pairs c xs)) = stake_where c xs P"
proof -
  have "pair_stake (filter (\<lambda>p. P (fst p)) (stake_pairs c xs))
      = sum_list (map (stake_at c) (filter (\<lambda>i. P (xs ! i)) [0..<committee_size c]))"
    unfolding stake_pairs_eq [OF assms] by (simp add: filter_map comp_def)
  also have "\<dots> = stake_of c (set (filter (\<lambda>i. P (xs ! i)) [0..<committee_size c]))"
    by (simp add: stake_of_list del: set_filter)
  also have "set (filter (\<lambda>i. P (xs ! i)) [0..<committee_size c]) = {i \<in> members c. P (xs ! i)}"
    by (auto simp: members_def)
  finally show ?thesis by (simp add: stake_where_def)
qed

lemma pair_stake_perm:
  assumes "mset ps = mset qs"
  shows "pair_stake (filter P ps) = pair_stake (filter P qs)"
proof -
  have "mset (map snd (filter P ps)) = mset (map snd (filter P qs))" using assms by (simp add: mset_filter)
  then show ?thesis by (metis sum_mset_sum_list)
qed

lemma quorum_scan_split:
  assumes "t < q" and "q \<le> t + pair_stake ps" and "t + pair_stake ps \<le> u64_max"
  shows "\<exists>i<length ps. quorum_scan q ps t = Some (Some (fst (ps ! i)))
     \<and> t + pair_stake (take i ps) < q \<and> q \<le> t + pair_stake (take (Suc i) ps)"
  using assms
proof (induction ps arbitrary: t)
  case (Cons p ps)
  obtain x s where p: "p = (x, s)" by force
  have add: "u64_add t s = Some (t + s)" using Cons.prems(3) p by (simp add: u64_add_def)
  show ?case
  proof (cases "q \<le> t + s")
    case True
    then show ?thesis using add p Cons.prems by (intro exI [of _ 0]) simp
  next
    case False
    with Cons.IH [of "t + s"] Cons.prems p obtain i where "i < length ps"
      "quorum_scan q ps (t + s) = Some (Some (fst (ps ! i)))"
      "t + s + pair_stake (take i ps) < q" "q \<le> t + s + pair_stake (take (Suc i) ps)" by auto
    then show ?thesis using add p False by (intro exI [of _ "Suc i"]) simp
  qed
qed simp

lemma filter_pairs_le: "pair_stake (filter P ps) \<le> pair_stake ps"
  by (induction ps) auto

text \<open>In a list whose later elements do not come before earlier ones, the numbers strictly before
  the stopping point miss the quorum and those up to it reach it.\<close>

lemma quorum_scan_ordered:
  fixes before :: "nat \<Rightarrow> nat \<Rightarrow> bool"
  assumes "sorted_wrt (\<lambda>p p'. \<not> before (fst p') (fst p)) ps" and "\<And>x. \<not> before x x"
    and "0 < q" and "q \<le> pair_stake ps" and "pair_stake ps \<le> u64_max"
  shows "\<exists>r. quorum_scan q ps 0 = Some (Some r) \<and> r \<in> fst ` set ps
     \<and> pair_stake (filter (\<lambda>p. before (fst p) r) ps) < q \<and> q \<le> pair_stake (filter (\<lambda>p. \<not> before r (fst p)) ps)"
proof -
  from quorum_scan_split [of 0 q ps] assms(3-5) obtain i where
    i: "i < length ps" "quorum_scan q ps 0 = Some (Some (fst (ps ! i)))"
      "pair_stake (take i ps) < q" "q \<le> pair_stake (take (Suc i) ps)" by auto
  let ?r = "fst (ps ! i)"
  have later: "\<not> before (fst p) ?r" if "p \<in> set (drop i ps)" for p
  proof -
    from that obtain k where k: "k < length ps - i" "p = ps ! (i + k)" by (auto simp: in_set_conv_nth)
    then show ?thesis using sorted_wrt_nth_less [OF assms(1), of i "i + k"] assms(2) by (cases "k = 0") auto
  qed
  have earlier: "\<not> before ?r (fst p)" if "p \<in> set (take (Suc i) ps)" for p
  proof -
    from that obtain j where j: "j < Suc i" "p = ps ! j" by (auto simp: in_set_conv_nth)
    then show ?thesis using sorted_wrt_nth_less [OF assms(1), of j i] i(1) assms(2) by (cases "i = j") auto
  qed
  have "filter (\<lambda>p. before (fst p) ?r) ps = filter (\<lambda>p. before (fst p) ?r) (take i ps)"
    using later by (subst append_take_drop_id [of i, symmetric], subst filter_append) (simp add: filter_empty_conv)
  then have "pair_stake (filter (\<lambda>p. before (fst p) ?r) ps) < q"
    using filter_pairs_le [of "\<lambda>p. before (fst p) ?r" "take i ps"] i(3) by simp
  moreover have "filter (\<lambda>p. \<not> before ?r (fst p)) (take (Suc i) ps) = take (Suc i) ps"
    using earlier by (simp add: filter_id_conv)
  then have "pair_stake (take (Suc i) ps) \<le> pair_stake (filter (\<lambda>p. \<not> before ?r (fst p)) ps)"
    by (subst (2) append_take_drop_id [of "Suc i", symmetric], subst filter_append) simp
  ultimately show ?thesis using i by (intro exI [of _ ?r]) auto
qed

text \<open>Quorum of the lowest and of the highest numbers.\<close>

lemma stake_pairs_total:
  assumes "committee_wf c" and "length xs = committee_size c"
  shows "quorum_threshold c \<le> pair_stake (stake_pairs c xs)" and "pair_stake (stake_pairs c xs) \<le> u64_max"
    and "0 < quorum_threshold c"
proof -
  have "pair_stake (stake_pairs c xs) = total_stake c"
    using pair_stake_filter [OF assms(2), of "\<lambda>_. True"] assms(1) by (simp add: stake_where_def committee_wf_def members_def lessThan_def)
  then show "quorum_threshold c \<le> pair_stake (stake_pairs c xs)" "pair_stake (stake_pairs c xs) \<le> u64_max"
    "0 < quorum_threshold c" using assms(1) by (simp_all add: committee_wf_def)
qed

lemma stake_pairs_values: "length xs = committee_size c \<Longrightarrow> fst ` set (stake_pairs c xs) = set xs"
  by (auto simp: stake_pairs_eq image_image in_set_conv_nth)

lemma quorum_scan_lowest:
  assumes "committee_wf c" and "length xs = committee_size c"
  shows "\<exists>r. quorum_scan (quorum_threshold c) (sort (stake_pairs c xs)) 0 = Some (Some r) \<and> r \<in> set xs
     \<and> stake_where c xs (\<lambda>x. x < r) < quorum_threshold c \<and> quorum_threshold c \<le> stake_where c xs (\<lambda>x. x \<le> r)"
proof -
  let ?ps = "stake_pairs c xs"
  have perm: "pair_stake (filter P (sort ?ps)) = pair_stake (filter P ?ps)" for P by (rule pair_stake_perm) simp
  have "sorted_wrt (\<lambda>p p'. \<not> fst p' < fst p) (sort ?ps)"
    by (rule sorted_wrt_mono_rel [OF _ sorted_sort]) (auto simp: less_eq_prod_def)
  moreover have "pair_stake (sort ?ps) = pair_stake ?ps" using perm [of "\<lambda>_. True"] by simp
  ultimately obtain r where "quorum_scan (quorum_threshold c) (sort ?ps) 0 = Some (Some r)" "r \<in> fst ` set (sort ?ps)"
    "pair_stake (filter (\<lambda>p. fst p < r) (sort ?ps)) < quorum_threshold c"
    "quorum_threshold c \<le> pair_stake (filter (\<lambda>p. \<not> r < fst p) (sort ?ps))"
    using quorum_scan_ordered [of "(<)" "sort ?ps" "quorum_threshold c"] stake_pairs_total [OF assms] by auto
  then show ?thesis
    using pair_stake_filter [OF assms(2), of "\<lambda>x. x < r"] pair_stake_filter [OF assms(2), of "\<lambda>x. \<not> r < x"]
    by (auto simp: perm stake_pairs_values [OF assms(2)] not_less)
qed

lemma quorum_scan_highest:
  assumes "committee_wf c" and "length xs = committee_size c" and "mset ps = mset (stake_pairs c xs)"
    and "sorted_wrt (\<lambda>p p'. p' \<le> p) ps"
  shows "\<exists>r. quorum_scan (quorum_threshold c) ps 0 = Some (Some r) \<and> r \<in> set xs
     \<and> stake_where c xs (\<lambda>x. r < x) < quorum_threshold c \<and> quorum_threshold c \<le> stake_where c xs (\<lambda>x. r \<le> x)"
proof -
  have perm: "pair_stake (filter P ps) = pair_stake (filter P (stake_pairs c xs))" for P by (rule pair_stake_perm [OF assms(3)])
  have "sorted_wrt (\<lambda>p p'. \<not> fst p < fst p') ps"
    by (rule sorted_wrt_mono_rel [OF _ assms(4)]) (auto simp: less_eq_prod_def)
  moreover have "pair_stake ps = pair_stake (stake_pairs c xs)" using perm [of "\<lambda>_. True"] by simp
  moreover have "set ps = set (stake_pairs c xs)" using assms(3) by (rule mset_eq_setD)
  ultimately obtain r where "quorum_scan (quorum_threshold c) ps 0 = Some (Some r)" "r \<in> fst ` set (stake_pairs c xs)"
    "pair_stake (filter (\<lambda>p. r < fst p) ps) < quorum_threshold c"
    "quorum_threshold c \<le> pair_stake (filter (\<lambda>p. \<not> fst p < r) ps)"
    using quorum_scan_ordered [of "\<lambda>x y. y < x" ps "quorum_threshold c"] stake_pairs_total [OF assms(1,2)] by auto
  then show ?thesis
    using pair_stake_filter [OF assms(2), of "\<lambda>x. r < x"] pair_stake_filter [OF assms(2), of "\<lambda>x. \<not> x < r"]
    by (auto simp: perm stake_pairs_values [OF assms(2)] not_less)
qed

section \<open>Honest authorities\<close>

text \<open>If fewer than a quorum satisfy \<open>P\<close>, some honest authority does not.\<close>

lemma honest_outside:
  assumes "committee_wf c" and "faulty_ok c F" and "stake_where c xs P < quorum_threshold c"
  shows "\<exists>a\<in>members c. a \<notin> F \<and> \<not> P (xs ! a)"
proof (rule ccontr)
  assume "\<not> ?thesis"
  then have "members c \<subseteq> {i \<in> members c. P (xs ! i)} \<union> F" by blast
  then have "stake_of c (members c) \<le> stake_of c ({i \<in> members c. P (xs ! i)} \<union> F)"
    using assms(2) by (intro stake_of_mono) (auto simp: faulty_ok_def)
  also have "\<dots> \<le> stake_where c xs P + stake_of c F"
    unfolding stake_of_def stake_where_def using assms(2)
      sum.union_inter [of "{i \<in> members c. P (xs ! i)}" F "stake_at c"] by (simp add: faulty_ok_def)
  also have "\<dots> < quorum_threshold c + fault_tolerance c" using assms(2,3) by (simp add: faulty_ok_def)
  finally show False using assms(1) by (simp add: committee_wf_def)
qed

text \<open>Two conditions that each hold for a quorum hold together somewhere.\<close>

lemma overlapping_quorums_meet:
  assumes "committee_wf c" and "quorum_threshold c \<le> stake_where c xs P" and "quorum_threshold c \<le> stake_where c xs Q"
  shows "\<exists>a\<in>members c. P (xs ! a) \<and> Q (xs ! a)"
proof (rule ccontr)
  let ?A = "{i \<in> members c. P (xs ! i)}" and ?B = "{i \<in> members c. Q (xs ! i)}"
  assume "\<not> ?thesis"
  then have "?A \<inter> ?B = {}" by blast
  then have "stake_of c ?A + stake_of c ?B = stake_of c (?A \<union> ?B)"
    unfolding stake_of_def by (subst sum.union_disjoint) auto
  also have "\<dots> \<le> stake_of c (members c)" by (rule stake_of_mono) auto
  finally show False using assms by (simp add: stake_where_def committee_wf_def)
qed

text \<open>A quorum that satisfies \<open>P\<close> has an honest member.\<close>

lemma honest_inside:
  assumes "committee_wf c" and "faulty_ok c F" and "quorum_threshold c \<le> stake_where c xs P"
  shows "\<exists>a\<in>members c. a \<notin> F \<and> P (xs ! a)"
proof (rule ccontr)
  assume "\<not> ?thesis"
  then have "{i \<in> members c. P (xs ! i)} \<subseteq> F" by blast
  then have "stake_where c xs P \<le> stake_of c F"
    unfolding stake_where_def using assms(2) by (intro stake_of_mono) (auto simp: faulty_ok_def)
  also have "\<dots> \<le> fault_tolerance c" using assms(2) by (simp add: faulty_ok_def)
  finally show False using assms(1,3) by (simp add: committee_wf_def)
qed

section \<open>Bounds\<close>

lemma rev_sort_descending: "sorted_wrt (\<lambda>p p'. p' \<le> p) (rev (sort (ps :: (nat \<times> nat) list)))"
  using sorted_sort [of ps] by (simp add: sorted_wrt_rev)

text \<open>A bound lies at or below the low quorum round exactly when a quorum is at or above it.\<close>

lemma low_quorum_iff:
  assumes "stake_where c xs (\<lambda>x. low < x) < quorum_threshold c" and "quorum_threshold c \<le> stake_where c xs (\<lambda>x. low \<le> x)"
  shows "r \<le> low \<longleftrightarrow> quorum_threshold c \<le> stake_where c xs (\<lambda>x. r \<le> x)"
proof
  assume "r \<le> low"
  then have "stake_where c xs (\<lambda>x. low \<le> x) \<le> stake_where c xs (\<lambda>x. r \<le> x)"
    unfolding stake_where_def by (intro stake_of_mono) auto
  then show "quorum_threshold c \<le> stake_where c xs (\<lambda>x. r \<le> x)" using assms(2) by simp
next
  assume q: "quorum_threshold c \<le> stake_where c xs (\<lambda>x. r \<le> x)"
  show "r \<le> low"
  proof (rule ccontr)
    assume "\<not> r \<le> low"
    then have "stake_where c xs (\<lambda>x. r \<le> x) \<le> stake_where c xs (\<lambda>x. low < x)"
      unfolding stake_where_def by (intro stake_of_mono) auto
    then show False using q assms(1) by simp
  qed
qed

end
