(* ===== verification/Round_Tracker.thy ===== *)
theory Round_Tracker
  imports Quorum_Scan
begin

text \<open>
  The round tracker of \<open>round_tracker.rs\<close>: what rounds each authority is known to have accepted and
  received from every other, the quorum rounds computed from them, and the propagation delay of
  own blocks. Indexing out of bounds and overflowing arithmetic is \<open>None\<close>; of the metrics only
  the subtraction that can underflow is kept.
\<close>

section \<open>State and updates\<close>

type_synonym quorum_round = "round \<times> round"

record round_tracker =
  rt_context :: consensus_context
  rt_block_accepted :: "round list list"
  rt_probed_accepted :: "round list list"
  rt_probed_received :: "round list list"
  rt_local_received :: "round list"

definition RoundTracker_new :: "consensus_context \<Rightarrow> round list \<Rightarrow> round_tracker option" where
  "RoundTracker_new ctx initial_received_rounds = (
     let size = committee_size (ctx_committee ctx); zeros = replicate size (replicate size 0) in do {
       local_received \<leftarrow> (if initial_received_rounds = [] then Some (replicate size 0)
         else do { rassert (length initial_received_rounds = size); Some initial_received_rounds });
       Some \<lparr>rt_context = ctx, rt_block_accepted = zeros, rt_probed_accepted = zeros,
             rt_probed_received = zeros, rt_local_received = local_received\<rparr>
     })"

definition raise_round :: "authority_index \<Rightarrow> round \<Rightarrow> round list \<Rightarrow> round list option" where
  "raise_round a r rounds = do {
     old \<leftarrow> vec_get rounds a;
     vec_set rounds a (max old r)
   }"

definition raise_accepted :: "authority_index \<Rightarrow> authority_index \<times> round \<Rightarrow> round list list \<Rightarrow> round list list option" where
  "raise_accepted author = (\<lambda>(a, r) rows. do {
     row \<leftarrow> vec_get rows author;
     row' \<leftarrow> raise_round a r row;
     vec_set rows author row'
   })"

definition update_from_verified_block :: "extended_block \<Rightarrow> round_tracker \<Rightarrow> round_tracker option" where
  "update_from_verified_block extended_block rt = do {
     let block = eb_block extended_block;
     let author = vb_author block;
     local_received \<leftarrow> raise_round author (vb_round block) (rt_local_received rt);
     rows1 \<leftarrow> raise_accepted author (author, vb_round block) (rt_block_accepted rt);
     rows2 \<leftarrow> for_each (raise_accepted author) (map (\<lambda>r. (br_author r, br_round r)) (vb_ancestors block)) rows1;
     rows3 \<leftarrow> for_each (raise_accepted author)
       (map (\<lambda>r. (br_author r, br_round r)) (eb_excluded_ancestors extended_block)) rows2;
     Some (rt\<lparr>rt_local_received := local_received, rt_block_accepted := rows3\<rparr>)
   }"

definition update_from_probe :: "round list list \<Rightarrow> round list list \<Rightarrow> round_tracker \<Rightarrow> round_tracker" where
  "update_from_probe accepted_rounds received_rounds rt =
     rt\<lparr>rt_probed_accepted := accepted_rounds, rt_probed_received := received_rounds\<rparr>"

definition local_highest_received_rounds :: "round_tracker \<Rightarrow> round list" where
  "local_highest_received_rounds rt = rt_local_received rt"

section \<open>Quorum rounds\<close>

definition compute_quorum_round :: "committee \<Rightarrow> authority_index \<Rightarrow> round list list \<Rightarrow> quorum_round option" where
  "compute_quorum_round c target_index highest_rounds = do {
     targets \<leftarrow> map_opt (\<lambda>(rounds, _). vec_get rounds target_index) (zip highest_rounds (authorities c));
     let rounds_with_stake = sort (stake_pairs c targets);
     low \<leftarrow> quorum_scan (quorum_threshold c) (rev rounds_with_stake) 0;
     high \<leftarrow> quorum_scan (quorum_threshold c) rounds_with_stake 0;
     Some (case low of Some r \<Rightarrow> r | None \<Rightarrow> 0, case high of Some r \<Rightarrow> r | None \<Rightarrow> 0)
   }"

definition highest_accepted_rounds :: "round_tracker \<Rightarrow> round list list" where
  "highest_accepted_rounds rt = map (\<lambda>(probed_rounds, block_rounds). map (\<lambda>(p, b). max p b) (zip probed_rounds block_rounds))
     (zip (rt_probed_accepted rt) (rt_block_accepted rt))"

definition compute_accepted_quorum_rounds :: "round_tracker \<Rightarrow> quorum_round list option" where
  "compute_accepted_quorum_rounds rt = (
     let c = ctx_committee (rt_context rt) in
     map_opt (\<lambda>(peer, _). compute_quorum_round c peer (highest_accepted_rounds rt)) (authorities c))"

definition compute_received_quorum_rounds :: "round_tracker \<Rightarrow> quorum_round list option" where
  "compute_received_quorum_rounds rt = (
     let c = ctx_committee (rt_context rt) in
     map_opt (\<lambda>(peer, _). compute_quorum_round c peer (rt_probed_received rt)) (authorities c))"

definition calculate_propagation_delay :: "round \<Rightarrow> round_tracker \<Rightarrow> round option" where
  "calculate_propagation_delay last_proposed_round rt = do {
     received \<leftarrow> compute_received_quorum_rounds rt;
     accepted \<leftarrow> compute_accepted_quorum_rounds rt;
     _ \<leftarrow> map_opt (\<lambda>(low, high). checked_sub high low) received;
     _ \<leftarrow> map_opt (\<lambda>(low, high). checked_sub high low) accepted;
     (received_low, _) \<leftarrow> vec_get received (own_index (rt_context rt));
     (accepted_low, _) \<leftarrow> vec_get accepted (own_index (rt_context rt));
     Some (min (saturating_sub last_proposed_round received_low) (saturating_sub last_proposed_round accepted_low))
   }"

section \<open>The shape of the tables\<close>

definition square :: "nat \<Rightarrow> 'a list list \<Rightarrow> bool" where
  "square n rows \<longleftrightarrow> length rows = n \<and> (\<forall>row\<in>set rows. length row = n)"

definition tracker_ok :: "round_tracker \<Rightarrow> bool" where
  "tracker_ok rt \<longleftrightarrow> (let n = committee_size (ctx_committee (rt_context rt)) in
     square n (rt_block_accepted rt) \<and> square n (rt_probed_accepted rt) \<and> square n (rt_probed_received rt)
   \<and> length (rt_local_received rt) = n)"

lemma raise_round_eq:
  "raise_round a r row = (if a < length row then Some (row[a := max (row ! a) r]) else None)"
  by (simp add: raise_round_def vec_get_def vec_set_def)

lemma raise_accepted_eq:
  assumes "author < length rows" and "a < length (rows ! author)"
  shows "raise_accepted author (a, r) rows = Some (rows[author := (rows ! author)[a := max (rows ! author ! a) r]])"
  using assms by (simp add: raise_accepted_def vec_get_def vec_set_def raise_round_eq)

text \<open>The row of an author after raising it by a list of references: every entry becomes the maximum
  of its old value and the rounds listed for it.\<close>

definition raised :: "(authority_index \<times> round) list \<Rightarrow> round list \<Rightarrow> round list" where
  "raised rs row = map (\<lambda>a. fold max (map snd (filter (\<lambda>(b, _). b = a) rs)) (row ! a)) [0..<length row]"

lemma length_raised [simp]: "length (raised rs row) = length row"
  by (simp add: raised_def)

lemma raised_nth: "a < length row \<Longrightarrow> raised rs row ! a = fold max (map snd (filter (\<lambda>(b, _). b = a) rs)) (row ! a)"
  by (simp add: raised_def)

lemma raised_Max:
  assumes "a < length row"
  shows "raised rs row ! a = Max (insert (row ! a) {r. (a, r) \<in> set rs})"
proof -
  have "set (map snd (filter (\<lambda>(b, _). b = a) rs)) = {r. (a, r) \<in> set rs}" by force
  then show ?thesis
    unfolding raised_nth [OF assms] Max.set_eq_fold [symmetric] by (simp only: list.set(2))
qed

lemma raised_Nil [simp]: "raised [] row = row"
  by (auto simp: raised_def intro: nth_equalityI)

lemma raised_Cons: "a < length row \<Longrightarrow> raised ((a, r) # rs) row = raised rs (row[a := max (row ! a) r])"
  by (rule nth_equalityI) (auto simp: raised_nth nth_list_update max.commute)

lemma raised_append: "raised (rs @ rs') row = raised rs' (raised rs row)"
  by (rule nth_equalityI) (auto simp: raised_nth)

lemma raise_accepted_each:
  assumes "author < length rows" and "\<forall>(a, _)\<in>set rs. a < length (rows ! author)"
  shows "for_each (raise_accepted author) rs rows = Some (rows[author := raised rs (rows ! author)])"
  using assms
proof (induction rs arbitrary: rows)
  case (Cons p rs)
  obtain a r where p: "p = (a, r)" by force
  have a: "a < length (rows ! author)" using Cons.prems(2) p by simp
  let ?rows = "rows[author := (rows ! author)[a := max (rows ! author ! a) r]]"
  have "for_each (raise_accepted author) rs ?rows = Some (?rows[author := raised rs (?rows ! author)])"
    using Cons.prems by (intro Cons.IH) (auto simp: p)
  then show ?case
    using raise_accepted_eq [OF Cons.prems(1) a] Cons.prems(1) by (simp add: p raised_Cons [OF a])
qed simp

abbreviation claimed_rounds :: "extended_block \<Rightarrow> (authority_index \<times> round) list" where
  "claimed_rounds eb \<equiv> (vb_author (eb_block eb), vb_round (eb_block eb))
     # map (\<lambda>r. (br_author r, br_round r)) (vb_ancestors (eb_block eb) @ eb_excluded_ancestors eb)"

lemma update_from_verified_block_eq:
  assumes "tracker_ok rt" and "vb_author (eb_block eb) < committee_size (ctx_committee (rt_context rt))"
    and "\<forall>r\<in>set (vb_ancestors (eb_block eb) @ eb_excluded_ancestors eb). br_author r < committee_size (ctx_committee (rt_context rt))"
  shows "update_from_verified_block eb rt = (let author = vb_author (eb_block eb) in
     Some (rt\<lparr>rt_local_received := (rt_local_received rt)[author := max (rt_local_received rt ! author) (vb_round (eb_block eb))],
              rt_block_accepted := (rt_block_accepted rt)[author := raised (claimed_rounds eb) (rt_block_accepted rt ! author)]\<rparr>))"
proof -
  let ?n = "committee_size (ctx_committee (rt_context rt))" and ?rows = "rt_block_accepted rt" and ?b = "eb_block eb"
  let ?a = "vb_author ?b" and ?f = "\<lambda>r. (br_author r, br_round r)"
  from assms(1) have len: "length ?rows = ?n" "length (rt_local_received rt) = ?n" "length (?rows ! ?a) = ?n"
    using assms(2) by (auto simp: tracker_ok_def square_def Let_def)
  define row1 where "row1 = (?rows ! ?a)[?a := max (?rows ! ?a ! ?a) (vb_round ?b)]"
  define row2 where "row2 = raised (map ?f (vb_ancestors ?b)) row1"
  define row3 where "row3 = raised (map ?f (eb_excluded_ancestors eb)) row2"
  have rows: "length row1 = ?n" "length row2 = ?n" using len by (simp_all add: row1_def row2_def)
  have step: "for_each (raise_accepted ?a) (map ?f rs) (?rows[?a := row]) = Some (?rows[?a := raised (map ?f rs) row])"
    if "\<forall>r\<in>set rs. br_author r < ?n" "length row = ?n" for rs row
    using raise_accepted_each [of ?a "?rows[?a := row]" "map ?f rs"] that len assms(2) by simp
  have 1: "raise_accepted ?a (?a, vb_round ?b) ?rows = Some (?rows[?a := row1])"
    unfolding row1_def using len assms(2) by (intro raise_accepted_eq) simp_all
  have 2: "for_each (raise_accepted ?a) (map ?f (vb_ancestors ?b)) (?rows[?a := row1]) = Some (?rows[?a := row2])"
    unfolding row2_def using assms(3) rows(1) by (intro step) auto
  have 3: "for_each (raise_accepted ?a) (map ?f (eb_excluded_ancestors eb)) (?rows[?a := row2]) = Some (?rows[?a := row3])"
    unfolding row3_def using assms(3) rows(2) by (intro step) auto
  have "raised (claimed_rounds eb) (?rows ! ?a) = row3"
    using len assms(2) by (simp add: raised_Cons raised_append row1_def row2_def row3_def)
  then show ?thesis
    using len assms(2) unfolding update_from_verified_block_def Let_def raise_round_eq by (simp add: 1 2 3)
qed

lemma square_update: "square n rows \<Longrightarrow> length row = n \<Longrightarrow> square n (rows[i := row])"
  by (auto simp: square_def dest: set_update_subset_insert [THEN subsetD])

section \<open>Correctness of the quorum rounds\<close>

lemma compute_quorum_round_correct:
  assumes "committee_wf c" and "square (committee_size c) rows" and "target < committee_size c"
  defines "xs \<equiv> map (\<lambda>row. row ! target) rows"
  shows "\<exists>low high. compute_quorum_round c target rows = Some (low, high)
     \<and> stake_where c xs (\<lambda>x. low < x) < quorum_threshold c \<and> quorum_threshold c \<le> stake_where c xs (\<lambda>x. low \<le> x)
     \<and> stake_where c xs (\<lambda>x. x < high) < quorum_threshold c \<and> quorum_threshold c \<le> stake_where c xs (\<lambda>x. x \<le> high)"
proof -
  have len: "length xs = committee_size c" using assms(2) by (simp add: xs_def square_def)
  have "length (authorities c) = length rows" using assms(2) by (simp add: authorities_def committee_size_def square_def)
  then have fsts: "map fst (zip rows (authorities c)) = rows" by simp
  have "map_opt (\<lambda>(rounds, _). vec_get rounds target) (zip rows (authorities c))
      = Some (map (\<lambda>p. fst p ! target) (zip rows (authorities c)))"
    using assms(2,3) by (intro map_opt_total) (auto simp: square_def vec_get_def dest!: set_zip_leftD)
  also have "map (\<lambda>p. fst p ! target) (zip rows (authorities c)) = xs"
    unfolding xs_def by (subst (2) fsts [symmetric]) (simp only: map_map comp_def)
  finally have xs: "map_opt (\<lambda>(rounds, _). vec_get rounds target) (zip rows (authorities c)) = Some xs" .
  from quorum_scan_lowest [OF assms(1) len] obtain high where
    h: "quorum_scan (quorum_threshold c) (sort (stake_pairs c xs)) 0 = Some (Some high)"
      "stake_where c xs (\<lambda>x. x < high) < quorum_threshold c" "quorum_threshold c \<le> stake_where c xs (\<lambda>x. x \<le> high)" by blast
  from quorum_scan_highest [OF assms(1) len _ rev_sort_descending] obtain low where
    l: "quorum_scan (quorum_threshold c) (rev (sort (stake_pairs c xs))) 0 = Some (Some low)"
      "stake_where c xs (\<lambda>x. low < x) < quorum_threshold c" "quorum_threshold c \<le> stake_where c xs (\<lambda>x. low \<le> x)" by auto
  show ?thesis
    using xs h l by (intro exI [of _ low] exI [of _ high]) (simp add: compute_quorum_round_def Let_def)
qed

lemma authority_rows:
  assumes "committee_wf c" and "\<And>a. a < committee_size c \<Longrightarrow> f a = Some (g a)"
  shows "map_opt (\<lambda>(peer, _). f peer) (authorities c) = Some (map g [0..<committee_size c])"
proof -
  have "map_opt (\<lambda>(peer, _). f peer) (authorities c) = Some (map (\<lambda>p. g (fst p)) (authorities c))"
    using assms by (intro map_opt_total)
      (auto simp: authorities_def in_set_enumerate_eq committee_size_def committee_wf_def as_u32_id)
  also have "map (\<lambda>p. g (fst p)) (authorities c) = map g (map fst (authorities c))" by simp
  finally show ?thesis by (simp only: authorities_indices [OF assms(1)])
qed

lemma low_below_high:
  assumes "committee_wf c" and "quorum_threshold c \<le> stake_where c xs (\<lambda>x. low \<le> x)"
    and "quorum_threshold c \<le> stake_where c xs (\<lambda>x. x \<le> high)"
  shows "low \<le> high"
proof -
  from overlapping_quorums_meet [OF assms] obtain a where "low \<le> xs ! a" "xs ! a \<le> high" by blast
  then show ?thesis by (rule le_trans)
qed

lemma quorum_rounds_total:
  assumes "committee_wf c" and "square (committee_size c) rows"
  shows "\<exists>qs. map_opt (\<lambda>(peer, _). compute_quorum_round c peer rows) (authorities c) = Some qs
     \<and> length qs = committee_size c
     \<and> (\<forall>(low, high)\<in>set qs. low \<le> high)
     \<and> (\<forall>a<committee_size c. \<forall>r. r \<le> fst (qs ! a)
          \<longleftrightarrow> quorum_threshold c \<le> stake_of c {i \<in> members c. r \<le> rows ! i ! a})"
proof -
  define g where "g a = the (compute_quorum_round c a rows)" for a
  have g: "compute_quorum_round c a rows = Some (g a)" "fst (g a) \<le> snd (g a)"
    "r \<le> fst (g a) \<longleftrightarrow> quorum_threshold c \<le> stake_of c {i \<in> members c. r \<le> rows ! i ! a}"
    if a: "a < committee_size c" for a r
  proof -
    let ?xs = "map (\<lambda>row. row ! a) rows"
    from compute_quorum_round_correct [OF assms a] obtain low high where
      q: "compute_quorum_round c a rows = Some (low, high)"
        "stake_where c ?xs (\<lambda>x. low < x) < quorum_threshold c" "quorum_threshold c \<le> stake_where c ?xs (\<lambda>x. low \<le> x)"
        "quorum_threshold c \<le> stake_where c ?xs (\<lambda>x. x \<le> high)" by blast
    have ga: "g a = (low, high)" using q(1) by (simp add: g_def)
    show "compute_quorum_round c a rows = Some (g a)" using q(1) ga by simp
    show "fst (g a) \<le> snd (g a)" using low_below_high [OF assms(1) q(3,4)] ga by simp
    have "stake_where c ?xs (\<lambda>x. r \<le> x) = stake_of c {i \<in> members c. r \<le> rows ! i ! a}"
      unfolding stake_where_def using assms(2) by (intro arg_cong [of _ _ "stake_of c"]) (auto simp: square_def members_def)
    then show "r \<le> fst (g a) \<longleftrightarrow> quorum_threshold c \<le> stake_of c {i \<in> members c. r \<le> rows ! i ! a}"
      using low_quorum_iff [OF q(2,3), of r] ga by simp
  qed
  show ?thesis
    using authority_rows [OF assms(1) g(1)] g(2,3) by (intro exI [of _ "map g [0..<committee_size c]"]) (auto simp: case_prod_beta)
qed

lemma highest_accepted_square:
  assumes "tracker_ok rt"
  defines "n \<equiv> committee_size (ctx_committee (rt_context rt))"
  shows "square n (highest_accepted_rounds rt)"
    and "i < n \<Longrightarrow> a < n \<Longrightarrow> highest_accepted_rounds rt ! i ! a = max (rt_probed_accepted rt ! i ! a) (rt_block_accepted rt ! i ! a)"
proof -
  have sq: "square n (rt_probed_accepted rt)" "square n (rt_block_accepted rt)"
    using assms(1) by (simp_all add: tracker_ok_def Let_def n_def)
  then show "square n (highest_accepted_rounds rt)"
    by (auto simp: square_def highest_accepted_rounds_def set_zip)
  show "i < n \<Longrightarrow> a < n \<Longrightarrow> highest_accepted_rounds rt ! i ! a = max (rt_probed_accepted rt ! i ! a) (rt_block_accepted rt ! i ! a)"
    using sq by (simp add: square_def highest_accepted_rounds_def)
qed

section \<open>Properties\<close>

text \<open>
  C11. Quorum rounds are Byzantine fault tolerant: for tables of the size of the committee the
  computation does not panic, the low round is at most the high round, a quorum has accepted the
  low round, and whatever authorities of at most \<open>f\<close> stake report, both rounds lie between the
  lowest and the highest round reported by an honest authority.
\<close>

theorem quorum_round_between_honest_rounds:
  assumes "committee_wf c" and "square (committee_size c) rows" and "target < committee_size c" and "faulty_ok c F"
  shows "\<exists>low high. compute_quorum_round c target rows = Some (low, high) \<and> low \<le> high
     \<and> quorum_threshold c \<le> stake_of c {a \<in> members c. low \<le> rows ! a ! target}
     \<and> (\<exists>a\<in>members c. a \<notin> F \<and> rows ! a ! target \<le> low) \<and> (\<exists>a\<in>members c. a \<notin> F \<and> high \<le> rows ! a ! target)"
proof -
  let ?xs = "map (\<lambda>row. row ! target) rows"
  from compute_quorum_round_correct [OF assms(1-3)] obtain low high where
    q: "compute_quorum_round c target rows = Some (low, high)"
      "stake_where c ?xs (\<lambda>x. low < x) < quorum_threshold c" "quorum_threshold c \<le> stake_where c ?xs (\<lambda>x. low \<le> x)"
      "stake_where c ?xs (\<lambda>x. x < high) < quorum_threshold c" "quorum_threshold c \<le> stake_where c ?xs (\<lambda>x. x \<le> high)" by blast
  have nth: "?xs ! a = rows ! a ! target" if "a \<in> members c" for a using that assms(2) by (simp add: members_def square_def)
  have "{a \<in> members c. low \<le> ?xs ! a} = {a \<in> members c. low \<le> rows ! a ! target}" using nth by auto
  then have "quorum_threshold c \<le> stake_of c {a \<in> members c. low \<le> rows ! a ! target}" using q(3) by (simp add: stake_where_def)
  then show ?thesis
    using q(1) low_below_high [OF assms(1) q(3,5)] honest_outside [OF assms(1,4) q(2)] honest_outside [OF assms(1,4) q(4)] nth
    by (auto simp: not_less)
qed

theorem quorum_round_between_honest_rounds_witness:
  "\<exists>low high. compute_quorum_round sample_committee 0 [[5, 5, 5, 5], [4, 4, 4, 4], [9, 9, 9, 9], [3, 3, 3, 3]] = Some (low, high)
     \<and> low \<le> high \<and> 3 \<le> low \<and> high \<le> 5"
proof -
  let ?rows = "[[5, 5, 5, 5], [4, 4, 4, 4], [9, 9, 9, 9], [3, 3, 3, 3]] :: nat list list"
  have "faulty_ok sample_committee {2}"
    by (simp add: faulty_ok_def fault_tolerance_def stake_of_def sample_stake_at)
  moreover have "square (committee_size sample_committee) ?rows" by (simp add: square_def)
  ultimately obtain low high where q: "compute_quorum_round sample_committee 0 ?rows = Some (low, high)" "low \<le> high"
    "\<exists>a\<in>members sample_committee. a \<notin> {2} \<and> ?rows ! a ! 0 \<le> low"
    "\<exists>a\<in>members sample_committee. a \<notin> {2} \<and> high \<le> ?rows ! a ! 0"
    using quorum_round_between_honest_rounds [OF sample_committee_wf, of ?rows 0 "{2}"] by auto
  have "a \<in> {0, 1, 3}" if "a \<in> members sample_committee" "a \<notin> {2}" for a
    using that by (auto simp: members_def)
  then show ?thesis using q by (intro exI [of _ low] exI [of _ high]) (auto, fastforce+)
qed

text \<open>
  C12. The propagation delay of own blocks is defined and at most the last proposed round, and it is
  zero exactly when a quorum has received or a quorum has accepted own blocks up to the last
  proposed round.
\<close>

theorem propagation_delay_zero_iff_quorum:
  assumes "committee_wf (ctx_committee (rt_context rt))" and "tracker_ok rt"
    and "own_index (rt_context rt) < committee_size (ctx_committee (rt_context rt))"
  shows "\<exists>delay. calculate_propagation_delay last_proposed rt = Some delay \<and> delay \<le> last_proposed
     \<and> (delay = 0 \<longleftrightarrow> (let c = ctx_committee (rt_context rt); own = own_index (rt_context rt) in
          reached_quorum c (stake_of c {a \<in> members c. last_proposed \<le> rt_probed_received rt ! a ! own})
        \<or> reached_quorum c (stake_of c {a \<in> members c.
            last_proposed \<le> max (rt_probed_accepted rt ! a ! own) (rt_block_accepted rt ! a ! own)})))"
proof -
  let ?c = "ctx_committee (rt_context rt)" and ?own = "own_index (rt_context rt)"
  have "square (committee_size ?c) (rt_probed_received rt)" using assms(2) by (simp add: tracker_ok_def Let_def)
  from quorum_rounds_total [OF assms(1) this] obtain rs where
    r: "compute_received_quorum_rounds rt = Some rs" "length rs = committee_size ?c" "\<forall>(low, high)\<in>set rs. low \<le> high"
      "last_proposed \<le> fst (rs ! ?own) \<longleftrightarrow> quorum_threshold ?c \<le> stake_of ?c {i \<in> members ?c. last_proposed \<le> rt_probed_received rt ! i ! ?own}"
    using assms(3) by (auto simp: compute_received_quorum_rounds_def Let_def)
  note sq = highest_accepted_square [OF assms(2)]
  from quorum_rounds_total [OF assms(1) sq(1)] obtain as where
    a: "compute_accepted_quorum_rounds rt = Some as" "length as = committee_size ?c" "\<forall>(low, high)\<in>set as. low \<le> high"
      "last_proposed \<le> fst (as ! ?own) \<longleftrightarrow> quorum_threshold ?c \<le> stake_of ?c {i \<in> members ?c. last_proposed \<le> highest_accepted_rounds rt ! i ! ?own}"
    using assms(3) by (auto simp: compute_accepted_quorum_rounds_def Let_def)
  have "{i \<in> members ?c. last_proposed \<le> highest_accepted_rounds rt ! i ! ?own}
      = {i \<in> members ?c. last_proposed \<le> max (rt_probed_accepted rt ! i ! ?own) (rt_block_accepted rt ! i ! ?own)}"
    using sq(2) assms(3) by (auto simp: members_def)
  note acc = a(4) [unfolded this]
  have gaps: "map_opt (\<lambda>(low, high). checked_sub high low) qs = Some (map (\<lambda>(low, high). high - low) qs)"
    if "\<forall>(low, high)\<in>set qs. low \<le> high" for qs
    using that by (intro map_opt_total) (auto simp: checked_sub_def)
  have own: "vec_get rs ?own = Some (rs ! ?own)" "vec_get as ?own = Some (as ! ?own)"
    using r(2) a(2) assms(3) by (simp_all add: vec_get_def)
  show ?thesis
    using r(1,3,4) a(1,3) acc own gaps
    by (auto simp: calculate_propagation_delay_def reached_quorum_def Let_def case_prod_beta min_def not_le)
qed

definition sample_tracker :: round_tracker where
  "sample_tracker = the (RoundTracker_new sample_context [])"

lemma sample_tracker_fields [simp]:
  "rt_context sample_tracker = sample_context" "rt_block_accepted sample_tracker = replicate 4 (replicate 4 0)"
  "rt_probed_accepted sample_tracker = replicate 4 (replicate 4 0)"
  "rt_probed_received sample_tracker = replicate 4 (replicate 4 0)" "rt_local_received sample_tracker = replicate 4 0"
  by (simp_all add: sample_tracker_def RoundTracker_new_def Let_def)

lemma sample_tracker_ok: "tracker_ok sample_tracker"
  by (simp add: tracker_ok_def square_def Let_def)

theorem propagation_delay_zero_iff_quorum_witness:
  "\<exists>delay. calculate_propagation_delay 3 sample_tracker = Some delay \<and> 0 < delay \<and> delay \<le> 3"
proof -
  have "{a \<in> members sample_committee. 3 \<le> replicate 4 (replicate 4 (0 :: nat)) ! a ! 0} = {}" by (auto simp: members_def)
  then have none: "\<not> reached_quorum sample_committee (stake_of sample_committee
      {a \<in> members sample_committee. 3 \<le> replicate 4 (replicate 4 (0 :: nat)) ! a ! 0})"
    by (simp only: reached_quorum_def stake_of_def sum.empty) simp
  show ?thesis
    using propagation_delay_zero_iff_quorum [of sample_tracker 3] sample_tracker_ok sample_committee_wf none by auto
qed

text \<open>
  C13. The tables keep their type: the constructor builds tables of the size of the committee, and
  recording a block whose author and references belong to the committee does not panic, keeps the
  shape, sets every entry of the author's row to the maximum of its old value and the rounds the
  block claims for that authority, and changes no other row.
\<close>

theorem tracker_update_keeps_shape:
  assumes "tracker_ok rt" and "vb_author (eb_block eb) < committee_size (ctx_committee (rt_context rt))"
    and "\<forall>r\<in>set (vb_ancestors (eb_block eb) @ eb_excluded_ancestors eb). br_author r < committee_size (ctx_committee (rt_context rt))"
  shows "\<exists>rt'. update_from_verified_block eb rt = Some rt' \<and> tracker_ok rt' \<and> rt_context rt' = rt_context rt
     \<and> (\<forall>i a. i < committee_size (ctx_committee (rt_context rt)) \<and> a < committee_size (ctx_committee (rt_context rt)) \<longrightarrow>
          rt_block_accepted rt' ! i ! a = (if i = vb_author (eb_block eb)
            then Max (insert (rt_block_accepted rt ! i ! a) {r. (a, r) \<in> set (claimed_rounds eb)})
            else rt_block_accepted rt ! i ! a))"
proof -
  let ?n = "committee_size (ctx_committee (rt_context rt))" and ?a = "vb_author (eb_block eb)" and ?rows = "rt_block_accepted rt"
  have shape: "square ?n ?rows" "length (?rows ! ?a) = ?n" "length ?rows = ?n"
    using assms(1,2) by (auto simp: tracker_ok_def square_def Let_def)
  let ?rt = "rt\<lparr>rt_local_received := (rt_local_received rt)[?a := max (rt_local_received rt ! ?a) (vb_round (eb_block eb))],
      rt_block_accepted := ?rows[?a := raised (claimed_rounds eb) (?rows ! ?a)]\<rparr>"
  have upd: "update_from_verified_block eb rt = Some ?rt"
    using update_from_verified_block_eq [OF assms] by (simp add: Let_def)
  have ok: "tracker_ok ?rt"
    using assms(1) square_update [OF shape(1), of "raised (claimed_rounds eb) (?rows ! ?a)" ?a] shape(2)
    by (simp add: tracker_ok_def Let_def)
  have "rt_block_accepted ?rt ! ?a ! a = Max (insert (?rows ! ?a ! a) {r. (a, r) \<in> set (claimed_rounds eb)})" if "a < ?n" for a
    using raised_Max [of a "?rows ! ?a" "claimed_rounds eb"] that shape assms(2) by simp
  then show ?thesis using upd ok by (intro exI [of _ ?rt]) auto
qed

theorem tracker_update_keeps_shape_witness:
  "\<exists>rt'. update_from_verified_block \<lparr>eb_block = sample_vblock 7 2 [BlockRef 6 1 0], eb_excluded_ancestors = [BlockRef 5 3 0]\<rparr> sample_tracker
      = Some rt' \<and> tracker_ok rt' \<and> rt_block_accepted rt' ! 2 ! 1 = 6 \<and> rt_block_accepted rt' ! 2 ! 3 = 5"
proof -
  let ?eb = "\<lparr>eb_block = sample_vblock 7 2 [BlockRef 6 1 0], eb_excluded_ancestors = [BlockRef 5 3 0]\<rparr>"
  obtain rt' where u: "update_from_verified_block ?eb sample_tracker = Some rt'" "tracker_ok rt'"
    "\<And>i a. i < 4 \<Longrightarrow> a < 4 \<Longrightarrow> rt_block_accepted rt' ! i ! a = (if i = vb_author (eb_block ?eb)
       then Max (insert (rt_block_accepted sample_tracker ! i ! a) {r. (a, r) \<in> set (claimed_rounds ?eb)})
       else rt_block_accepted sample_tracker ! i ! a)"
    using tracker_update_keeps_shape [OF sample_tracker_ok, of ?eb] by auto
  have "{r. (1, r) \<in> set (claimed_rounds ?eb)} = {6}" "{r. (3, r) \<in> set (claimed_rounds ?eb)} = {5}" by auto
  then show ?thesis using u(1,2) u(3) [of 2 1] u(3) [of 2 3] by simp
qed

end
