(* ===== verification/Ancestor_State.thy ===== *)
theory Ancestor_State
  imports Round_Tracker
begin

text \<open>
  The ancestor state manager of \<open>ancestor.rs\<close>: authorities with low propagation scores are excluded
  from block proposals, within a budget of stake, and every change is locked for a number of
  rounds. The clock round that the code reads from the DAG state is an argument.
\<close>

section \<open>State\<close>

datatype ancestor_state = Include | Exclude nat

record ancestor_info =
  ai_state :: ancestor_state
  ai_lock_until_round :: round

definition AncestorInfo_new :: ancestor_info where
  "AncestorInfo_new = \<lparr>ai_state = Include, ai_lock_until_round = 0\<rparr>"

definition is_locked :: "ancestor_info \<Rightarrow> round \<Rightarrow> bool" where
  "is_locked info current_clock_round = (ai_lock_until_round info \<ge> current_clock_round)"

definition set_lock :: "round \<Rightarrow> ancestor_info \<Rightarrow> ancestor_info" where
  "set_lock lock_until info = info\<lparr>ai_lock_until_round := lock_until\<rparr>"

record state_transition =
  st_authority_id :: authority_index
  st_score :: nat
  st_stake :: stake
  st_high_quorum_round :: round

record ancestor_state_manager =
  asm_context :: consensus_context
  asm_state_map :: "ancestor_info list"
  excluded_nodes_stake_threshold :: stake
  total_excluded_stake :: stake
  propagation_scores :: reputation_scores

definition STATE_LOCK_CLOCK_ROUNDS :: round where
  "STATE_LOCK_CLOCK_ROUNDS = 450"

definition SCORE_EXCLUSION_THRESHOLD_PERCENTAGE :: nat where
  "SCORE_EXCLUSION_THRESHOLD_PERCENTAGE = 20"

definition AncestorStateManager_new :: "consensus_context \<Rightarrow> ancestor_state_manager option" where
  "AncestorStateManager_new ctx = do {
     doubled \<leftarrow> u64_mul 2 (bad_nodes_stake_threshold (protocol_config ctx));
     product \<leftarrow> u64_mul (doubled div 3) (total_stake (ctx_committee ctx));
     Some \<lparr>asm_context = ctx, asm_state_map = replicate (committee_size (ctx_committee ctx)) AncestorInfo_new,
           excluded_nodes_stake_threshold = product div 100, total_excluded_stake = 0,
           propagation_scores = ReputationScores_default\<rparr>
   }"

definition set_propagation_scores :: "reputation_scores \<Rightarrow> ancestor_state_manager \<Rightarrow> ancestor_state_manager" where
  "set_propagation_scores scores m = m\<lparr>propagation_scores := scores\<rparr>"

definition get_ancestor_states :: "ancestor_state_manager \<Rightarrow> ancestor_state list" where
  "get_ancestor_states m = map ai_state (asm_state_map m)"

section \<open>Updating the states\<close>

definition calculate_network_high_quorum_round :: "quorum_round list \<Rightarrow> ancestor_state_manager \<Rightarrow> round option" where
  "calculate_network_high_quorum_round accepted_quorum_rounds m = (
     let c = ctx_committee (asm_context m) in do {
       found \<leftarrow> quorum_scan (quorum_threshold c) (sort (stake_pairs c (map snd accepted_quorum_rounds))) 0;
       Some (case found of Some r \<Rightarrow> r | None \<Rightarrow> 0)
     })"

definition collect_transition ::
    "round \<Rightarrow> nat \<Rightarrow> round \<Rightarrow> quorum_round list \<Rightarrow> ancestor_state_manager \<Rightarrow> nat \<times> nat
       \<Rightarrow> state_transition list \<times> state_transition list \<Rightarrow> (state_transition list \<times> state_transition list) option" where
  "collect_transition clock_round low_score_threshold network_high quorum_rounds m = (\<lambda>(idx, score) (to_include, to_exclude). do {
     authority_id \<leftarrow> to_authority_index (ctx_committee (asm_context m)) idx;
     info \<leftarrow> vec_get (asm_state_map m) idx;
     (_, high) \<leftarrow> vec_get quorum_rounds idx;
     authority \<leftarrow> committee_authority (ctx_committee (asm_context m)) authority_id;
     let transition = \<lparr>st_authority_id = authority_id, st_score = score, st_stake = auth_stake authority, st_high_quorum_round = high\<rparr>;
     Some (if is_locked info clock_round then (to_include, to_exclude)
           else case ai_state info of
             Include \<Rightarrow> if score \<le> low_score_threshold then (to_include, to_exclude @ [transition]) else (to_include, to_exclude)
           | Exclude _ \<Rightarrow> if score > low_score_threshold \<or> high \<ge> network_high
                          then (to_include @ [transition], to_exclude) else (to_include, to_exclude))
   })"

definition apply_state_change ::
    "round \<Rightarrow> ancestor_state \<Rightarrow> state_transition \<Rightarrow> ancestor_state_manager \<Rightarrow> ancestor_state_manager option" where
  "apply_state_change clock_round new_state transition m = do {
     _ \<leftarrow> committee_authority (ctx_committee (asm_context m)) (st_authority_id transition);
     info \<leftarrow> vec_get (asm_state_map m) (st_authority_id transition);
     excluded \<leftarrow> (case (ai_state info, new_state) of
         (Exclude _, Include) \<Rightarrow> checked_sub (total_excluded_stake m) (st_stake transition)
       | (Include, Exclude _) \<Rightarrow> u64_add (total_excluded_stake m) (st_stake transition)
       | _ \<Rightarrow> None);
     lock_until \<leftarrow> u32_add clock_round STATE_LOCK_CLOCK_ROUNDS;
     states \<leftarrow> vec_set (asm_state_map m) (st_authority_id transition) (set_lock lock_until (info\<lparr>ai_state := new_state\<rparr>));
     Some (m\<lparr>total_excluded_stake := excluded, asm_state_map := states\<rparr>)
   }"

definition try_exclude :: "round \<Rightarrow> state_transition \<Rightarrow> ancestor_state_manager \<Rightarrow> ancestor_state_manager option" where
  "try_exclude clock_round transition m = do {
     excluded \<leftarrow> u64_add (total_excluded_stake m) (st_stake transition);
     (if excluded \<le> excluded_nodes_stake_threshold m
      then apply_state_change clock_round (Exclude (st_score transition)) transition m else Some m)
   }"

definition update_all_ancestors_state ::
    "round \<Rightarrow> quorum_round list \<Rightarrow> ancestor_state_manager \<Rightarrow> ancestor_state_manager option" where
  "update_all_ancestors_state clock_round accepted_quorum_rounds m = do {
     network_high \<leftarrow> calculate_network_high_quorum_round accepted_quorum_rounds m;
     product \<leftarrow> u64_mul (highest_score (propagation_scores m)) SCORE_EXCLUSION_THRESHOLD_PERCENTAGE;
     (to_include, to_exclude) \<leftarrow> for_each (collect_transition clock_round (product div 100) network_high accepted_quorum_rounds m)
       (enumerate 0 (scores_per_authority (propagation_scores m))) ([], []);
     m1 \<leftarrow> for_each (apply_state_change clock_round Include) to_include m;
     for_each (try_exclude clock_round) (sort_key st_score to_exclude) m1
   }"

section \<open>The invariant\<close>

definition excluded_authorities :: "ancestor_state_manager \<Rightarrow> authority_index set" where
  "excluded_authorities m = {a \<in> members (ctx_committee (asm_context m)). ai_state (asm_state_map m ! a) \<noteq> Include}"

definition asm_ok :: "ancestor_state_manager \<Rightarrow> bool" where
  "asm_ok m \<longleftrightarrow> committee_wf (ctx_committee (asm_context m))
     \<and> length (asm_state_map m) = committee_size (ctx_committee (asm_context m))
     \<and> total_excluded_stake m = stake_of (ctx_committee (asm_context m)) (excluded_authorities m)
     \<and> total_excluded_stake m \<le> excluded_nodes_stake_threshold m"

text \<open>A transition of a committee member with its stake.\<close>

definition transition_ok :: "ancestor_state_manager \<Rightarrow> state_transition \<Rightarrow> bool" where
  "transition_ok m t \<longleftrightarrow> st_authority_id t < committee_size (ctx_committee (asm_context m))
     \<and> st_stake t = stake_at (ctx_committee (asm_context m)) (st_authority_id t)"

lemma finite_excluded [simp]: "finite (excluded_authorities m)"
  by (simp add: excluded_authorities_def)

lemma transition_lookup:
  assumes "asm_ok m" and "transition_ok m t"
  shows "\<exists>a. committee_authority (ctx_committee (asm_context m)) (st_authority_id t) = Some a"
    and "vec_get (asm_state_map m) (st_authority_id t) = Some (asm_state_map m ! st_authority_id t)"
    and "vec_set (asm_state_map m) (st_authority_id t) x = Some ((asm_state_map m)[st_authority_id t := x])"
  using assms by (auto simp: asm_ok_def transition_ok_def committee_authority_def vec_get_def vec_set_def committee_size_def)

lemma set_lock_eq: "set_lock l (info\<lparr>ai_state := s\<rparr>) = \<lparr>ai_state = s, ai_lock_until_round = l\<rparr>" for info :: ancestor_info
  by (cases info) (simp add: set_lock_def)

text \<open>Only the state and lock of one authority change.\<close>

definition changed_one :: "round \<Rightarrow> authority_index \<Rightarrow> ancestor_state \<Rightarrow> ancestor_state_manager \<Rightarrow> ancestor_state_manager \<Rightarrow> bool" where
  "changed_one clock a s m m' \<longleftrightarrow> asm_context m' = asm_context m \<and> propagation_scores m' = propagation_scores m
     \<and> excluded_nodes_stake_threshold m' = excluded_nodes_stake_threshold m
     \<and> asm_state_map m' = (asm_state_map m)[a := \<lparr>ai_state = s, ai_lock_until_round = clock + STATE_LOCK_CLOCK_ROUNDS\<rparr>]"

lemma apply_include:
  assumes "asm_ok m" and "transition_ok m t" and "st_authority_id t \<in> excluded_authorities m"
    and "clock + STATE_LOCK_CLOCK_ROUNDS \<le> u32_max"
  shows "\<exists>m'. apply_state_change clock Include t m = Some m' \<and> asm_ok m' \<and> changed_one clock (st_authority_id t) Include m m'"
proof -
  let ?a = "st_authority_id t" and ?c = "ctx_committee (asm_context m)"
  let ?m = "m\<lparr>total_excluded_stake := total_excluded_stake m - st_stake t,
    asm_state_map := (asm_state_map m)[?a := \<lparr>ai_state = Include, ai_lock_until_round = clock + STATE_LOCK_CLOCK_ROUNDS\<rparr>]\<rparr>"
  obtain s where s: "ai_state (asm_state_map m ! ?a) = Exclude s"
    using assms(3) by (cases "ai_state (asm_state_map m ! ?a)") (auto simp: excluded_authorities_def)
  have total: "total_excluded_stake m = stake_at ?c ?a + stake_of ?c (excluded_authorities m - {?a})"
    using assms(1,3) stake_of_insert [of "excluded_authorities m - {?a}" ?a ?c] by (simp add: asm_ok_def insert_absorb)
  have "excluded_authorities ?m = excluded_authorities m - {?a}"
    using assms(1,2) by (auto simp: excluded_authorities_def asm_ok_def transition_ok_def members_def nth_list_update)
  moreover have "total_excluded_stake m - st_stake t = stake_of ?c (excluded_authorities m - {?a})"
    "total_excluded_stake m - st_stake t \<le> excluded_nodes_stake_threshold m"
    using total assms(1,2) by (auto simp: asm_ok_def transition_ok_def)
  ultimately have "asm_ok ?m" using assms(1) by (simp add: asm_ok_def)
  moreover have "checked_sub (total_excluded_stake m) (st_stake t) = Some (total_excluded_stake m - st_stake t)"
    using total assms(2) by (simp add: checked_sub_def transition_ok_def)
  ultimately show ?thesis
    using transition_lookup [OF assms(1,2)] s assms(4)
    by (intro exI [of _ ?m]) (auto simp: apply_state_change_def u32_add_def set_lock_eq changed_one_def)
qed

lemma apply_exclude:
  assumes "asm_ok m" and "transition_ok m t" and "st_authority_id t \<notin> excluded_authorities m"
    and "clock + STATE_LOCK_CLOCK_ROUNDS \<le> u32_max"
  shows "u64_add (total_excluded_stake m) (st_stake t) = Some (total_excluded_stake m + st_stake t)"
    and "total_excluded_stake m + st_stake t \<le> excluded_nodes_stake_threshold m \<Longrightarrow>
      \<exists>m'. apply_state_change clock (Exclude s) t m = Some m' \<and> asm_ok m' \<and> changed_one clock (st_authority_id t) (Exclude s) m m'
         \<and> total_excluded_stake m' = total_excluded_stake m + st_stake t"
proof -
  let ?a = "st_authority_id t" and ?c = "ctx_committee (asm_context m)"
  let ?m = "m\<lparr>total_excluded_stake := total_excluded_stake m + st_stake t,
    asm_state_map := (asm_state_map m)[?a := \<lparr>ai_state = Exclude s, ai_lock_until_round = clock + STATE_LOCK_CLOCK_ROUNDS\<rparr>]\<rparr>"
  have inc: "ai_state (asm_state_map m ! ?a) = Include" and mem: "?a \<in> members ?c"
    using assms(2,3) by (auto simp: excluded_authorities_def transition_ok_def)
  have sum: "total_excluded_stake m + st_stake t = stake_of ?c (insert ?a (excluded_authorities m))"
    using assms(1-3) by (simp add: stake_of_insert asm_ok_def transition_ok_def)
  also have "\<dots> \<le> total_stake ?c"
    using mem assms(1) by (intro committee_wf_stake_le_total) (auto simp: asm_ok_def excluded_authorities_def)
  finally show add: "u64_add (total_excluded_stake m) (st_stake t) = Some (total_excluded_stake m + st_stake t)"
    using assms(1) by (simp add: u64_add_def asm_ok_def committee_wf_def)
  assume le: "total_excluded_stake m + st_stake t \<le> excluded_nodes_stake_threshold m"
  have "excluded_authorities ?m = insert ?a (excluded_authorities m)"
    using assms(1) mem by (auto simp: excluded_authorities_def asm_ok_def nth_list_update split: if_splits)
  then have "asm_ok ?m" using assms(1) sum le by (simp add: asm_ok_def)
  then show "\<exists>m'. apply_state_change clock (Exclude s) t m = Some m' \<and> asm_ok m' \<and> changed_one clock ?a (Exclude s) m m'
         \<and> total_excluded_stake m' = total_excluded_stake m + st_stake t"
    using transition_lookup [OF assms(1,2)] inc add assms(4)
    by (intro exI [of _ ?m]) (auto simp: apply_state_change_def u32_add_def set_lock_eq changed_one_def)
qed

section \<open>The two passes\<close>

definition same_setup :: "ancestor_state_manager \<Rightarrow> ancestor_state_manager \<Rightarrow> bool" where
  "same_setup m m' \<longleftrightarrow> asm_context m' = asm_context m \<and> propagation_scores m' = propagation_scores m
     \<and> excluded_nodes_stake_threshold m' = excluded_nodes_stake_threshold m"

lemma changed_one_facts:
  assumes "changed_one clock a s m m'" and "asm_ok m" and "a < committee_size (ctx_committee (asm_context m))"
  shows "same_setup m m'"
    and "asm_state_map m' ! b = (if b = a then \<lparr>ai_state = s, ai_lock_until_round = clock + STATE_LOCK_CLOCK_ROUNDS\<rparr> else asm_state_map m ! b)"
    and "transition_ok m' t = transition_ok m t"
    and "b \<noteq> a \<Longrightarrow> b \<in> excluded_authorities m' \<longleftrightarrow> b \<in> excluded_authorities m"
  using assms by (auto simp: changed_one_def same_setup_def asm_ok_def transition_ok_def excluded_authorities_def nth_list_update)

lemma include_pass:
  assumes "asm_ok m" and "\<And>t. t \<in> set ts \<Longrightarrow> transition_ok m t \<and> st_authority_id t \<in> excluded_authorities m"
    and "distinct (map st_authority_id ts)" and "clock + STATE_LOCK_CLOCK_ROUNDS \<le> u32_max"
  shows "\<exists>m'. for_each (apply_state_change clock Include) ts m = Some m' \<and> asm_ok m' \<and> same_setup m m'
     \<and> (\<forall>b. asm_state_map m' ! b = (if b \<in> st_authority_id ` set ts
          then \<lparr>ai_state = Include, ai_lock_until_round = clock + STATE_LOCK_CLOCK_ROUNDS\<rparr> else asm_state_map m ! b))"
  using assms(1-3)
proof (induction ts arbitrary: m)
  case Nil
  then show ?case by (simp add: same_setup_def)
next
  case (Cons t ts)
  then obtain m1 where m1: "apply_state_change clock Include t m = Some m1" "asm_ok m1" "changed_one clock (st_authority_id t) Include m m1"
    using apply_include [of m t clock] assms(4) by auto
  note f = changed_one_facts [OF m1(3) Cons.prems(1)]
  have lt: "st_authority_id t < committee_size (ctx_committee (asm_context m))" using Cons.prems(2) by (simp add: transition_ok_def)
  have "transition_ok m1 u \<and> st_authority_id u \<in> excluded_authorities m1" if "u \<in> set ts" for u
    using Cons.prems(2) [of u] Cons.prems(3) that f(3,4) [OF lt] by (auto simp: image_iff)
  from Cons.IH [OF m1(2) this] Cons.prems(3) obtain m' where
    "for_each (apply_state_change clock Include) ts m1 = Some m'" "asm_ok m'" "same_setup m1 m'"
    "\<forall>b. asm_state_map m' ! b = (if b \<in> st_authority_id ` set ts
          then \<lparr>ai_state = Include, ai_lock_until_round = clock + STATE_LOCK_CLOCK_ROUNDS\<rparr> else asm_state_map m1 ! b)" by auto
  then show ?case using m1(1) f(1) [OF lt] f(2) [OF lt] by (auto simp: same_setup_def)
qed

text \<open>One attempt at excluding: the authority is excluded, or its stake does not fit in the budget.\<close>

definition excluded_step :: "round \<Rightarrow> state_transition \<Rightarrow> ancestor_state_manager \<Rightarrow> ancestor_state_manager \<Rightarrow> bool" where
  "excluded_step clock t m m1 \<longleftrightarrow> asm_ok m1 \<and> same_setup m m1 \<and> total_excluded_stake m \<le> total_excluded_stake m1
     \<and> (\<forall>u. transition_ok m1 u = transition_ok m u)
     \<and> (\<forall>b. b \<noteq> st_authority_id t \<longrightarrow> asm_state_map m1 ! b = asm_state_map m ! b \<and> (b \<in> excluded_authorities m1 \<longleftrightarrow> b \<in> excluded_authorities m))
     \<and> (asm_state_map m1 ! st_authority_id t = \<lparr>ai_state = Exclude (st_score t), ai_lock_until_round = clock + STATE_LOCK_CLOCK_ROUNDS\<rparr>
          \<or> asm_state_map m1 ! st_authority_id t = asm_state_map m ! st_authority_id t
            \<and> excluded_nodes_stake_threshold m < total_excluded_stake m1 + st_stake t)"

lemma exclude_step:
  assumes "asm_ok m" and "transition_ok m t" and "st_authority_id t \<notin> excluded_authorities m"
    and "clock + STATE_LOCK_CLOCK_ROUNDS \<le> u32_max"
  shows "\<exists>m1. try_exclude clock t m = Some m1 \<and> excluded_step clock t m m1"
proof (cases "total_excluded_stake m + st_stake t \<le> excluded_nodes_stake_threshold m")
  case True
  have lt: "st_authority_id t < committee_size (ctx_committee (asm_context m))" using assms(2) by (simp add: transition_ok_def)
  note ex = apply_exclude [OF assms]
  from ex(2) [OF True, of "st_score t"] obtain m1 where m1: "apply_state_change clock (Exclude (st_score t)) t m = Some m1" "asm_ok m1"
    "changed_one clock (st_authority_id t) (Exclude (st_score t)) m m1" "total_excluded_stake m1 = total_excluded_stake m + st_stake t" by auto
  note f = changed_one_facts [OF m1(3) assms(1) lt]
  show ?thesis using m1(1,2,4) f ex(1) True by (intro exI [of _ m1]) (simp add: try_exclude_def excluded_step_def)
qed (use apply_exclude(1) [OF assms] assms(1) in \<open>simp add: try_exclude_def same_setup_def excluded_step_def\<close>)

lemma exclude_pass:
  assumes "asm_ok m" and "\<And>t. t \<in> set ts \<Longrightarrow> transition_ok m t \<and> st_authority_id t \<notin> excluded_authorities m"
    and "distinct (map st_authority_id ts)" and "clock + STATE_LOCK_CLOCK_ROUNDS \<le> u32_max"
  shows "\<exists>m'. for_each (try_exclude clock) ts m = Some m' \<and> asm_ok m' \<and> same_setup m m' \<and> total_excluded_stake m \<le> total_excluded_stake m'
     \<and> (\<forall>b. b \<notin> st_authority_id ` set ts \<longrightarrow> asm_state_map m' ! b = asm_state_map m ! b)
     \<and> (\<forall>t\<in>set ts. asm_state_map m' ! st_authority_id t = \<lparr>ai_state = Exclude (st_score t), ai_lock_until_round = clock + STATE_LOCK_CLOCK_ROUNDS\<rparr>
          \<or> asm_state_map m' ! st_authority_id t = asm_state_map m ! st_authority_id t
            \<and> excluded_nodes_stake_threshold m < total_excluded_stake m' + st_stake t)"
  using assms(1-3)
proof (induction ts arbitrary: m)
  case Nil
  then show ?case by (simp add: same_setup_def)
next
  case (Cons t ts)
  from exclude_step [OF Cons.prems(1), of t clock] Cons.prems(2) [of t] assms(4)
  obtain m1 where m1: "try_exclude clock t m = Some m1" "excluded_step clock t m m1" by auto
  note step = m1(2) [unfolded excluded_step_def]
  have "transition_ok m1 u \<and> st_authority_id u \<notin> excluded_authorities m1" if "u \<in> set ts" for u
    using Cons.prems(2) [of u] Cons.prems(3) that step by (auto simp: image_iff)
  from Cons.IH [OF conjunct1 [OF step] this] Cons.prems(3) obtain m' where
    m': "for_each (try_exclude clock) ts m1 = Some m'" "asm_ok m'" "same_setup m1 m'" "total_excluded_stake m1 \<le> total_excluded_stake m'"
    "\<forall>b. b \<notin> st_authority_id ` set ts \<longrightarrow> asm_state_map m' ! b = asm_state_map m1 ! b"
    "\<forall>t\<in>set ts. asm_state_map m' ! st_authority_id t = \<lparr>ai_state = Exclude (st_score t), ai_lock_until_round = clock + STATE_LOCK_CLOCK_ROUNDS\<rparr>
          \<or> asm_state_map m' ! st_authority_id t = asm_state_map m1 ! st_authority_id t
            \<and> excluded_nodes_stake_threshold m1 < total_excluded_stake m' + st_stake t" by auto
  have new: "st_authority_id t \<notin> st_authority_id ` set ts" using Cons.prems(3) by simp
  then have keep: "asm_state_map m' ! st_authority_id t = asm_state_map m1 ! st_authority_id t" using m'(5) by blast
  have same: "same_setup m m'" "excluded_nodes_stake_threshold m1 = excluded_nodes_stake_threshold m" using step m'(3) by (auto simp: same_setup_def)
  have run: "for_each (try_exclude clock) (t # ts) m = Some m'" using m1(1) m'(1) by simp
  have le: "total_excluded_stake m \<le> total_excluded_stake m'" using step m'(4) by linarith
  have others: "\<forall>b. b \<notin> st_authority_id ` set (t # ts) \<longrightarrow> asm_state_map m' ! b = asm_state_map m ! b" using step m'(5) by simp
  have old: "asm_state_map m1 ! st_authority_id u = asm_state_map m ! st_authority_id u" if "u \<in> set ts" for u
    using step new that by (metis imageI)
  have "\<forall>u\<in>set (t # ts). asm_state_map m' ! st_authority_id u = \<lparr>ai_state = Exclude (st_score u), ai_lock_until_round = clock + STATE_LOCK_CLOCK_ROUNDS\<rparr>
          \<or> asm_state_map m' ! st_authority_id u = asm_state_map m ! st_authority_id u
            \<and> excluded_nodes_stake_threshold m < total_excluded_stake m' + st_stake u"
    using step m'(4,6) keep old unfolding same(2) by auto
  then show ?case using run m'(2) same(1) le others by (intro exI [of _ m'] conjI)
qed

section \<open>Collecting the transitions\<close>

definition transition_for :: "quorum_round list \<Rightarrow> ancestor_state_manager \<Rightarrow> nat \<times> nat \<Rightarrow> state_transition" where
  "transition_for qrs m = (\<lambda>(a, score). \<lparr>st_authority_id = a, st_score = score,
     st_stake = stake_at (ctx_committee (asm_context m)) a, st_high_quorum_round = snd (qrs ! a)\<rparr>)"

definition to_be_included :: "round \<Rightarrow> nat \<Rightarrow> round \<Rightarrow> quorum_round list \<Rightarrow> ancestor_state_manager \<Rightarrow> nat \<times> nat \<Rightarrow> bool" where
  "to_be_included clock low net qrs m = (\<lambda>(a, score). \<not> is_locked (asm_state_map m ! a) clock
     \<and> ai_state (asm_state_map m ! a) \<noteq> Include \<and> (low < score \<or> net \<le> snd (qrs ! a)))"

definition to_be_excluded :: "round \<Rightarrow> nat \<Rightarrow> ancestor_state_manager \<Rightarrow> nat \<times> nat \<Rightarrow> bool" where
  "to_be_excluded clock low m = (\<lambda>(a, score). \<not> is_locked (asm_state_map m ! a) clock
     \<and> ai_state (asm_state_map m ! a) = Include \<and> score \<le> low)"

lemma collect_transition_eq:
  assumes "asm_ok m" and "a < committee_size (ctx_committee (asm_context m))" and "length qrs = committee_size (ctx_committee (asm_context m))"
  shows "collect_transition clock low net qrs m (a, score) (is, es)
    = Some (is @ (if to_be_included clock low net qrs m (a, score) then [transition_for qrs m (a, score)] else []),
            es @ (if to_be_excluded clock low m (a, score) then [transition_for qrs m (a, score)] else []))"
proof -
  let ?c = "ctx_committee (asm_context m)"
  obtain low_q high where q: "qrs ! a = (low_q, high)" by force
  have "a \<le> u32_max" using assms(1,2) by (simp add: asm_ok_def committee_wf_def)
  then have look: "to_authority_index ?c a = Some a" "vec_get (asm_state_map m) a = Some (asm_state_map m ! a)"
    "vec_get qrs a = Some (low_q, high)" "committee_authority ?c a = Some (committee_authorities ?c ! a)"
    "auth_stake (committee_authorities ?c ! a) = stake_at ?c a"
    using assms q by (simp_all add: to_authority_index_def as_u32_def asm_ok_def committee_size_def vec_get_def committee_authority_def stake_at_def u32_max_def)
  show ?thesis
    by (cases "ai_state (asm_state_map m ! a)")
       (simp_all add: collect_transition_def look q to_be_included_def to_be_excluded_def transition_for_def Let_def)
qed

lemma collect_transitions_eq:
  assumes "asm_ok m" and "\<And>p. p \<in> set ps \<Longrightarrow> fst p < committee_size (ctx_committee (asm_context m))"
    and "length qrs = committee_size (ctx_committee (asm_context m))"
  shows "for_each (collect_transition clock low net qrs m) ps (is, es)
    = Some (is @ map (transition_for qrs m) (filter (to_be_included clock low net qrs m) ps),
            es @ map (transition_for qrs m) (filter (to_be_excluded clock low m) ps))"
  using assms(2)
proof (induction ps arbitrary: "is" es)
  case (Cons p ps)
  obtain a score where p: "p = (a, score)" by force
  have "a < committee_size (ctx_committee (asm_context m))" using Cons.prems [of p] p by simp
  then show ?case using Cons.IH Cons.prems by (simp add: p collect_transition_eq [OF assms(1) _ assms(3)])
qed simp

lemma network_round_total:
  assumes "asm_ok m" and "length qrs = committee_size (ctx_committee (asm_context m))"
  shows "\<exists>net. calculate_network_high_quorum_round qrs m = Some net"
  using quorum_scan_lowest [of "ctx_committee (asm_context m)" "map snd qrs"] assms
  by (auto simp: calculate_network_high_quorum_round_def asm_ok_def)

lemma transition_for_fields [simp]:
  "st_authority_id (transition_for qrs m p) = fst p" "st_score (transition_for qrs m p) = snd p"
  "st_stake (transition_for qrs m p) = stake_at (ctx_committee (asm_context m)) (fst p)"
  by (simp_all add: transition_for_def split: prod.split)

lemma transition_for_ok:
  "fst p < committee_size (ctx_committee (asm_context m)) \<Longrightarrow> transition_ok m (transition_for qrs m p)"
  by (simp add: transition_ok_def)

lemma distinct_transitions:
  "distinct (map st_authority_id (map (transition_for qrs m) (filter Q (enumerate 0 xs))))"
  by (simp add: comp_def) (metis distinct_map_filter distinct_upt map_fst_enumerate)

lemma enumerate_mem: "p \<in> set (enumerate 0 xs) \<longleftrightarrow> fst p < length xs \<and> snd p = xs ! fst p"
  by (cases p) (auto simp: in_set_enumerate_eq)

lemma transition_ids:
  "a \<in> st_authority_id ` set (map (transition_for qrs m) (filter Q (enumerate 0 xs))) \<longleftrightarrow> a < length xs \<and> Q (a, xs ! a)"
proof -
  have "a \<in> fst ` {p \<in> set (enumerate 0 xs). Q p} \<longleftrightarrow> a < length xs \<and> Q (a, xs ! a)"
    by (auto simp: enumerate_mem image_iff)
  then show ?thesis by (simp add: image_image)
qed

text \<open>The state of one authority after an update.\<close>

definition updated_info ::
    "round \<Rightarrow> nat \<Rightarrow> round \<Rightarrow> quorum_round list \<Rightarrow> ancestor_state_manager \<Rightarrow> ancestor_state_manager \<Rightarrow> authority_index \<Rightarrow> bool" where
  "updated_info clock low net qrs m m' a = (
     let scores = scores_per_authority (propagation_scores m); old = asm_state_map m ! a; new = asm_state_map m' ! a;
         lock = clock + STATE_LOCK_CLOCK_ROUNDS
     in if length scores \<le> a \<or> is_locked old clock then new = old
        else case ai_state old of
          Exclude _ \<Rightarrow> new = (if low < scores ! a \<or> net \<le> snd (qrs ! a) then \<lparr>ai_state = Include, ai_lock_until_round = lock\<rparr> else old)
        | Include \<Rightarrow> (if scores ! a \<le> low
            then new = \<lparr>ai_state = Exclude (scores ! a), ai_lock_until_round = lock\<rparr>
              \<or> new = old \<and> excluded_nodes_stake_threshold m < total_excluded_stake m' + stake_at (ctx_committee (asm_context m)) a
            else new = old))"

lemma update_all_ancestors_correct:
  assumes "asm_ok m" and "clock + STATE_LOCK_CLOCK_ROUNDS \<le> u32_max" and "length qrs = committee_size (ctx_committee (asm_context m))"
    and "length (scores_per_authority (propagation_scores m)) \<le> committee_size (ctx_committee (asm_context m))"
    and "highest_score (propagation_scores m) * SCORE_EXCLUSION_THRESHOLD_PERCENTAGE \<le> u64_max"
    and "calculate_network_high_quorum_round qrs m = Some net"
  shows "\<exists>m'. update_all_ancestors_state clock qrs m = Some m' \<and> asm_ok m' \<and> same_setup m m'
     \<and> (\<forall>a. updated_info clock (highest_score (propagation_scores m) * SCORE_EXCLUSION_THRESHOLD_PERCENTAGE div 100) net qrs m m' a)"
proof -
  let ?low = "highest_score (propagation_scores m) * SCORE_EXCLUSION_THRESHOLD_PERCENTAGE div 100"
  let ?scores = "scores_per_authority (propagation_scores m)"
  let ?ps = "enumerate 0 ?scores"
  let ?is = "map (transition_for qrs m) (filter (to_be_included clock ?low net qrs m) ?ps)"
  let ?es = "map (transition_for qrs m) (filter (to_be_excluded clock ?low m) ?ps)"
  have ps: "fst p < committee_size (ctx_committee (asm_context m))" if "p \<in> set ?ps" for p
    using that assms(4) by (simp add: enumerate_mem)
  have "transition_ok m t \<and> st_authority_id t \<in> excluded_authorities m" if "t \<in> set ?is" for t
    using that ps by (auto simp: transition_for_ok to_be_included_def excluded_authorities_def)
  from include_pass [OF assms(1) this distinct_transitions assms(2)] obtain m1 where
    m1: "for_each (apply_state_change clock Include) ?is m = Some m1" "asm_ok m1" "same_setup m m1"
      "\<And>b. asm_state_map m1 ! b = (if b \<in> st_authority_id ` set ?is
          then \<lparr>ai_state = Include, ai_lock_until_round = clock + STATE_LOCK_CLOCK_ROUNDS\<rparr> else asm_state_map m ! b)" by blast
  have "transition_ok m1 t \<and> st_authority_id t \<notin> excluded_authorities m1" if "t \<in> set (sort_key st_score ?es)" for t
    using that ps m1(3,4) by (auto simp: transition_ok_def same_setup_def to_be_excluded_def excluded_authorities_def)
  moreover have "distinct (map st_authority_id (sort_key st_score ?es))"
    using distinct_transitions [of qrs m] by (simp add: distinct_map del: map_map)
  ultimately obtain m' where
    m': "for_each (try_exclude clock) (sort_key st_score ?es) m1 = Some m'" "asm_ok m'" "same_setup m1 m'"
      "\<And>b. b \<notin> st_authority_id ` set ?es \<Longrightarrow> asm_state_map m' ! b = asm_state_map m1 ! b"
      "\<And>t. t \<in> set ?es \<Longrightarrow> asm_state_map m' ! st_authority_id t = \<lparr>ai_state = Exclude (st_score t), ai_lock_until_round = clock + STATE_LOCK_CLOCK_ROUNDS\<rparr>
          \<or> asm_state_map m' ! st_authority_id t = asm_state_map m1 ! st_authority_id t
            \<and> excluded_nodes_stake_threshold m1 < total_excluded_stake m' + st_stake t"
    using exclude_pass [OF m1(2) _ _ assms(2), of "sort_key st_score ?es"] by (auto simp del: set_map)
  have "update_all_ancestors_state clock qrs m = Some m'"
    using assms(5,6) m1(1) m'(1) collect_transitions_eq [OF assms(1) ps assms(3), of ?ps clock ?low net "[]" "[]"]
    by (simp add: update_all_ancestors_state_def u64_mul_def)
  moreover have "updated_info clock ?low net qrs m m' a" for a
  proof -
    have is_a: "a \<in> st_authority_id ` set ?is \<longleftrightarrow> a < length ?scores \<and> to_be_included clock ?low net qrs m (a, ?scores ! a)"
      and es_a: "a \<in> st_authority_id ` set ?es \<longleftrightarrow> a < length ?scores \<and> to_be_excluded clock ?low m (a, ?scores ! a)"
      by (rule transition_ids)+
    have "transition_for qrs m (a, ?scores ! a) \<in> set ?es" if "a \<in> st_authority_id ` set ?es"
      using that unfolding es_a by (auto simp: enumerate_mem)
    from m'(5) [OF this] m'(4) [of a] m1(4) [of a] m1(3) is_a es_a show ?thesis
      by (cases "ai_state (asm_state_map m ! a)")
         (auto simp: updated_info_def Let_def to_be_included_def to_be_excluded_def same_setup_def simp del: set_map)
  qed
  ultimately show ?thesis using m1(3) m'(2,3) by (auto simp: same_setup_def)
qed

section \<open>Properties\<close>

text \<open>
  C15. Updating the ancestor states never panics, keeps the recorded excluded stake equal to the
  stake of the excluded authorities and within the budget, and treats every authority as intended: a
  locked or unscored one is left alone; an excluded one returns, locked, exactly when its score is
  above the threshold or its high quorum round has caught up with the network; an included one
  stays when its score is above the threshold, and otherwise is excluded and locked, unless
  its stake no longer fits in the budget.
\<close>

theorem ancestor_update_stays_within_budget:
  assumes "asm_ok m" and "clock + STATE_LOCK_CLOCK_ROUNDS \<le> u32_max" and "length qrs = committee_size (ctx_committee (asm_context m))"
    and "length (scores_per_authority (propagation_scores m)) \<le> committee_size (ctx_committee (asm_context m))"
    and "highest_score (propagation_scores m) * SCORE_EXCLUSION_THRESHOLD_PERCENTAGE \<le> u64_max"
  shows "\<exists>net m'. calculate_network_high_quorum_round qrs m = Some net \<and> update_all_ancestors_state clock qrs m = Some m'
     \<and> asm_ok m' \<and> same_setup m m'
     \<and> (\<forall>a. updated_info clock (highest_score (propagation_scores m) * SCORE_EXCLUSION_THRESHOLD_PERCENTAGE div 100) net qrs m m' a)"
proof -
  from network_round_total [OF assms(1,3)] obtain net where "calculate_network_high_quorum_round qrs m = Some net" by blast
  with update_all_ancestors_correct [OF assms this] show ?thesis by blast
qed

definition sample_asm :: ancestor_state_manager where
  "sample_asm = set_propagation_scores (ReputationScores_new (CommitRange_new 1 300) [0, 10, 20, 30])
     (the (AncestorStateManager_new (sample_context\<lparr>protocol_config := (protocol_config sample_context)\<lparr>bad_nodes_stake_threshold := 75\<rparr>\<rparr>)))"

lemma sample_asm_fields [simp]:
  "ctx_committee (asm_context sample_asm) = sample_committee" "asm_state_map sample_asm = replicate 4 AncestorInfo_new"
  "excluded_nodes_stake_threshold sample_asm = 2" "total_excluded_stake sample_asm = 0"
  "scores_per_authority (propagation_scores sample_asm) = [0, 10, 20, 30]" "highest_score (propagation_scores sample_asm) = 30"
  by (simp_all add: sample_asm_def set_propagation_scores_def AncestorStateManager_new_def u64_mul_def u64_max_def
      ReputationScores_new_def highest_score_def)

lemma sample_asm_ok: "asm_ok sample_asm"
proof -
  have "excluded_authorities sample_asm = {}" by (auto simp: excluded_authorities_def AncestorInfo_new_def)
  then show ?thesis by (simp add: asm_ok_def sample_committee_wf stake_of_def)
qed

theorem ancestor_update_stays_within_budget_witness:
  "\<exists>m'. update_all_ancestors_state 7 [(0, 0), (0, 0), (0, 0), (0, 0)] sample_asm = Some m'
     \<and> map ai_state (take 4 (asm_state_map m')) = [Exclude 0, Include, Include, Include] \<and> total_excluded_stake m' = 1"
proof -
  from ancestor_update_stays_within_budget [OF sample_asm_ok, of 7 "[(0, 0), (0, 0), (0, 0), (0, 0)]"]
  obtain net m' where m': "update_all_ancestors_state 7 [(0, 0), (0, 0), (0, 0), (0, 0)] sample_asm = Some m'" "asm_ok m'" "same_setup sample_asm m'"
    "\<And>a. updated_info 7 6 net [(0, 0), (0, 0), (0, 0), (0, 0)] sample_asm m' a"
    by (auto simp: STATE_LOCK_CLOCK_ROUNDS_def u32_max_def u64_max_def SCORE_EXCLUSION_THRESHOLD_PERCENTAGE_def)
  note info = updated_info_def Let_def is_locked_def AncestorInfo_new_def
  have len: "length (asm_state_map m') = 4" and c: "ctx_committee (asm_context m') = sample_committee" 
    using m'(2,3) by (auto simp: asm_ok_def same_setup_def)
  have inc: "ai_state (asm_state_map m' ! 1) = Include" "ai_state (asm_state_map m' ! 2) = Include" "ai_state (asm_state_map m' ! 3) = Include"
    using m'(4) [of 1] m'(4) [of 2] m'(4) [of 3] by (simp_all add: info)
  have lt: "a = 0 \<or> a = 1 \<or> a = 2 \<or> a = 3" if "a < 4" for a :: nat using that by auto
  have "excluded_authorities m' \<subseteq> {0}" using inc lt by (auto simp: excluded_authorities_def c)
  moreover have total1: "total_excluded_stake m' = stake_of sample_committee (excluded_authorities m')" using m'(2) by (simp add: asm_ok_def c)
  ultimately have "total_excluded_stake m' \<le> 1" using stake_of_mono [of "{0}" "excluded_authorities m'" sample_committee]
    by (simp add: stake_of_def sample_stake_at)
  then have ex: "ai_state (asm_state_map m' ! 0) = Exclude 0" using m'(4) [of 0] by (auto simp: info sample_stake_at)
  then have "excluded_authorities m' = {0}" using \<open>excluded_authorities m' \<subseteq> {0}\<close> by (auto simp: excluded_authorities_def c)
  then have "total_excluded_stake m' = 1" using total1 by (simp add: stake_of_def sample_stake_at)
  moreover have "map ai_state (take 4 (asm_state_map m')) = [Exclude 0, Include, Include, Include]"
    using len ex inc by (auto simp: numeral_eq_Suc length_Suc_conv)
  ultimately show ?thesis using m'(1) by (intro exI [of _ m'] conjI)
qed

text \<open>The managers that the constructor, new scores and updates lead to.\<close>

inductive asm_reachable :: "consensus_context \<Rightarrow> ancestor_state_manager \<Rightarrow> bool" for ctx where
  asm_new: "AncestorStateManager_new ctx = Some m \<Longrightarrow> asm_reachable ctx m"
| asm_scores: "asm_reachable ctx m \<Longrightarrow> length (scores_per_authority scores) \<le> committee_size (ctx_committee ctx) \<Longrightarrow>
    highest_score scores * SCORE_EXCLUSION_THRESHOLD_PERCENTAGE \<le> u64_max \<Longrightarrow> asm_reachable ctx (set_propagation_scores scores m)"
| asm_update: "asm_reachable ctx m \<Longrightarrow> length qrs = committee_size (ctx_committee ctx) \<Longrightarrow>
    clock + STATE_LOCK_CLOCK_ROUNDS \<le> u32_max \<Longrightarrow> update_all_ancestors_state clock qrs m = Some m' \<Longrightarrow> asm_reachable ctx m'"

lemma AncestorStateManager_new_ok:
  assumes "AncestorStateManager_new ctx = Some m" and "committee_wf (ctx_committee ctx)"
  shows "asm_ok m" and "asm_context m = ctx" and "scores_per_authority (propagation_scores m) = []"
    and "excluded_nodes_stake_threshold m
       = 2 * bad_nodes_stake_threshold (protocol_config ctx) div 3 * total_stake (ctx_committee ctx) div 100"
proof -
  from assms(1) show f: "asm_context m = ctx" "scores_per_authority (propagation_scores m) = []"
    "excluded_nodes_stake_threshold m
       = 2 * bad_nodes_stake_threshold (protocol_config ctx) div 3 * total_stake (ctx_committee ctx) div 100"
    by (auto simp: AncestorStateManager_new_def u64_mul_def ReputationScores_default_def split: Option.bind_splits if_splits)
  from assms(1) have s: "asm_state_map m = replicate (committee_size (ctx_committee ctx)) AncestorInfo_new" "total_excluded_stake m = 0"
    by (auto simp: AncestorStateManager_new_def split: Option.bind_splits)
  then have "excluded_authorities m = {}" by (auto simp: excluded_authorities_def f AncestorInfo_new_def)
  then show "asm_ok m" using assms(2) s by (simp add: asm_ok_def f(1) stake_of_def)
qed

lemma asm_reachable_ok:
  assumes "asm_reachable ctx m" and "committee_wf (ctx_committee ctx)"
  shows "asm_ok m \<and> asm_context m = ctx
     \<and> length (scores_per_authority (propagation_scores m)) \<le> committee_size (ctx_committee ctx)
     \<and> highest_score (propagation_scores m) * SCORE_EXCLUSION_THRESHOLD_PERCENTAGE \<le> u64_max
     \<and> excluded_nodes_stake_threshold m
       = 2 * bad_nodes_stake_threshold (protocol_config ctx) div 3 * total_stake (ctx_committee ctx) div 100"
  using assms(1)
proof induction
  case (asm_new m)
  then show ?case using AncestorStateManager_new_ok [OF asm_new assms(2)] by (simp add: highest_score_def)
next
  case (asm_scores m scores)
  then show ?case by (clarsimp simp add: set_propagation_scores_def asm_ok_def excluded_authorities_def)
next
  case (asm_update m qrs clock m')
  then have len: "asm_ok m" "length qrs = committee_size (ctx_committee (asm_context m))" by simp_all
  from network_round_total [OF len] obtain net where "calculate_network_high_quorum_round qrs m = Some net" by blast
  from update_all_ancestors_correct [OF len(1) asm_update.hyps(3) len(2) _ _ this] asm_update.IH asm_update.hyps(4)
  show ?case by (simp add: same_setup_def)
qed

lemma fifth_below_third:
  fixes t :: nat
  assumes "0 < t"
  shows "22 * t div 100 \<le> (t - 1) div 3"
proof (cases "22 * t div 100 = 0")
  case False
  obtain k where k: "k = 22 * t div 100" by simp
  have "100 * k \<le> 22 * t" unfolding k by simp
  moreover have "1 \<le> k" using False k by simp
  ultimately have "k * 3 \<le> t - 1" by linarith
  then show ?thesis by (simp add: less_eq_div_iff_mult_less_eq flip: k)
qed simp

text \<open>
  C16. With the quorums of \<open>Committee::new\<close> and a bad-node threshold of at most 33 percent, the
  authorities that are not excluded always hold a quorum of stake, so that excluding ancestors cannot
  by itself keep a proposal from having a quorum of parents; and every update is defined.
\<close>

theorem included_ancestors_hold_quorum:
  assumes "asm_reachable ctx m" and "Committee_new e auths = Some (ctx_committee ctx)"
    and "bad_nodes_stake_threshold (protocol_config ctx) \<le> 33"
  shows "reached_quorum (ctx_committee ctx) (stake_of (ctx_committee ctx) (members (ctx_committee ctx) - excluded_authorities m))
     \<and> (\<forall>qrs clock. length qrs = committee_size (ctx_committee ctx) \<and> clock + STATE_LOCK_CLOCK_ROUNDS \<le> u32_max \<longrightarrow>
          update_all_ancestors_state clock qrs m \<noteq> None)"
proof -
  let ?c = "ctx_committee ctx"
  note wf = Committee_new_wf [OF assms(2)] and t = Committee_new_thresholds [OF assms(2)]
  note ok = asm_reachable_ok [OF assms(1) wf]
  have whole: "total_stake ?c = stake_of ?c (members ?c)" using wf unfolding committee_wf_def by blast
  have sub: "excluded_authorities m \<subseteq> members ?c" using ok by (auto simp: excluded_authorities_def)
  have "2 * bad_nodes_stake_threshold (protocol_config ctx) div 3 \<le> 22" using assms(3) by linarith
  then have "2 * bad_nodes_stake_threshold (protocol_config ctx) div 3 * total_stake ?c div 100 \<le> 22 * total_stake ?c div 100"
    by (intro div_le_mono mult_le_mono1)
  then have "stake_of ?c (excluded_authorities m) \<le> 22 * total_stake ?c div 100" using ok unfolding asm_ok_def by (elim conjE) (metis le_trans)
  moreover have "22 * total_stake ?c div 100 \<le> (total_stake ?c - 1) div 3" using t(7) by (rule fifth_below_third)
  moreover have "stake_of ?c (members ?c) = stake_of ?c (members ?c - excluded_authorities m) + stake_of ?c (excluded_authorities m)"
    unfolding stake_of_def by (rule sum.subset_diff [OF sub]) simp
  ultimately have "reached_quorum ?c (stake_of ?c (members ?c - excluded_authorities m))"
    using t(4) whole unfolding reached_quorum_def by linarith
  moreover have "update_all_ancestors_state clock qrs m \<noteq> None"
    if "length qrs = committee_size ?c" "clock + STATE_LOCK_CLOCK_ROUNDS \<le> u32_max" for qrs clock
    using network_round_total [of m qrs] update_all_ancestors_correct [of m clock qrs] ok that by fastforce
  ultimately show ?thesis by blast
qed

theorem included_ancestors_hold_quorum_witness:
  "\<exists>m. AncestorStateManager_new sample_context = Some m
     \<and> reached_quorum sample_committee (stake_of sample_committee (members sample_committee - excluded_authorities m))
     \<and> update_all_ancestors_state 1 [(0, 0), (0, 0), (0, 0), (0, 0)] m \<noteq> None"
proof -
  obtain m where m: "AncestorStateManager_new sample_context = Some m"
    by (simp add: AncestorStateManager_new_def sample_config_def u64_mul_def u64_max_def)
  have "asm_reachable sample_context m" using m by (rule asm_new)
  from included_ancestors_hold_quorum [OF this, of 0 "map sample_authority [1, 1, 1, 1]"] sample_committee_new
  show ?thesis using m by (auto simp: sample_config_def STATE_LOCK_CLOCK_ROUNDS_def u32_max_def)
qed

end
