(* ===== verification/Vote_Tracker.thy ===== *)
theory Vote_Tracker
  imports Dag_State Block_Verifier
begin

text \<open>
  Model of \<open>consensus/src/transaction_vote_tracker.rs\<close>: own reject votes on the transactions of received
  blocks, and the reject votes of all authorities aggregated per transaction. The state behind the lock is passed
  explicitly, the DAG state and the verifier are arguments. The committee lookup of the metrics, which can panic,
  is kept.
\<close>

section \<open>State and operations\<close>

record vote_info =
  vi_block :: "verified_block option"
  vi_own_reject_txn_votes :: "transaction_index list"
  vi_reject_txn_votes :: "(transaction_index \<times> stake_aggregator) list"

record vote_tracker =
  vt_context :: consensus_context
  vt_votes :: "(block_ref \<times> vote_info) list"
  vt_gc_round :: round

definition VoteInfo_default :: vote_info where
  "VoteInfo_default = \<lparr>vi_block = None, vi_own_reject_txn_votes = [], vi_reject_txn_votes = []\<rparr>"

definition VoteTrackerState_new :: "consensus_context \<Rightarrow> vote_tracker" where
  "VoteTrackerState_new ctx = \<lparr>vt_context = ctx, vt_votes = [], vt_gc_round = GENESIS_ROUND\<rparr>"

definition vt_entry :: "vote_tracker \<Rightarrow> block_ref \<Rightarrow> vote_info" where
  "vt_entry st r = bmap_entry VoteInfo_default (vt_votes st) r"

definition vt_insert :: "block_ref \<Rightarrow> vote_info \<Rightarrow> vote_tracker \<Rightarrow> vote_tracker" where
  "vt_insert r info st = st\<lparr>vt_votes := bmap_insert r info (vt_votes st)\<rparr>"

definition count_reject ::
    "committee \<Rightarrow> authority_index \<Rightarrow> transaction_index \<Rightarrow> (transaction_index \<times> stake_aggregator) list
       \<Rightarrow> (transaction_index \<times> stake_aggregator) list option" where
  "count_reject c author reject m = do {
     (agg, _) \<leftarrow> agg_add_unique author c (bmap_entry (StakeAggregator_new QuorumThreshold) m reject);
     Some (bmap_insert reject agg m)
   }"

definition count_block_votes :: "authority_index \<Rightarrow> block_transaction_votes \<Rightarrow> vote_tracker \<Rightarrow> vote_tracker option" where
  "count_block_votes author block_votes st = (
     let r = btv_block_ref block_votes in
     if br_round r \<le> vt_gc_round st then Some st
     else do {
       let info = vt_entry st r;
       m \<leftarrow> for_each (count_reject (ctx_committee (vt_context st)) author) (btv_rejects block_votes) (vi_reject_txn_votes info);
       Some (vt_insert r (info\<lparr>vi_reject_txn_votes := m\<rparr>) st)
     })"

definition add_voted_block :: "verified_block \<times> transaction_index list \<Rightarrow> vote_tracker \<Rightarrow> vote_tracker option" where
  "add_voted_block = (\<lambda>(voted_block, reject_txn_votes) st.
     if vb_round voted_block \<le> vt_gc_round st then Some st
     else do {
       _ \<leftarrow> committee_authority (ctx_committee (vt_context st)) (vb_author voted_block);
       let info = vt_entry st (reference voted_block);
       (if vi_block info \<noteq> None then Some (vt_insert (reference voted_block) info st)
        else for_each (count_block_votes (vb_author voted_block)) (b_transaction_votes (vb_inner voted_block))
          (vt_insert (reference voted_block)
             (info\<lparr>vi_block := Some voted_block, vi_own_reject_txn_votes := reject_txn_votes\<rparr>) st))
     })"

definition add_voted_blocks :: "(verified_block \<times> transaction_index list) list \<Rightarrow> vote_tracker \<Rightarrow> vote_tracker option" where
  "add_voted_blocks voted_blocks st = for_each add_voted_block voted_blocks st"

definition own_vote ::
    "vote_tracker \<Rightarrow> block_ref \<Rightarrow> block_transaction_votes list \<Rightarrow> block_transaction_votes list option" where
  "own_vote st block_ref votes =
     (if br_round block_ref \<le> vt_gc_round st then Some votes
      else do {
        vote_info \<leftarrow> map_of (vt_votes st) block_ref;
        Some (if vi_own_reject_txn_votes vote_info = [] then votes
              else votes @ [\<lparr>btv_block_ref = block_ref, btv_rejects = vi_own_reject_txn_votes vote_info\<rparr>])
      })"

definition get_own_votes :: "vote_tracker \<Rightarrow> block_ref list \<Rightarrow> block_transaction_votes list option" where
  "get_own_votes st block_refs = for_each (own_vote st) block_refs []"

definition get_reject_votes :: "vote_tracker \<Rightarrow> block_ref \<Rightarrow> (transaction_index \<times> stake) list option" where
  "get_reject_votes st block_ref =
     map_option (\<lambda>info. map (\<lambda>(idx, agg). (idx, agg_stake agg)) (vi_reject_txn_votes info)) (map_of (vt_votes st) block_ref)"

definition update_gc_round :: "round \<Rightarrow> vote_tracker \<Rightarrow> vote_tracker" where
  "update_gc_round r st = st\<lparr>vt_gc_round := r, vt_votes := dropWhile (\<lambda>(block_ref, _). br_round block_ref \<le> r) (vt_votes st)\<rparr>"

definition run_gc :: "round \<Rightarrow> dag_state \<Rightarrow> vote_tracker \<Rightarrow> vote_tracker option" where
  "run_gc r d st = do {
     rassert (r \<le> gc_round d);
     Some (update_gc_round r st)
   }"

definition recovery_vote ::
    "signed_block_verifier \<Rightarrow> verified_block \<times> bool \<Rightarrow> (verified_block \<times> transaction_index list) option" where
  "recovery_vote v = (\<lambda>(b, should_vote).
     if \<not> should_vote then Some (b, [])
     else do { rejects \<leftarrow> expect_ok (vote v b); Some (b, rejects) })"

definition recover_and_vote_on_blocks ::
    "signed_block_verifier \<Rightarrow> dag_state \<Rightarrow> verified_block list \<Rightarrow> vote_tracker \<Rightarrow> vote_tracker option" where
  "recover_and_vote_on_blocks v d blocks st = do {
     should_vote_blocks \<leftarrow> map_opt (\<lambda>b. if vb_round b > gc_round d then map_option Not (has_been_included d (reference b)) else Some False) blocks;
     voted_blocks \<leftarrow> map_opt (recovery_vote v) (zip blocks should_vote_blocks);
     add_voted_blocks voted_blocks st
   }"

definition recover_authority_votes ::
    "signed_block_verifier \<Rightarrow> dag_state \<Rightarrow> round \<Rightarrow> authority_index \<Rightarrow> vote_tracker \<Rightarrow> vote_tracker option" where
  "recover_authority_votes v d start authority_index st = do {
     blocks \<leftarrow> scan_blocks_by_author (ds_store d) authority_index start;
     _ \<leftarrow> committee_authority (ctx_committee (vt_context st)) authority_index;
     recover_and_vote_on_blocks v d blocks st
   }"

definition recover_blocks_after_round :: "signed_block_verifier \<Rightarrow> dag_state \<Rightarrow> round \<Rightarrow> vote_tracker \<Rightarrow> vote_tracker option" where
  "recover_blocks_after_round v d after_round st =
     (if \<not> transaction_voting_enabled (protocol_config (vt_context st)) then Some st
      else do {
        recovery_start_round \<leftarrow> u32_add after_round 1;
        for_each (recover_authority_votes v d recovery_start_round) (map fst (authorities (ctx_committee (vt_context st)))) st
      })"

section \<open>What the tracker counts\<close>

text \<open>The authors of the counted blocks that reject a transaction, and the voters the tracker holds for it.\<close>

definition rejecters :: "verified_block set \<Rightarrow> block_ref \<Rightarrow> transaction_index \<Rightarrow> authority_index set" where
  "rejecters B r i = vb_author ` {b\<in>B. \<exists>bv\<in>set (b_transaction_votes (vb_inner b)). btv_block_ref bv = r \<and> i \<in> set (btv_rejects bv)}"

definition reject_voters :: "(transaction_index \<times> stake_aggregator) list \<Rightarrow> transaction_index \<Rightarrow> authority_index set" where
  "reject_voters m i = (case map_of m i of None \<Rightarrow> {} | Some agg \<Rightarrow> set (agg_votes agg))"

definition rejects_ok :: "committee \<Rightarrow> (transaction_index \<times> stake_aggregator) list \<Rightarrow> bool" where
  "rejects_ok c m \<longleftrightarrow> bmap_wf m \<and> (\<forall>i agg. map_of m i = Some agg \<longrightarrow> agg_wf c agg \<and> agg_votes agg \<noteq> [])"

definition entries_ok :: "vote_tracker \<Rightarrow> bool" where
  "entries_ok st \<longleftrightarrow> bmap_wf (vt_votes st)
     \<and> (\<forall>r info. map_of (vt_votes st) r = Some info \<longrightarrow> rejects_ok (ctx_committee (vt_context st)) (vi_reject_txn_votes info))"

abbreviation voters_of :: "vote_tracker \<Rightarrow> block_ref \<Rightarrow> transaction_index \<Rightarrow> authority_index set" where
  "voters_of st r i \<equiv> reject_voters (vi_reject_txn_votes (vt_entry st r)) i"

text \<open>The tracker after counting the blocks \<open>B\<close>.\<close>

definition votes_ok :: "vote_tracker \<Rightarrow> verified_block set \<Rightarrow> bool" where
  "votes_ok st B \<longleftrightarrow> entries_ok st
     \<and> (\<forall>r b. vi_block (vt_entry st r) = Some b \<longrightarrow> reference b = r \<and> b \<in> B)
     \<and> (\<forall>b\<in>B. vt_gc_round st < vb_round b \<longrightarrow> vi_block (vt_entry st (reference b)) \<noteq> None)
     \<and> (\<forall>r i. vt_gc_round st < br_round r \<longrightarrow> voters_of st r i = rejecters B r i)"

lemma vt_entry_insert: "vt_entry (vt_insert r info st) r' = (if r' = r then info else vt_entry st r')"
  by (simp add: vt_entry_def vt_insert_def bmap_entry_def)

lemma vt_insert_fields [simp]: "vt_context (vt_insert r info st) = vt_context st" "vt_gc_round (vt_insert r info st) = vt_gc_round st"
  by (simp_all add: vt_insert_def)

lemma entry_rejects_ok: "entries_ok st \<Longrightarrow> rejects_ok (ctx_committee (vt_context st)) (vi_reject_txn_votes (vt_entry st r))"
  by (auto simp: entries_ok_def vt_entry_def bmap_entry_def VoteInfo_default_def rejects_ok_def bmap_wf_def split: option.split)

lemma entries_ok_insert:
  "entries_ok st \<Longrightarrow> rejects_ok (ctx_committee (vt_context st)) (vi_reject_txn_votes info) \<Longrightarrow> entries_ok (vt_insert r info st)"
  by (auto simp: entries_ok_def vt_insert_def)

lemma count_reject_ok:
  assumes "committee_wf c" and "a < committee_size c" and "rejects_ok c m"
  shows "\<exists>m'. count_reject c a i m = Some m' \<and> rejects_ok c m'
     \<and> (\<forall>j. reject_voters m' j = (if j = i then insert a (reject_voters m i) else reject_voters m j))"
proof -
  let ?agg = "bmap_entry (StakeAggregator_new QuorumThreshold) m i"
  have wf: "agg_wf c ?agg" using assms(3) by (auto simp: bmap_entry_def rejects_ok_def split: option.split)
  have run: "count_reject c a i m = Some (bmap_insert i (agg_insert c a ?agg) m)"
    using agg_add_unique_eq [OF assms(1) wf assms(2)] by (simp add: count_reject_def)
  have "set (agg_votes (agg_insert c a ?agg)) = insert a (reject_voters m i)"
    by (auto simp: bmap_entry_def reject_voters_def split: option.split)
  moreover have "agg_votes (agg_insert c a ?agg) \<noteq> []" using agg_insert_fields(1) [of c a ?agg] by fastforce
  ultimately show ?thesis
    using run assms(3) agg_wf_insert [OF wf assms(2)] by (auto simp: rejects_ok_def reject_voters_def)
qed

lemma count_rejects_ok:
  assumes "committee_wf c" and "a < committee_size c" and "rejects_ok c m"
  shows "\<exists>m'. for_each (count_reject c a) is m = Some m' \<and> rejects_ok c m'
     \<and> (\<forall>j. reject_voters m' j = (if j \<in> set is then insert a (reject_voters m j) else reject_voters m j))"
  using assms(3)
proof (induction "is" arbitrary: m)
  case (Cons i "is")
  from count_reject_ok [OF assms(1,2) Cons.prems, of i] obtain m1 where
    1: "count_reject c a i m = Some m1" "rejects_ok c m1" "\<forall>j. reject_voters m1 j = (if j = i then insert a (reject_voters m i) else reject_voters m j)" by blast
  from Cons.IH [OF 1(2)] obtain m' where
    2: "for_each (count_reject c a) is m1 = Some m'" "rejects_ok c m'"
      "\<forall>j. reject_voters m' j = (if j \<in> set is then insert a (reject_voters m1 j) else reject_voters m1 j)" by blast
  show ?case using 1(1,3) 2 by (intro exI [of _ m']) auto
qed simp

definition same_tracker :: "vote_tracker \<Rightarrow> vote_tracker \<Rightarrow> bool" where
  "same_tracker st st' \<longleftrightarrow> vt_context st' = vt_context st \<and> vt_gc_round st' = vt_gc_round st
     \<and> (\<forall>r. vi_block (vt_entry st' r) = vi_block (vt_entry st r)
          \<and> vi_own_reject_txn_votes (vt_entry st' r) = vi_own_reject_txn_votes (vt_entry st r))"

lemma count_block_votes_ok:
  assumes "committee_wf (ctx_committee (vt_context st))" and "a < committee_size (ctx_committee (vt_context st))" and "entries_ok st"
  shows "\<exists>st'. count_block_votes a bv st = Some st' \<and> entries_ok st' \<and> same_tracker st st'
     \<and> (\<forall>r i. voters_of st' r i = (if vt_gc_round st < br_round r \<and> btv_block_ref bv = r \<and> i \<in> set (btv_rejects bv)
          then insert a (voters_of st r i) else voters_of st r i))"
proof (cases "br_round (btv_block_ref bv) \<le> vt_gc_round st")
  case True
  then show ?thesis using assms(3) by (auto simp: count_block_votes_def same_tracker_def)
next
  case False
  let ?r = "btv_block_ref bv"
  from count_rejects_ok [OF assms(1,2) entry_rejects_ok [OF assms(3)], of "btv_rejects bv" ?r] obtain m where
    m: "for_each (count_reject (ctx_committee (vt_context st)) a) (btv_rejects bv) (vi_reject_txn_votes (vt_entry st ?r)) = Some m"
      "rejects_ok (ctx_committee (vt_context st)) m"
      "\<forall>j. reject_voters m j = (if j \<in> set (btv_rejects bv) then insert a (voters_of st ?r j) else voters_of st ?r j)" by blast
  have "count_block_votes a bv st = Some (vt_insert ?r ((vt_entry st ?r)\<lparr>vi_reject_txn_votes := m\<rparr>) st)"
    using False m(1) by (simp add: count_block_votes_def Let_def)
  then show ?thesis
    using False m(2,3) entries_ok_insert [OF assms(3)] by (auto simp: same_tracker_def vt_entry_insert)
qed

lemma count_all_votes_ok:
  assumes "committee_wf (ctx_committee (vt_context st))" and "a < committee_size (ctx_committee (vt_context st))" and "entries_ok st"
  shows "\<exists>st'. for_each (count_block_votes a) bvs st = Some st' \<and> entries_ok st' \<and> same_tracker st st'
     \<and> (\<forall>r i. voters_of st' r i = (if vt_gc_round st < br_round r \<and> (\<exists>bv\<in>set bvs. btv_block_ref bv = r \<and> i \<in> set (btv_rejects bv))
          then insert a (voters_of st r i) else voters_of st r i))"
  using assms
proof (induction bvs arbitrary: st)
  case (Cons bv bvs)
  from count_block_votes_ok [OF Cons.prems, of bv] obtain st1 where
    1: "count_block_votes a bv st = Some st1" "entries_ok st1" "same_tracker st st1"
      "\<forall>r i. voters_of st1 r i = (if vt_gc_round st < br_round r \<and> btv_block_ref bv = r \<and> i \<in> set (btv_rejects bv)
          then insert a (voters_of st r i) else voters_of st r i)" by blast
  have ctx: "vt_context st1 = vt_context st" "vt_gc_round st1 = vt_gc_round st" using 1(3) by (simp_all add: same_tracker_def)
  from Cons.IH [of st1] Cons.prems 1(2) obtain st' where
    2: "for_each (count_block_votes a) bvs st1 = Some st'" "entries_ok st'" "same_tracker st1 st'"
      "\<forall>r i. voters_of st' r i = (if vt_gc_round st < br_round r \<and> (\<exists>bv\<in>set bvs. btv_block_ref bv = r \<and> i \<in> set (btv_rejects bv))
          then insert a (voters_of st1 r i) else voters_of st1 r i)" unfolding ctx by blast
  have "same_tracker st st'" using 1(3) 2(3) by (simp add: same_tracker_def)
  then show ?case using 1(1,4) 2(1,2,4) by (intro exI [of _ st']) auto
qed (auto simp: same_tracker_def)

lemma add_voted_block_ok:
  assumes "committee_wf (ctx_committee (vt_context st))" and "vb_author b < committee_size (ctx_committee (vt_context st))"
    and "votes_ok st B" and "inj_on reference (insert b B)"
  shows "\<exists>st'. add_voted_block (b, rejects) st = Some st' \<and> vt_context st' = vt_context st \<and> vt_gc_round st' = vt_gc_round st
     \<and> votes_ok st' (if vb_round b \<le> vt_gc_round st then B else insert b B)"
proof (cases "vb_round b \<le> vt_gc_round st")
  case True
  then show ?thesis using assms(3) by (simp add: add_voted_block_def)
next
  case False
  let ?r = "reference b" and ?info = "vt_entry st (reference b)"
  note t = assms(3) [unfolded votes_ok_def]
  obtain x where auth: "committee_authority (ctx_committee (vt_context st)) (vb_author b) = Some x"
    using assms(2) by (auto simp: panic_simps)
  show ?thesis
  proof (cases "vi_block ?info")
    case (Some b')
    then have "b' = b" using t assms(4) by (meson inj_onD insertCI)
    then have "insert b B = B" using Some t by auto
    moreover have "add_voted_block (b, rejects) st = Some (vt_insert ?r ?info st)"
      using False Some auth by (simp add: add_voted_block_def Let_def)
    moreover have "vt_entry (vt_insert ?r ?info st) = vt_entry st" by (rule ext) (simp add: vt_entry_insert)
    ultimately show ?thesis
      using False t entries_ok_insert [of st ?info ?r] entry_rejects_ok [of st ?r] by (simp add: votes_ok_def)
  next
    case None
    let ?st1 = "vt_insert ?r (?info\<lparr>vi_block := Some b, vi_own_reject_txn_votes := rejects\<rparr>) st"
    have e1: "entries_ok ?st1" using t entries_ok_insert [of st _ ?r] entry_rejects_ok [of st ?r] by simp
    have v1: "voters_of ?st1 r i = voters_of st r i" for r i by (simp add: vt_entry_insert)
    from count_all_votes_ok [of ?st1 "vb_author b" "b_transaction_votes (vb_inner b)"] assms(1,2) e1 obtain st' where
      c: "for_each (count_block_votes (vb_author b)) (b_transaction_votes (vb_inner b)) ?st1 = Some st'" "entries_ok st'" "same_tracker ?st1 st'"
        "\<forall>r i. voters_of st' r i = (if vt_gc_round st < br_round r \<and> (\<exists>bv\<in>set (b_transaction_votes (vb_inner b)). btv_block_ref bv = r \<and> i \<in> set (btv_rejects bv))
          then insert (vb_author b) (voters_of st r i) else voters_of st r i)" unfolding v1 by auto
    have blocks: "vi_block (vt_entry st' r) = (if r = ?r then Some b else vi_block (vt_entry st r))" for r
      using c(3) by (simp add: same_tracker_def vt_entry_insert)
    have fields: "vt_context st' = vt_context st" "vt_gc_round st' = vt_gc_round st" using c(3) by (simp_all add: same_tracker_def)
    have "rejecters (insert b B) r i = (if \<exists>bv\<in>set (b_transaction_votes (vb_inner b)). btv_block_ref bv = r \<and> i \<in> set (btv_rejects bv)
          then insert (vb_author b) (rejecters B r i) else rejecters B r i)" for r i
      by (auto simp: rejecters_def)
    then have "votes_ok st' (insert b B)" using t c(2,4) blocks fields unfolding votes_ok_def by auto
    moreover have "add_voted_block (b, rejects) st = Some st'"
      using False None auth c(1) by (simp add: add_voted_block_def Let_def)
    ultimately show ?thesis using False fields by simp
  qed
qed

lemma add_voted_blocks_ok:
  assumes "committee_wf (ctx_committee (vt_context st))" and "\<forall>(b, x)\<in>set voted. vb_author b < committee_size (ctx_committee (vt_context st))"
    and "votes_ok st B" and "inj_on reference (fst ` set voted \<union> B)"
  shows "\<exists>st'. add_voted_blocks voted st = Some st' \<and> vt_context st' = vt_context st \<and> vt_gc_round st' = vt_gc_round st
     \<and> votes_ok st' (B \<union> {b \<in> fst ` set voted. vt_gc_round st < vb_round b})"
  using assms
proof (induction voted arbitrary: st B)
  case (Cons e voted)
  obtain b x where e: "e = (b, x)" by force
  let ?B = "if vb_round b \<le> vt_gc_round st then B else insert b B"
  have inj: "inj_on reference (insert b B)" "inj_on reference (fst ` set voted \<union> ?B)"
    using Cons.prems(4) e by (auto intro: inj_on_subset)
  from add_voted_block_ok [OF Cons.prems(1) _ Cons.prems(3) inj(1), of x] Cons.prems(2) e obtain st1 where
    1: "add_voted_block e st = Some st1" "vt_context st1 = vt_context st" "vt_gc_round st1 = vt_gc_round st" "votes_ok st1 ?B" by auto
  from Cons.IH [OF _ _ 1(4) inj(2)] Cons.prems(1,2) 1(2,3) obtain st' where
    2: "add_voted_blocks voted st1 = Some st'" "vt_context st' = vt_context st" "vt_gc_round st' = vt_gc_round st"
      "votes_ok st' (?B \<union> {b \<in> fst ` set voted. vt_gc_round st < vb_round b})" by auto
  have "?B \<union> {b \<in> fst ` set voted. vt_gc_round st < vb_round b} = B \<union> {b \<in> fst ` set (e # voted). vt_gc_round st < vb_round b}"
    using e by (auto simp: not_le)
  then show ?case using 1(1) 2 by (simp add: add_voted_blocks_def)
qed (simp add: add_voted_blocks_def)

lemma map_of_drop_rounds:
  assumes "bmap_wf m"
  shows "map_of (dropWhile (\<lambda>(block_ref, _). br_round block_ref \<le> g) m) r = (if br_round r \<le> g then None else map_of m r)"
  using assms
proof (induction m)
  case (Cons e m)
  obtain r0 x where e: "e = (r0, x)" by force
  have wf: "bmap_wf m" "\<forall>r'\<in>fst ` set m. r0 < r'" using Cons.prems e by (auto simp: bmap_wf_def)
  have later: "br_round r0 \<le> br_round r'" if "r' \<in> fst ` set m" for r'
    using wf(2) that by (auto simp: block_ref_less_iff dest!: bspec)
  show ?case
  proof (cases "br_round r0 \<le> g")
    case True
    then show ?thesis using Cons.IH [OF wf(1)] e by auto
  next
    case False
    have "map_of (e # m) r = None" if "br_round r \<le> g"
      using False that e later by (fastforce simp: map_of_eq_None_iff)
    then show ?thesis using False e by simp
  qed
qed simp

lemma update_gc_round_ok:
  assumes "votes_ok st B" and "vt_gc_round st \<le> g"
  shows "votes_ok (update_gc_round g st) B"
proof -
  let ?st = "update_gc_round g st"
  note t = assms(1) [unfolded votes_ok_def]
  have wf: "bmap_wf (vt_votes st)" using t by (simp add: entries_ok_def)
  note look = map_of_drop_rounds [OF wf, of g]
  have look': "map_of (vt_votes ?st) r = (if br_round r \<le> g then None else map_of (vt_votes st) r)" for r
    by (simp add: update_gc_round_def look)
  let ?P = "\<lambda>(block_ref, _ :: vote_info). br_round block_ref \<le> g"
  have "bmap_wf (takeWhile ?P (vt_votes st) @ dropWhile ?P (vt_votes st))" using wf by simp
  then have "bmap_wf (vt_votes ?st)" by (simp add: update_gc_round_def bmap_wf_def sorted_wrt_append del: takeWhile_dropWhile_id)
  then have "entries_ok ?st" using t by (auto simp: entries_ok_def look' update_gc_round_def look)
  moreover have "vt_entry ?st r = (if br_round r \<le> g then VoteInfo_default else vt_entry st r)" for r
    by (simp add: vt_entry_def bmap_entry_def look')
  moreover have "vt_gc_round ?st = g" by (simp add: update_gc_round_def)
  ultimately show ?thesis using t assms(2) by (auto simp: votes_ok_def VoteInfo_default_def)
qed

text \<open>
  C25. Reject votes count every voter once: feed the tracker received blocks with valid authors whose references
  determine them, in any order and with repetitions, and collect garbage up to a round \<open>g\<close>. Nothing
  panics, and for a block above \<open>g\<close> the tracker reports for each transaction the stake of the
  authorities of which a received block rejects it, for exactly the transactions with such votes.
\<close>

theorem reject_stake_counts_voters_once:
  assumes "committee_wf (ctx_committee ctx)" and "\<forall>(b, x)\<in>set voted. vb_author b < committee_size (ctx_committee ctx) \<and> 0 < vb_round b"
    and "inj_on reference (fst ` set voted)"
  shows "\<exists>st. add_voted_blocks voted (VoteTrackerState_new ctx) = Some st
     \<and> (\<forall>r i s. g < br_round r \<longrightarrow> ((\<exists>votes. get_reject_votes (update_gc_round g st) r = Some votes \<and> (i, s) \<in> set votes)
          \<longleftrightarrow> rejecters (fst ` set voted) r i \<noteq> {} \<and> s = stake_of (ctx_committee ctx) (rejecters (fst ` set voted) r i)))
     \<and> (\<forall>b\<in>fst ` set voted. g < vb_round b \<longrightarrow> get_reject_votes (update_gc_round g st) (reference b) \<noteq> None)"
proof -
  let ?st0 = "VoteTrackerState_new ctx" and ?B = "fst ` set voted" and ?c = "ctx_committee ctx"
  have new: "votes_ok ?st0 {}"
    by (simp add: votes_ok_def entries_ok_def VoteTrackerState_new_def bmap_wf_def vt_entry_def bmap_entry_def VoteInfo_default_def
        reject_voters_def rejecters_def)
  have ctx: "vt_context ?st0 = ctx" "vt_gc_round ?st0 = 0" by (simp_all add: VoteTrackerState_new_def GENESIS_ROUND_def)
  have B: "{b \<in> ?B. 0 < vb_round b} = ?B" using assms(2) by auto
  have valid: "\<forall>(b, x)\<in>set voted. vb_author b < committee_size (ctx_committee (vt_context ?st0))" using assms(2) ctx by auto
  from add_voted_blocks_ok [OF _ valid new] assms(1,3) ctx(1) obtain st where
    st: "add_voted_blocks voted ?st0 = Some st" "vt_context st = ctx" "vt_gc_round st = 0" "votes_ok st {b \<in> ?B. 0 < vb_round b}" unfolding ctx by auto
  let ?st = "update_gc_round g st"
  have t: "votes_ok ?st ?B" by (rule update_gc_round_ok [OF st(4) [unfolded B]]) (simp add: st(3))
  have f: "vt_context ?st = ctx" "vt_gc_round ?st = g" using st(2) by (simp_all add: update_gc_round_def)
  have votes: "(\<exists>votes. get_reject_votes ?st r = Some votes \<and> (i, s) \<in> set votes)
      \<longleftrightarrow> rejecters ?B r i \<noteq> {} \<and> s = stake_of ?c (rejecters ?B r i)" if r: "g < br_round r" for r i s
  proof -
    let ?m = "vi_reject_txn_votes (vt_entry ?st r)"
    have ok: "rejects_ok ?c ?m" using entry_rejects_ok [of ?st r] t f(1) by (simp add: votes_ok_def)
    have voters: "reject_voters ?m i = rejecters ?B r i" using t r f(2) unfolding votes_ok_def by metis
    have "(\<exists>votes. get_reject_votes ?st r = Some votes \<and> (i, s) \<in> set votes) \<longleftrightarrow> (\<exists>agg. (i, agg) \<in> set ?m \<and> s = agg_stake agg)"
      by (cases "map_of (vt_votes ?st) r") (force simp: get_reject_votes_def vt_entry_def bmap_entry_def VoteInfo_default_def)+
    also have "\<dots> \<longleftrightarrow> (\<exists>agg. map_of ?m i = Some agg \<and> s = agg_stake agg)"
      using bmap_wf_map_of [of ?m i] ok by (simp add: rejects_ok_def)
    also have "\<dots> \<longleftrightarrow> rejecters ?B r i \<noteq> {} \<and> s = stake_of ?c (rejecters ?B r i)"
      using ok voters by (auto simp: rejects_ok_def agg_wf_def reject_voters_def split: option.splits)
    finally show ?thesis .
  qed
  have "get_reject_votes ?st (reference b) \<noteq> None" if "b \<in> ?B" "g < vb_round b" for b
    using t that f(2) by (auto simp: votes_ok_def get_reject_votes_def vt_entry_def bmap_entry_def VoteInfo_default_def split: option.splits)
  then show ?thesis using st(1) votes by blast
qed

definition sample_vote_block :: "authority_index \<Rightarrow> verified_block" where
  "sample_vote_block a = new_verified sample_crypto
     \<lparr>sb_inner = V2 \<lparr>v2_epoch = 0, v2_round = 2, v2_author = a, v2_timestamp_ms = 0, v2_ancestors = [], v2_transactions = [],
        v2_transaction_votes = [\<lparr>btv_block_ref = BlockRef 1 0 7, btv_rejects = [3, 3]\<rparr>], v2_commit_votes = [], v2_misbehavior_reports = []\<rparr>,
      sb_signature = []\<rparr> [of_nat a]"

lemma sample_vote_fields [simp]: "vb_author (sample_vote_block a) = a" "vb_round (sample_vote_block a) = 2"
  "b_transaction_votes (vb_inner (sample_vote_block a)) = [\<lparr>btv_block_ref = BlockRef 1 0 7, btv_rejects = [3, 3]\<rparr>]"
  by (simp_all add: sample_vote_block_def new_verified_def vb_inner_def)

definition sample_voted :: "(verified_block \<times> transaction_index list) list" where
  "sample_voted = [(sample_vote_block 1, []), (sample_vote_block 2, [])]"

theorem reject_stake_counts_voters_once_witness:
  "\<exists>st votes. add_voted_blocks (sample_voted @ sample_voted) (VoteTrackerState_new sample_context) = Some st
     \<and> get_reject_votes (update_gc_round 0 st) (BlockRef 1 0 7) = Some votes \<and> (3, stake_of sample_committee {1, 2}) \<in> set votes"
proof -
  have voted: "\<forall>(b, x)\<in>set (sample_voted @ sample_voted). vb_author b < committee_size (ctx_committee sample_context) \<and> 0 < vb_round b"
    by (simp add: sample_voted_def)
  have inj: "inj_on reference (fst ` set (sample_voted @ sample_voted))"
    by (rule inj_onI) (auto simp: sample_voted_def dest!: arg_cong [of _ _ br_author])
  have rej: "rejecters (fst ` set (sample_voted @ sample_voted)) (BlockRef 1 0 7) 3 = {1, 2}"
    by (force simp: rejecters_def sample_voted_def)
  have wf: "committee_wf (ctx_committee sample_context)" using sample_committee_wf by simp
  from reject_stake_counts_voters_once [OF wf voted inj, of 0] obtain st where
    st: "add_voted_blocks (sample_voted @ sample_voted) (VoteTrackerState_new sample_context) = Some st"
      "\<forall>r i s. 0 < br_round r \<longrightarrow> ((\<exists>votes. get_reject_votes (update_gc_round 0 st) r = Some votes \<and> (i, s) \<in> set votes)
          \<longleftrightarrow> rejecters (fst ` set (sample_voted @ sample_voted)) r i \<noteq> {}
             \<and> s = stake_of (ctx_committee sample_context) (rejecters (fst ` set (sample_voted @ sample_voted)) r i))" by blast
  from st(2) [rule_format, of "BlockRef 1 0 7" 3 "stake_of sample_committee {1, 2}"] st(1) show ?thesis unfolding rej by auto
qed

end
