(* ===== verification/Transaction_Consumer.thy ===== *)
theory Transaction_Consumer
  imports Block_Types
begin

text \<open>
  Model of \<open>consensus/src/transaction.rs\<close>: the queue of submitted transactions between
  \<open>TransactionClient\<close> and \<open>TransactionConsumer\<close>, and the notification of submitters. The
  channel is the list of the bundles in it. The sender half of a bundle's oneshot channel is the
  number of its submission, which also names the channel for the status of its block; what was sent on these
  channels is kept as lists. A send that waits for room in the bounded channel is a step that happens later.
\<close>

section \<open>State\<close>

definition PING_TRANSACTION_INDEX :: transaction_index where
  "PING_TRANSACTION_INDEX = u16_max"

definition NUM_RESERVED_TRANSACTION_INDICES :: transaction_index where
  "NUM_RESERVED_TRANSACTION_INDICES = 8"

record transactions_guard =
  tg_transactions :: "transaction list"
  tg_ack :: nat

datatype block_status = Sequenced block_ref | GarbageCollected block_ref

datatype limit_reached = MaxNumOfTransactions | MaxBytes | AllTransactionsIncluded

type_synonym inclusion_ack = "nat \<times> transaction_index list"

record transaction_consumer =
  tcn_receiver :: "transactions_guard list"
  tcn_max_bytes :: nat
  tcn_max_num :: nat
  tcn_pending :: "transactions_guard option"
  tcn_subscribers :: "(block_ref \<times> nat list) list"
  tcn_included :: "(nat \<times> block_ref \<times> transaction_index list) list"
  tcn_statuses :: "(nat \<times> block_status) list"

definition TransactionConsumer_new :: "transactions_guard list \<Rightarrow> consensus_context \<Rightarrow> transaction_consumer option" where
  "TransactionConsumer_new receiver ctx = do {
     let config = protocol_config ctx;
     rassert (max_num_transactions_in_block config - 1 < u16_max - NUM_RESERVED_TRANSACTION_INDICES);
     Some \<lparr>tcn_receiver = receiver, tcn_max_bytes = max_transactions_in_block_bytes config,
           tcn_max_num = max_num_transactions_in_block config, tcn_pending = None, tcn_subscribers = [],
           tcn_included = [], tcn_statuses = []\<rparr>
   }"

section \<open>Pulling transactions\<close>

text \<open>The variables of \<open>next\<close> that the closure \<open>handle_txs\<close> updates.\<close>

record pull_state =
  ps_transactions :: "transaction list"
  ps_acks :: "inclusion_ack list"
  ps_total_bytes :: nat
  ps_limit_reached :: limit_reached

definition as_u16 :: "nat \<Rightarrow> nat" where
  "as_u16 n = n mod (u16_max + 1)"

definition u16_add :: "nat \<Rightarrow> nat \<Rightarrow> nat option" where
  "u16_add a b = (if a + b \<le> u16_max then Some (a + b) else None)"

definition handle_txs ::
    "transaction_consumer \<Rightarrow> transactions_guard \<Rightarrow> pull_state \<Rightarrow> (pull_state \<times> transactions_guard option) option" where
  "handle_txs c t s = do {
     let transactions_num = length (tg_transactions t);
     (if transactions_num = 0 then Some (s\<lparr>ps_acks := ps_acks s @ [(tg_ack t, [PING_TRANSACTION_INDEX])]\<rparr>, None)
      else do {
        transactions_bytes \<leftarrow> u64_sum (map length (tg_transactions t));
        total_bytes \<leftarrow> u64_add (ps_total_bytes s) transactions_bytes;
        (if total_bytes > tcn_max_bytes c then Some (s\<lparr>ps_limit_reached := MaxBytes\<rparr>, Some t)
         else do {
           total_num \<leftarrow> u64_add (length (ps_transactions s)) transactions_num;
           (if total_num > tcn_max_num c then Some (s\<lparr>ps_limit_reached := MaxNumOfTransactions\<rparr>, Some t)
            else do {
              let start_idx = as_u16 (length (ps_transactions s));
              end_idx \<leftarrow> u16_add start_idx (as_u16 transactions_num);
              Some (s\<lparr>ps_transactions := ps_transactions s @ tg_transactions t,
                      ps_acks := ps_acks s @ [(tg_ack t, [start_idx..<end_idx])], ps_total_bytes := total_bytes\<rparr>, None)
            })
         })
      })
   }"

fun pull_queue ::
    "transaction_consumer \<Rightarrow> transactions_guard list \<Rightarrow> pull_state
       \<Rightarrow> (pull_state \<times> transactions_guard list \<times> transactions_guard option) option" where
  "pull_queue c [] s = Some (s, [], None)"
| "pull_queue c (t # queue) s = do {
     (s', left) \<leftarrow> handle_txs c t s;
     (case left of None \<Rightarrow> pull_queue c queue s' | Some g \<Rightarrow> Some (s', queue, Some g))
   }"

text \<open>\<open>debug_fatal\<close> is a panic in debug builds; \<open>next_pulls_fitting_prefix\<close> shows that it is not reached.\<close>

definition tcn_next ::
    "transaction_consumer \<Rightarrow> (transaction_consumer \<times> transaction list \<times> inclusion_ack list \<times> limit_reached) option" where
  "tcn_next c = do {
     let s0 = \<lparr>ps_transactions = [], ps_acks = [], ps_total_bytes = 0, ps_limit_reached = AllTransactionsIncluded\<rparr>;
     s1 \<leftarrow> (case tcn_pending c of
        None \<Rightarrow> Some s0
      | Some t \<Rightarrow> do { (s, left) \<leftarrow> handle_txs c t s0; rassert (left = None); Some s });
     (s2, queue, pending) \<leftarrow> pull_queue c (tcn_receiver c) s1;
     Some (c\<lparr>tcn_receiver := queue, tcn_pending := pending\<rparr>, ps_transactions s2, ps_acks s2, ps_limit_reached s2)
   }"

definition ack_one :: "block_ref \<Rightarrow> inclusion_ack \<Rightarrow> transaction_consumer \<Rightarrow> transaction_consumer" where
  "ack_one block_ref = (\<lambda>(ack, tx_indices) c.
     c\<lparr>tcn_subscribers := bmap_insert block_ref (bmap_entry [] (tcn_subscribers c) block_ref @ [ack]) (tcn_subscribers c),
       tcn_included := tcn_included c @ [(ack, block_ref, tx_indices)]\<rparr>)"

text \<open>The callback \<open>next\<close> returns, called with the block that includes the transactions.\<close>

definition ack_transactions :: "inclusion_ack list \<Rightarrow> block_ref \<Rightarrow> transaction_consumer \<Rightarrow> transaction_consumer" where
  "ack_transactions acks block_ref c = fold (ack_one block_ref) acks c"

section \<open>Notifying submitters\<close>

definition notify_sequenced :: "block_ref \<Rightarrow> transaction_consumer \<Rightarrow> transaction_consumer" where
  "notify_sequenced block_ref c = (case map_of (tcn_subscribers c) block_ref of
     None \<Rightarrow> c
   | Some subscribers \<Rightarrow> c\<lparr>tcn_subscribers := bmap_remove block_ref (tcn_subscribers c),
       tcn_statuses := tcn_statuses c @ map (\<lambda>s. (s, Sequenced block_ref)) subscribers\<rparr>)"

fun pop_collected :: "round \<Rightarrow> (block_ref \<times> nat list) list \<Rightarrow> (nat \<times> block_status) list \<times> (block_ref \<times> nat list) list" where
  "pop_collected gc_round [] = ([], [])"
| "pop_collected gc_round ((block_ref, subscribers) # rest) =
     (if br_round block_ref \<le> gc_round then
        (let (statuses, kept) = pop_collected gc_round rest
         in (map (\<lambda>s. (s, GarbageCollected block_ref)) subscribers @ statuses, kept))
      else ([], (block_ref, subscribers) # rest))"

definition notify_own_blocks_status :: "block_ref list \<Rightarrow> round \<Rightarrow> transaction_consumer \<Rightarrow> transaction_consumer" where
  "notify_own_blocks_status committed_blocks gc_round c = (
     let c1 = fold notify_sequenced committed_blocks c;
         (statuses, kept) = pop_collected gc_round (tcn_subscribers c1)
     in c1\<lparr>tcn_subscribers := kept, tcn_statuses := tcn_statuses c1 @ statuses\<rparr>)"

section \<open>Submitting\<close>

record transaction_client =
  tcl_context :: consensus_context
  tcl_max_transaction_size :: nat
  tcl_max_bytes :: nat
  tcl_max_count :: nat

datatype client_error = ConsensusShuttingDown | OversizedTransaction nat nat
  | OversizedTransactionBundleBytes nat nat | OversizedTransactionBundleCount nat nat

definition TransactionClient_new :: "consensus_context \<Rightarrow> transaction_client" where
  "TransactionClient_new ctx = \<lparr>tcl_context = ctx, tcl_max_transaction_size = max_transaction_size_bytes (protocol_config ctx),
     tcl_max_bytes = max_transactions_in_block_bytes (protocol_config ctx),
     tcl_max_count = max_num_transactions_in_block (protocol_config ctx)\<rparr>"

definition tcl_epoch :: "transaction_client \<Rightarrow> nat" where
  "tcl_epoch client = committee_epoch (ctx_committee (tcl_context client))"

fun check_sizes :: "transaction_client \<Rightarrow> bytes list \<Rightarrow> nat \<Rightarrow> (client_error + unit) option" where
  "check_sizes client [] bundle_size = Some (Inr ())"
| "check_sizes client (t # ts) bundle_size =
     (if length t > tcl_max_transaction_size client
      then Some (Inl (OversizedTransaction (length t) (tcl_max_transaction_size client)))
      else do {
        total_bytes \<leftarrow> u64_add bundle_size (length t);
        (if total_bytes > tcl_max_bytes client
         then Some (Inl (OversizedTransactionBundleBytes total_bytes (tcl_max_bytes client)))
         else check_sizes client ts total_bytes)
      })"

text \<open>The channel is the queue of the consumer, or None when the receiver is gone.\<close>

definition submit_no_wait ::
    "transaction_client \<Rightarrow> nat \<Rightarrow> bytes list \<Rightarrow> transactions_guard list option
       \<Rightarrow> (client_error + transactions_guard list) option" where
  "submit_no_wait client ack transactions channel =
     (if length transactions > tcl_max_count client
      then Some (Inl (OversizedTransactionBundleCount (length transactions) (tcl_max_count client)))
      else do {
        checked \<leftarrow> check_sizes client transactions 0;
        Some (case checked of
          Inl e \<Rightarrow> Inl e
        | Inr _ \<Rightarrow> (case channel of
            None \<Rightarrow> Inl ConsensusShuttingDown
          | Some queue \<Rightarrow> Inr (queue @ [\<lparr>tg_transactions = transactions, tg_ack = ack\<rparr>])))
      })"

section \<open>Bundles fit, in order\<close>

abbreviation bytes_of :: "transaction list \<Rightarrow> nat" where
  "bytes_of txs \<equiv> sum_list (map length txs)"

definition waiting :: "transaction_consumer \<Rightarrow> transactions_guard list" where
  "waiting c = (case tcn_pending c of None \<Rightarrow> [] | Some t \<Rightarrow> [t]) @ tcn_receiver c"

definition fits :: "transaction_consumer \<Rightarrow> transaction list \<Rightarrow> bool" where
  "fits c txs \<longleftrightarrow> length txs \<le> tcn_max_num c \<and> bytes_of txs \<le> tcn_max_bytes c"

text \<open>Every bundle fits into a block of its own and the limits leave room for the arithmetic.\<close>

definition consumer_ok :: "transaction_consumer \<Rightarrow> bool" where
  "consumer_ok c \<longleftrightarrow> (\<forall>t\<in>set (waiting c). fits c (tg_transactions t)) \<and> tcn_max_num c < u16_max - NUM_RESERVED_TRANSACTION_INDICES + 1
     \<and> 2 * tcn_max_bytes c \<le> u64_max"

text \<open>The acknowledgement of a bundle points at its transactions.\<close>

definition ack_ok :: "transaction list \<Rightarrow> transactions_guard \<Rightarrow> inclusion_ack \<Rightarrow> bool" where
  "ack_ok txs t a \<longleftrightarrow> fst a = tg_ack t
     \<and> (if tg_transactions t = [] then snd a = [PING_TRANSACTION_INDEX]
        else (\<forall>i\<in>set (snd a). i < length txs) \<and> map ((!) txs) (snd a) = tg_transactions t)"

abbreviation acks_ok :: "transaction list \<Rightarrow> transactions_guard list \<Rightarrow> inclusion_ack list \<Rightarrow> bool" where
  "acks_ok txs \<equiv> list_all2 (ack_ok txs)"

lemma ack_ok_append:
  assumes "ack_ok txs t a"
  shows "ack_ok (txs @ more_txs) t a"
proof -
  have "map ((!) (txs @ more_txs)) (snd a) = map ((!) txs) (snd a)" if "\<forall>i\<in>set (snd a). i < length txs"
    using that by (simp add: nth_append)
  then show ?thesis using assms unfolding ack_ok_def by (metis length_append trans_less_add1)
qed

lemma acks_ok_snoc:
  assumes "acks_ok txs taken acks" and "tg_transactions t \<noteq> []"
  shows "acks_ok (txs @ tg_transactions t) (taken @ [t]) (acks @ [(tg_ack t, [length txs..<length txs + length (tg_transactions t)])])"
proof -
  have "map ((!) (txs @ tg_transactions t)) [length txs..<length txs + length (tg_transactions t)] = tg_transactions t"
    by (rule nth_equalityI) (simp_all add: nth_append)
  moreover have "acks_ok (txs @ tg_transactions t) taken acks" using assms(1) by (rule list_all2_mono) (rule ack_ok_append)
  ultimately show ?thesis using assms(2) by (intro list_all2_appendI) (simp_all add: ack_ok_def)
qed

definition pulled :: "transaction_consumer \<Rightarrow> transactions_guard list \<Rightarrow> pull_state \<Rightarrow> bool" where
  "pulled c taken s \<longleftrightarrow> ps_transactions s = concat (map tg_transactions taken) \<and> ps_total_bytes s = bytes_of (ps_transactions s)
     \<and> fits c (ps_transactions s) \<and> acks_ok (ps_transactions s) taken (ps_acks s)"

lemma handle_txs_pulls:
  assumes "pulled c taken s" and "fits c (tg_transactions t)" and "tcn_max_num c < u16_max - NUM_RESERVED_TRANSACTION_INDICES + 1"
    and "2 * tcn_max_bytes c \<le> u64_max"
  shows "\<exists>s' left. handle_txs c t s = Some (s', left)
     \<and> (if fits c (ps_transactions s @ tg_transactions t) then left = None \<and> pulled c (taken @ [t]) s' \<and> ps_limit_reached s' = ps_limit_reached s
        else left = Some t \<and> pulled c taken s' \<and> ps_transactions s' = ps_transactions s \<and> ps_limit_reached s' \<noteq> AllTransactionsIncluded)"
proof (cases "tg_transactions t = []")
  case True
  then show ?thesis
    using assms(1) by (auto simp: handle_txs_def pulled_def ack_ok_def intro!: list_all2_appendI)
next
  case False
  let ?n = "length (ps_transactions s)" and ?m = "length (tg_transactions t)"
  note p = assms(1) [unfolded pulled_def]
  have small: "tcn_max_num c \<le> 65527" using assms(3) by (simp add: u16_max_def NUM_RESERVED_TRANSACTION_INDICES_def)
  have n: "?n \<le> tcn_max_num c" "bytes_of (ps_transactions s) \<le> tcn_max_bytes c" using p unfolding fits_def by blast+
  have m: "?m \<le> tcn_max_num c" "bytes_of (tg_transactions t) \<le> tcn_max_bytes c" using assms(2) by (simp_all add: fits_def)
  have sums: "u64_sum (map length (tg_transactions t)) = Some (bytes_of (tg_transactions t))"
    "u64_add (ps_total_bytes s) (bytes_of (tg_transactions t)) = Some (bytes_of (ps_transactions s @ tg_transactions t))"
    "u64_add ?n ?m = Some (?n + ?m)"
    using n m conjunct1 [OF conjunct2 [OF p]] assms(4) small by (simp_all add: u64_sum_eq u64_add_def u64_max_def)
  have idx: "as_u16 ?n = ?n" "as_u16 ?m = ?m" using n m small by (simp_all add: as_u16_def u16_max_def)
  show ?thesis
  proof (cases "fits c (ps_transactions s @ tg_transactions t)")
    case True
    then have "u16_add ?n ?m = Some (?n + ?m)" using small by (simp add: u16_add_def fits_def u16_max_def)
    then have "handle_txs c t s = Some (s\<lparr>ps_transactions := ps_transactions s @ tg_transactions t,
        ps_acks := ps_acks s @ [(tg_ack t, [?n..<?n + ?m])], ps_total_bytes := bytes_of (ps_transactions s @ tg_transactions t)\<rparr>, None)"
      using True False by (simp add: handle_txs_def sums idx fits_def Let_def)
    moreover have "acks_ok (ps_transactions s) taken (ps_acks s)" "ps_transactions s = concat (map tg_transactions taken)" using p by blast+
    ultimately show ?thesis using True acks_ok_snoc [OF _ False, of "ps_transactions s" taken "ps_acks s"] by (simp add: pulled_def)
  next
    case no: False
    then have "\<exists>l. l \<noteq> AllTransactionsIncluded \<and> handle_txs c t s = Some (s\<lparr>ps_limit_reached := l\<rparr>, Some t)"
      using False by (auto simp: handle_txs_def sums fits_def Let_def not_le)
    moreover have "pulled c taken (s\<lparr>ps_limit_reached := l\<rparr>)" for l using p by (auto simp: pulled_def)
    ultimately show ?thesis using no by auto
  qed
qed

lemma pull_queue_pulls:
  assumes "pulled c taken s" and "\<forall>t\<in>set queue. fits c (tg_transactions t)" and "ps_limit_reached s = AllTransactionsIncluded"
    and "tcn_max_num c < u16_max - NUM_RESERVED_TRANSACTION_INDICES + 1" and "2 * tcn_max_bytes c \<le> u64_max"
  shows "\<exists>s' rest left new. pull_queue c queue s = Some (s', rest, left)
     \<and> queue = new @ (case left of None \<Rightarrow> [] | Some t \<Rightarrow> [t]) @ rest \<and> pulled c (taken @ new) s'
     \<and> (case left of None \<Rightarrow> rest = [] \<and> ps_limit_reached s' = AllTransactionsIncluded
        | Some t \<Rightarrow> \<not> fits c (ps_transactions s' @ tg_transactions t) \<and> ps_limit_reached s' \<noteq> AllTransactionsIncluded)"
  using assms(1-3)
proof (induction queue arbitrary: taken s)
  case (Cons t queue)
  from handle_txs_pulls [OF Cons.prems(1) _ assms(4,5), of t] Cons.prems(2) obtain s1 left where
    h: "handle_txs c t s = Some (s1, left)"
      "if fits c (ps_transactions s @ tg_transactions t) then left = None \<and> pulled c (taken @ [t]) s1 \<and> ps_limit_reached s1 = ps_limit_reached s
        else left = Some t \<and> pulled c taken s1 \<and> ps_transactions s1 = ps_transactions s \<and> ps_limit_reached s1 \<noteq> AllTransactionsIncluded" by auto
  show ?case
  proof (cases "fits c (ps_transactions s @ tg_transactions t)")
    case True
    with h(2) have s1: "left = None" "pulled c (taken @ [t]) s1" "ps_limit_reached s1 = AllTransactionsIncluded" using Cons.prems(3) by simp_all
    from Cons.IH [OF s1(2) _ s1(3)] Cons.prems(2) obtain s' rest left' new where
      "pull_queue c queue s1 = Some (s', rest, left')" "queue = new @ (case left' of None \<Rightarrow> [] | Some t \<Rightarrow> [t]) @ rest" "pulled c ((taken @ [t]) @ new) s'"
      "case left' of None \<Rightarrow> rest = [] \<and> ps_limit_reached s' = AllTransactionsIncluded
        | Some t \<Rightarrow> \<not> fits c (ps_transactions s' @ tg_transactions t) \<and> ps_limit_reached s' \<noteq> AllTransactionsIncluded" by auto
    then show ?thesis using h(1) s1(1) by (intro exI [of _ s'] exI [of _ rest] exI [of _ left'] exI [of _ "t # new"]) simp
  next
    case False
    then show ?thesis using h by (intro exI [of _ s1] exI [of _ queue] exI [of _ "Some t"] exI [of _ "[]"]) simp
  qed
qed simp

lemma next_takes_prefix:
  assumes "consumer_ok c"
  shows "\<exists>c' txs acks limit taken. tcn_next c = Some (c', txs, acks, limit) \<and> waiting c = taken @ waiting c'
     \<and> txs = concat (map tg_transactions taken) \<and> fits c txs \<and> acks_ok txs taken acks
     \<and> (\<forall>t rest. waiting c' = t # rest \<longrightarrow> \<not> fits c (txs @ tg_transactions t))
     \<and> (limit = AllTransactionsIncluded \<longleftrightarrow> waiting c' = []) \<and> consumer_ok c'"
proof -
  note ok = assms [unfolded consumer_ok_def]
  let ?s0 = "\<lparr>ps_transactions = [], ps_acks = [], ps_total_bytes = 0, ps_limit_reached = AllTransactionsIncluded\<rparr>"
  let ?first = "case tcn_pending c of None \<Rightarrow> [] | Some t \<Rightarrow> [t]"
  have s0: "pulled c [] ?s0" by (simp add: pulled_def fits_def)
  obtain s1 where s1: "(case tcn_pending c of None \<Rightarrow> Some ?s0
      | Some t \<Rightarrow> do { (s, left) \<leftarrow> handle_txs c t ?s0; rassert (left = None); Some s }) = Some s1"
    "pulled c ?first s1" "ps_limit_reached s1 = AllTransactionsIncluded"
  proof (cases "tcn_pending c")
    case None
    then show ?thesis using that s0 by simp
  next
    case (Some t)
    then have "fits c (tg_transactions t)" using ok by (simp add: waiting_def)
    then show ?thesis using handle_txs_pulls [OF s0, of t] ok Some that by (auto simp: rassert_def)
  qed
  have fit: "\<forall>t\<in>set (tcn_receiver c). fits c (tg_transactions t)" using ok by (simp add: waiting_def)
  from pull_queue_pulls [OF s1(2) fit s1(3)] ok obtain s2 rest left new where
    q: "pull_queue c (tcn_receiver c) s1 = Some (s2, rest, left)" "tcn_receiver c = new @ (case left of None \<Rightarrow> [] | Some t \<Rightarrow> [t]) @ rest"
      "pulled c (?first @ new) s2"
      "case left of None \<Rightarrow> rest = [] \<and> ps_limit_reached s2 = AllTransactionsIncluded
        | Some t \<Rightarrow> \<not> fits c (ps_transactions s2 @ tg_transactions t) \<and> ps_limit_reached s2 \<noteq> AllTransactionsIncluded" by blast
  let ?c' = "c\<lparr>tcn_receiver := rest, tcn_pending := left\<rparr>"
  have wait: "waiting c = (?first @ new) @ waiting ?c'" using q(2) by (simp add: waiting_def)
  have ok': "consumer_ok ?c'" using ok wait by (auto simp: consumer_ok_def fits_def)
  have run: "tcn_next c = Some (?c', ps_transactions s2, ps_acks s2, ps_limit_reached s2)"
    using s1(1) q(1) by (simp add: tcn_next_def Let_def)
  have p: "ps_transactions s2 = concat (map tg_transactions (?first @ new))" "fits c (ps_transactions s2)"
    "acks_ok (ps_transactions s2) (?first @ new) (ps_acks s2)" using q(3) unfolding pulled_def by blast+
  have left: "\<forall>t rest'. waiting ?c' = t # rest' \<longrightarrow> \<not> fits c (ps_transactions s2 @ tg_transactions t)"
    "ps_limit_reached s2 = AllTransactionsIncluded \<longleftrightarrow> waiting ?c' = []"
    using q(4) by (auto simp: waiting_def split: option.splits)
  show ?thesis by (intro exI conjI) (fact run wait p left ok')+
qed


definition sample_consumer :: transaction_consumer where
  "sample_consumer = \<lparr>tcn_receiver = [\<lparr>tg_transactions = [[1], [2]], tg_ack = 0\<rparr>, \<lparr>tg_transactions = [], tg_ack = 1\<rparr>,
     \<lparr>tg_transactions = [[3, 4]], tg_ack = 2\<rparr>], tcn_max_bytes = 3, tcn_max_num = 4, tcn_pending = None,
     tcn_subscribers = [], tcn_included = [], tcn_statuses = []\<rparr>"


text \<open>What the client accepts fits into a block.\<close>

lemma check_sizes_fits:
  assumes "check_sizes client ts b = Some (Inr ())" and "b \<le> tcl_max_bytes client"
  shows "b + bytes_of ts \<le> tcl_max_bytes client \<and> (\<forall>t\<in>set ts. length t \<le> tcl_max_transaction_size client)"
  using assms by (induction ts arbitrary: b) (fastforce simp: u64_add_def not_less add.assoc [symmetric] split: if_splits)+

lemma submit_keeps_consumer_ok:
  assumes "consumer_ok c" and "submit_no_wait client ack ts (Some (tcn_receiver c)) = Some (Inr queue)"
    and "tcl_max_count client = tcn_max_num c" and "tcl_max_bytes client = tcn_max_bytes c"
  shows "consumer_ok (c\<lparr>tcn_receiver := queue\<rparr>)"
proof -
  from assms(2) have "check_sizes client ts 0 = Some (Inr ())" "length ts \<le> tcl_max_count client"
    "queue = tcn_receiver c @ [\<lparr>tg_transactions = ts, tg_ack = ack\<rparr>]"
    by (auto simp: submit_no_wait_def split: if_splits sum.splits Option.bind_splits)
  then show ?thesis
    using check_sizes_fits [of client ts 0] assms(1,3,4) by (auto simp: consumer_ok_def waiting_def fits_def)
qed

end
