(* ===== verification/Proposer.thy ===== *)
theory Proposer
  imports Node_Agreement Ancestor_State Vote_Tracker Transaction_Consumer
begin

text \<open>
  Model of \<open>ValidatorProposer\<close> in \<open>consensus/src/proposer.rs\<close>: the selection of ancestors and the
  construction of a new block. The DAG state and the leader schedule are shared with the core and
  passed as arguments; of the leader waiter the variant of version 2 is modelled, which waits for the
  leaders of the committer. The clock is read once per call. Committee lookups for metrics, which can
  panic, are kept.
\<close>

section \<open>State\<close>

definition MAX_COMMIT_VOTES_PER_BLOCK :: nat where
  "MAX_COMMIT_VOTES_PER_BLOCK = 100"

record validator_proposer =
  vp_context :: consensus_context
  vp_transaction_consumer :: transaction_consumer
  vp_vote_tracker :: vote_tracker
  vp_propagation_delay :: round
  vp_last_included_ancestors :: "block_ref option list"
  vp_block_signer :: bytes
  vp_last_known_proposed_round :: "round option"
  vp_ancestor_state_manager :: ancestor_state_manager
  vp_round_tracker :: round_tracker

definition ValidatorProposer_new ::
    "consensus_context \<Rightarrow> transaction_consumer \<Rightarrow> vote_tracker \<Rightarrow> bytes \<Rightarrow> round option \<Rightarrow> ancestor_state_manager \<Rightarrow> round_tracker
       \<Rightarrow> validator_proposer" where
  "ValidatorProposer_new ctx consumer votes signer last_known manager rounds =
     \<lparr>vp_context = ctx, vp_transaction_consumer = consumer, vp_vote_tracker = votes, vp_propagation_delay = 0,
      vp_last_included_ancestors = replicate (committee_size (ctx_committee ctx)) None, vp_block_signer = signer,
      vp_last_known_proposed_round = last_known, vp_ancestor_state_manager = manager, vp_round_tracker = rounds\<rparr>"

definition vp_last_proposed_block :: "dag_state \<Rightarrow> verified_block option" where
  "vp_last_proposed_block d = Option.bind (get_last_proposed_block d) id"

definition leader_slots_to_wait_for :: "rng_lib \<Rightarrow> universal_committer \<Rightarrow> round \<Rightarrow> slot list option" where
  "leader_slots_to_wait_for rng committer r = map_option (map (Slot r)) (get_leaders rng committer r)"

definition vp_should_propose :: "validator_proposer \<Rightarrow> dag_state \<Rightarrow> bool" where
  "vp_should_propose p d = (
     let clock_round = threshold_clock_round d in
     if vp_propagation_delay p > propagation_delay_stop_proposal_threshold (ctx_parameters (vp_context p)) then False
     else case vp_last_known_proposed_round p of
       None \<Rightarrow> False
     | Some last_known_proposed_round \<Rightarrow> \<not> clock_round \<le> last_known_proposed_round)"

section \<open>Choosing ancestors\<close>

text \<open>What the closure over \<open>all_ancestors\<close> collects: the ancestors to include, those set aside with
  their scores, and the references of equivocating blocks.\<close>

type_synonym selection = "verified_block list \<times> (nat \<times> verified_block) list \<times> block_ref list"

definition select_ancestor ::
    "validator_proposer \<Rightarrow> ancestor_state list \<Rightarrow> verified_block \<times> block_ref list \<Rightarrow> selection \<Rightarrow> selection option" where
  "select_ancestor p ancestor_state_map = (\<lambda>(ancestor, equivocating_ancestors) (included, pending, excluded).
     if vb_author ancestor = own_index (vp_context p) then Some (included, pending, excluded)
     else do {
       last_included \<leftarrow> vec_get (vp_last_included_ancestors p) (vb_author ancestor);
       (if (case last_included of Some last_block_ref \<Rightarrow> br_round last_block_ref \<ge> vb_round ancestor | None \<Rightarrow> False)
        then Some (included, pending, excluded)
        else do {
          state \<leftarrow> vec_get ancestor_state_map (vb_author ancestor);
          let excluded' = bset_extend excluded equivocating_ancestors;
          Some (case state of
            Include \<Rightarrow> (included @ [ancestor], pending, excluded')
          | Exclude score \<Rightarrow> (included, pending @ [(score, ancestor)], excluded'))
        })
     })"

definition add_parent :: "committee \<Rightarrow> round \<Rightarrow> verified_block \<Rightarrow> stake_aggregator \<Rightarrow> stake_aggregator option" where
  "add_parent c quorum_round ancestor agg =
     (if vb_round ancestor = quorum_round then map_option fst (agg_add (vb_author ancestor) c agg) else Some agg)"

definition include_for_quorum ::
    "committee \<Rightarrow> round \<Rightarrow> nat \<times> verified_block \<Rightarrow> stake_aggregator \<times> verified_block list \<times> (nat \<times> verified_block) list
       \<Rightarrow> (stake_aggregator \<times> verified_block list \<times> (nat \<times> verified_block) list) option" where
  "include_for_quorum c quorum_round = (\<lambda>(score, ancestor) (agg, ancestors, excluded). do {
     _ \<leftarrow> committee_authority c (vb_author ancestor);
     (if \<not> agg_reached_threshold c agg \<and> vb_round ancestor = quorum_round then do {
        (agg', _) \<leftarrow> agg_add (vb_author ancestor) c agg;
        Some (agg', ancestors @ [ancestor], excluded)
      } else Some (agg, ancestors, excluded @ [(score, ancestor)]))
   })"

text \<open>The block of a low scoring authority to include: its last one if a quorum accepted it, or an
  earlier one that is above what was included before. With it whether the last block is reported as excluded.\<close>

definition accepted_ancestor ::
    "dag_state \<Rightarrow> round \<Rightarrow> round \<Rightarrow> verified_block \<Rightarrow> (verified_block option \<times> bool) option" where
  "accepted_ancestor d low last_included_round ancestor =
     (if vb_round ancestor \<le> last_included_round then Some (None, False)
      else if last_included_round \<ge> low then Some (None, True)
      else if vb_round ancestor \<le> low then Some (Some ancestor, False)
      else do {
        start_round \<leftarrow> u32_add last_included_round 1;
        end_round \<leftarrow> u32_add low 1;
        earlier \<leftarrow> get_last_cached_block_in_range d (vb_author ancestor) start_round end_round;
        Some (earlier, True)
      })"

definition include_accepted ::
    "dag_state \<Rightarrow> committee \<Rightarrow> quorum_round list \<Rightarrow> round \<Rightarrow> nat \<times> verified_block
       \<Rightarrow> block_ref option list \<times> verified_block list \<times> block_ref list
       \<Rightarrow> (block_ref option list \<times> verified_block list \<times> block_ref list) option" where
  "include_accepted d c accepted_quorum_rounds quorum_round = (\<lambda>(score, ancestor) (last_included, ancestors, excluded). do {
     _ \<leftarrow> committee_authority c (vb_author ancestor);
     (accepted_low, _) \<leftarrow> vec_get accepted_quorum_rounds (vb_author ancestor);
     last_ref \<leftarrow> vec_get last_included (vb_author ancestor);
     let last_included_round = (case last_ref of Some r \<Rightarrow> br_round r | None \<Rightarrow> GENESIS_ROUND);
     (chosen, report) \<leftarrow> accepted_ancestor d (min accepted_low quorum_round) last_included_round ancestor;
     let excluded' = (if report then bset_insert (reference ancestor) excluded else excluded);
     (case chosen of
        None \<Rightarrow> Some (last_included, ancestors, excluded')
      | Some block \<Rightarrow> do {
          last_included' \<leftarrow> vec_set last_included (vb_author ancestor) (Some (reference block));
          Some (last_included', ancestors @ [block], excluded')
        })
   })"

definition smart_ancestors_to_propose ::
    "round \<Rightarrow> bool \<Rightarrow> dag_state \<Rightarrow> validator_proposer \<Rightarrow> (validator_proposer \<times> verified_block list \<times> block_ref list) option" where
  "smart_ancestors_to_propose clock_round smart_select d p = do {
     let c = ctx_committee (vp_context p);
     all_ancestors \<leftarrow> get_last_cached_block_per_authority d clock_round;
     rassert (length all_ancestors = committee_size c);
     accepted_quorum_rounds \<leftarrow> compute_accepted_quorum_rounds (vp_round_tracker p);
     manager \<leftarrow> update_all_ancestors_state (threshold_clock_round d) accepted_quorum_rounds (vp_ancestor_state_manager p);
     let p1 = p\<lparr>vp_ancestor_state_manager := manager\<rparr>;
     let quorum_round = saturating_sub clock_round 1;
     own \<leftarrow> vp_last_proposed_block d;
     (included, pending, excluded) \<leftarrow> for_each (select_ancestor p1 (get_ancestor_states manager)) all_ancestors ([own], [], []);
     quorum \<leftarrow> for_each (add_parent c quorum_round) included (StakeAggregator_new QuorumThreshold);
     (if smart_select \<and> \<not> agg_reached_threshold c quorum then Some (p1, [], [])
      else do {
        (quorum', ancestors, left_out) \<leftarrow> for_each (include_for_quorum c quorum_round)
          (sort_key (\<lambda>(score, _). - int score) pending) (quorum, included, []);
        (last_included, ancestors', excluded') \<leftarrow> for_each (include_accepted d c accepted_quorum_rounds quorum_round)
          left_out (vp_last_included_ancestors p1, ancestors, excluded);
        rassert (agg_reached_threshold c quorum');
        Some (p1\<lparr>vp_last_included_ancestors := last_included\<rparr>, ancestors', excluded')
      })
   }"

section \<open>Proposing\<close>

fun slots_cached :: "dag_state \<Rightarrow> slot list \<Rightarrow> bool option" where
  "slots_cached d [] = Some True"
| "slots_cached d (s # slots) = do {
     found \<leftarrow> contains_cached_block_at_slot d s;
     (if found then slots_cached d slots else Some False)
   }"

text \<open>Whether a block may be made now: at once when forced, otherwise when the leaders of the previous
  round are there and the minimum delay has passed.\<close>

definition ready_to_propose :: "nat \<Rightarrow> bool \<Rightarrow> slot list \<Rightarrow> verified_block \<Rightarrow> validator_proposer \<Rightarrow> dag_state \<Rightarrow> bool option" where
  "ready_to_propose now force leader_slots last_block p d =
     (if force then Some True
      else do {
        leaders \<leftarrow> slots_cached d leader_slots;
        Some (leaders \<and> \<not> saturating_sub now (vb_timestamp_ms last_block) * 1000000 < min_round_delay_ns (ctx_parameters (vp_context p)))
      })"

definition link_ancestor :: "verified_block \<Rightarrow> dag_state \<times> block_ref list \<Rightarrow> (dag_state \<times> block_ref list) option" where
  "link_ancestor ancestor = (\<lambda>(d, history). do {
     (d', linked) \<leftarrow> link_causal_history (reference ancestor) d;
     Some (d', history @ linked)
   })"

definition proposal_votes ::
    "validator_proposer \<Rightarrow> verified_block list \<Rightarrow> dag_state \<Rightarrow> (dag_state \<times> block_transaction_votes list) option" where
  "proposal_votes p ancestors d =
     (if transaction_voting_enabled (protocol_config (vp_context p)) then do {
        (d', new_causal_history) \<leftarrow> for_each link_ancestor ancestors (d, []);
        votes \<leftarrow> get_own_votes (vp_vote_tracker p) new_causal_history;
        Some (d', votes)
      } else Some (d, []))"

definition proposal_block ::
    "consensus_context \<Rightarrow> round \<Rightarrow> nat \<Rightarrow> block_ref list \<Rightarrow> transaction list \<Rightarrow> block_transaction_votes list \<Rightarrow> commit_vote list \<Rightarrow> block" where
  "proposal_block ctx clock_round now ancestors transactions votes commit_votes =
     (if transaction_voting_enabled (protocol_config ctx)
      then V2 \<lparr>v2_epoch = committee_epoch (ctx_committee ctx), v2_round = clock_round, v2_author = own_index ctx, v2_timestamp_ms = now,
               v2_ancestors = ancestors, v2_transactions = transactions, v2_transaction_votes = votes, v2_commit_votes = commit_votes,
               v2_misbehavior_reports = []\<rparr>
      else V1 \<lparr>v1_epoch = committee_epoch (ctx_committee ctx), v1_round = clock_round, v1_author = own_index ctx, v1_timestamp_ms = now,
               v1_ancestors = ancestors, v1_transactions = transactions, v1_commit_votes = commit_votes, v1_misbehavior_reports = []\<rparr>)"

definition record_proposal ::
    "verified_block \<Rightarrow> validator_proposer \<Rightarrow> dag_state \<Rightarrow> (validator_proposer \<times> dag_state) option" where
  "record_proposal block p d =
     (if transaction_voting_enabled (protocol_config (vp_context p)) then do {
        votes \<leftarrow> add_voted_blocks [(block, [])] (vp_vote_tracker p);
        (d', _) \<leftarrow> link_causal_history (reference block) d;
        Some (p\<lparr>vp_vote_tracker := votes\<rparr>, d')
      } else Some (p, d))"

text \<open>The part of \<open>try_new_block\<close> after the ancestors are known.\<close>

definition build_block ::
    "crypto \<Rightarrow> nat \<Rightarrow> round \<Rightarrow> verified_block list \<Rightarrow> validator_proposer \<Rightarrow> dag_state
       \<Rightarrow> (validator_proposer \<times> dag_state \<times> verified_block) option" where
  "build_block cr now clock_round ancestors p d = do {
     (consumer, transactions, acks, _) \<leftarrow> tcn_next (vp_transaction_consumer p);
     let (d1, commit_votes) = take_commit_votes MAX_COMMIT_VOTES_PER_BLOCK d;
     (d2, votes) \<leftarrow> proposal_votes p ancestors d1;
     signed_block \<leftarrow> expect_ok (SignedBlock_new cr
        (proposal_block (vp_context p) clock_round now (map reference ancestors) transactions votes commit_votes) (vp_block_signer p));
     serialized \<leftarrow> expect_ok (bcs_signed_block cr signed_block);
     let block = new_verified cr signed_block serialized;
     _ \<leftarrow> vp_last_proposed_block d2;
     d3 \<leftarrow> accept_block now block d2;
     (p1, d4) \<leftarrow> record_proposal block p d3;
     d5 \<leftarrow> flush d4;
     Some (p1\<lparr>vp_transaction_consumer := ack_transactions acks (reference block) consumer\<rparr>, d5, block)
   }"

definition note_included :: "verified_block \<Rightarrow> block_ref option list \<Rightarrow> block_ref option list option" where
  "note_included ancestor last_included = vec_set last_included (vb_author ancestor) (Some (reference ancestor))"

definition vp_try_new_block ::
    "crypto \<Rightarrow> rng_lib \<Rightarrow> nat \<Rightarrow> leader_schedule \<Rightarrow> bool \<Rightarrow> validator_proposer \<times> dag_state
       \<Rightarrow> (validator_proposer \<times> dag_state \<times> extended_block option) option" where
  "vp_try_new_block cr rng now ls force = (\<lambda>(p, d).
     if \<not> vp_should_propose p d then Some (p, d, None)
     else do {
       let c = ctx_committee (vp_context p);
       let clock_round = threshold_clock_round d;
       last_block \<leftarrow> vp_last_proposed_block d;
       (if clock_round \<le> vb_round last_block then Some (p, d, None)
        else do {
          leader_slots \<leftarrow> leader_slots_to_wait_for rng (core_committer (vp_context p) ls) (saturating_sub clock_round 1);
          ready \<leftarrow> ready_to_propose now force leader_slots last_block p d;
          (if \<not> ready then Some (p, d, None)
           else do {
             (p1, ancestors, excluded) \<leftarrow> smart_ancestors_to_propose clock_round (\<not> force) d p;
             (if ancestors = [] then do { rassert (\<not> force); Some (p1, d, None) }
              else do {
                last_included \<leftarrow> for_each note_included ancestors (vp_last_included_ancestors p1);
                _ \<leftarrow> (if enable_v3 (protocol_config (vp_context p)) then Some ()
                      else do { s \<leftarrow> bset_first leader_slots; _ \<leftarrow> committee_authority c (slot_authority s); Some () });
                _ \<leftarrow> map_opt (\<lambda>a. committee_authority c (vb_author a)) ancestors;
                (p2, d', block) \<leftarrow> build_block cr now clock_round ancestors (p1\<lparr>vp_last_included_ancestors := last_included\<rparr>) d;
                let extended_block = \<lparr>eb_block = block, eb_excluded_ancestors = take (committee_size c * 2) excluded\<rparr>;
                rounds \<leftarrow> update_from_verified_block extended_block (vp_round_tracker p2);
                Some (p2\<lparr>vp_round_tracker := rounds\<rparr>, d', Some extended_block)
              })
           })
        })
     })"

definition validator_api :: "crypto \<Rightarrow> rng_lib \<Rightarrow> validator_proposer proposer_api" where
  "validator_api cr rng = \<lparr>
     pr_try_new_block = vp_try_new_block cr rng,
     pr_should_propose = vp_should_propose,
     pr_set_propagation_delay = (\<lambda>delay p. p\<lparr>vp_propagation_delay := delay\<rparr>),
     pr_set_last_known_proposed_round = (\<lambda>r p. p\<lparr>vp_last_known_proposed_round := Some r\<rparr>),
     pr_get_last_known_proposed_round = vp_last_known_proposed_round,
     pr_last_proposed_round = (\<lambda>p d. map_option vb_round (vp_last_proposed_block d)),
     pr_last_proposed_block = (\<lambda>p d. vp_last_proposed_block d),
     pr_set_propagation_scores = (\<lambda>scores p. p\<lparr>vp_ancestor_state_manager := set_propagation_scores scores (vp_ancestor_state_manager p)\<rparr>),
     pr_notify_own_blocks_committed = (\<lambda>refs r p. p\<lparr>vp_transaction_consumer := notify_own_blocks_status refs r (vp_transaction_consumer p)\<rparr>)\<rparr>"

end
