(* ===== verification/Commit_Vote_Monitor.thy ===== *)
theory Commit_Vote_Monitor
  imports Quorum_Scan
begin

text \<open>
  The commit vote monitor of \<open>commit_vote_monitor.rs\<close>: the highest commit index each authority voted
  for, the index certified by a quorum, and the test for lagging behind it.
\<close>

section \<open>State and operations\<close>

definition COMMIT_LAG_MULTIPLIER :: nat where
  "COMMIT_LAG_MULTIPLIER = 5"

definition is_commit_lagging :: "consensus_context \<Rightarrow> commit_index \<Rightarrow> commit_index \<Rightarrow> bool option" where
  "is_commit_lagging ctx local_commit_index quorum_index = do {
     lag \<leftarrow> u32_mul (commit_sync_batch_size (ctx_parameters ctx)) COMMIT_LAG_MULTIPLIER;
     bound \<leftarrow> u32_add local_commit_index lag;
     Some (bound < quorum_index)
   }"

record commit_vote_monitor =
  cvm_context :: consensus_context
  highest_voted_commits :: "commit_index list"

definition CommitVoteMonitor_new :: "consensus_context \<Rightarrow> commit_vote_monitor" where
  "CommitVoteMonitor_new ctx = \<lparr>cvm_context = ctx, highest_voted_commits = replicate (committee_size (ctx_committee ctx)) 0\<rparr>"

definition observe_vote :: "authority_index \<Rightarrow> commit_ref \<Rightarrow> commit_index list \<Rightarrow> commit_index list option" where
  "observe_vote author v highest = do {
     old \<leftarrow> vec_get highest author;
     (if cr_index v > old then vec_set highest author (cr_index v) else Some highest)
   }"

definition observe_block :: "verified_block \<Rightarrow> commit_vote_monitor \<Rightarrow> commit_vote_monitor option" where
  "observe_block block m = do {
     highest \<leftarrow> for_each (observe_vote (vb_author block)) (b_commit_votes (vb_inner block)) (highest_voted_commits m);
     Some (m\<lparr>highest_voted_commits := highest\<rparr>)
   }"

definition quorum_commit_index :: "commit_vote_monitor \<Rightarrow> commit_index option" where
  "quorum_commit_index m = (
     let c = ctx_committee (cvm_context m) in do {
       found \<leftarrow> quorum_scan (quorum_threshold c) (rev (sort (stake_pairs c (highest_voted_commits m)))) 0;
       Some (case found of Some index \<Rightarrow> index | None \<Rightarrow> GENESIS_COMMIT_INDEX)
     })"

section \<open>Correctness\<close>

lemma observe_votes:
  assumes "author < length highest"
  shows "for_each (observe_vote author) vs highest = Some (highest[author := fold max (map cr_index vs) (highest ! author)])"
  using assms
proof (induction vs arbitrary: highest)
  case (Cons v vs)
  have "observe_vote author v highest = Some (highest[author := max (cr_index v) (highest ! author)])"
    using Cons.prems by (simp add: observe_vote_def vec_get_def vec_set_def max_def)
  then show ?case using Cons.IH [of "highest[author := max (cr_index v) (highest ! author)]"] Cons.prems by simp
qed simp

text \<open>
  C14. The quorum commit index is the largest certified index: it is defined, an index is at most the
  quorum commit index exactly when authorities of a quorum voted for it or a later one, and some
  honest authority voted for it, whatever authorities of at most \<open>f\<close> stake vote.
\<close>

theorem quorum_commit_index_is_largest_certified:
  assumes "committee_wf (ctx_committee (cvm_context m))"
    and "length (highest_voted_commits m) = committee_size (ctx_committee (cvm_context m))"
    and "faulty_ok (ctx_committee (cvm_context m)) F"
  shows "\<exists>q. quorum_commit_index m = Some q
     \<and> (\<forall>s. s \<le> q \<longleftrightarrow> reached_quorum (ctx_committee (cvm_context m))
          (stake_of (ctx_committee (cvm_context m)) {a \<in> members (ctx_committee (cvm_context m)). s \<le> highest_voted_commits m ! a}))
     \<and> (\<exists>a\<in>members (ctx_committee (cvm_context m)). a \<notin> F \<and> q \<le> highest_voted_commits m ! a)"
proof -
  let ?c = "ctx_committee (cvm_context m)" and ?xs = "highest_voted_commits m"
  from quorum_scan_highest [OF assms(1,2) _ rev_sort_descending] obtain q where
    q: "quorum_scan (quorum_threshold ?c) (rev (sort (stake_pairs ?c ?xs))) 0 = Some (Some q)"
      "stake_where ?c ?xs (\<lambda>x. q < x) < quorum_threshold ?c" "quorum_threshold ?c \<le> stake_where ?c ?xs (\<lambda>x. q \<le> x)" by auto
  show ?thesis
    using q(1) low_quorum_iff [OF q(2,3)] honest_inside [OF assms(1,3) q(3)]
    by (intro exI [of _ q]) (simp add: quorum_commit_index_def Let_def reached_quorum_def stake_where_def)
qed

theorem quorum_commit_index_is_largest_certified_witness:
  "\<exists>q. quorum_commit_index \<lparr>cvm_context = sample_context, highest_voted_commits = [4, 9, 6, 5]\<rparr> = Some q \<and> 5 \<le> q \<and> \<not> 6 \<le> q"
proof -
  let ?m = "\<lparr>cvm_context = sample_context, highest_voted_commits = [4, 9, 6, 5]\<rparr>"
  have "faulty_ok sample_committee {1}" by (simp add: faulty_ok_def fault_tolerance_def stake_of_def sample_stake_at)
  then obtain q where q: "quorum_commit_index ?m = Some q"
    "\<And>s. s \<le> q \<longleftrightarrow> reached_quorum sample_committee (stake_of sample_committee {a \<in> members sample_committee. s \<le> [4, 9, 6, 5] ! a})"
    using quorum_commit_index_is_largest_certified [of ?m "{1}"] sample_committee_wf by auto
  have "{a \<in> members sample_committee. 5 \<le> [4, 9, 6, 5 :: nat] ! a} = {1, 2, 3}"
    "{a \<in> members sample_committee. 6 \<le> [4, 9, 6, 5 :: nat] ! a} = {1, 2}"
    by (auto simp: members_def less_Suc_eq numeral_eq_Suc)
  then show ?thesis
    using q(1) q(2) [of 5] q(2) [of 6] by (simp add: reached_quorum_def stake_of_def sample_stake_at)
qed

end
